(* ===== verification/Spdk_Prelude.thy ===== *)
theory Spdk_Prelude
  imports Main "HOL-Library.Word"
begin

text \<open>
  What every component of the model shares: the machine integers of the code, the C++
  exceptions as values, the shape of an operation that changes state and may throw, and the
  generic lemmas on words and lists that the component proofs use.

  The code targets 64-bit Linux, so \<open>std::uint64_t\<close> and \<open>std::size_t\<close> are both 64 bits
  wide and \<open>int\<close> is 32 bits wide.
\<close>

section \<open>Machine integers\<close>

type_synonym u8 = "8 word"
type_synonym u32 = "32 word"
type_synonym u64 = "64 word"

text \<open>\<open>std::numeric_limits<std::uint64_t>::max()\<close>, which is also the one of \<open>size_t\<close>.\<close>

definition u64_max :: u64 where
  "u64_max = 0xFFFFFFFFFFFFFFFF"

named_theorems unat_arith_simps "comparison and arithmetic of words, read as natural numbers"

lemma unat_u64_max [simp]: "unat u64_max = 2 ^ 64 - 1"
  by (simp add: u64_max_def)

lemma unat_u64_bound [simp]: "unat (w :: u64) < 18446744073709551616"
  by (rule order_less_le_trans [OF unsigned_less]) simp

lemma unat_u32_bound [simp]: "unat (w :: u32) < 4294967296"
  by (rule order_less_le_trans [OF unsigned_less]) simp

lemma unat_le_u64_max: "unat (w :: u64) \<le> 18446744073709551615"
  using unat_u64_bound [of w] by linarith

lemma unat_le_u32_max: "unat (w :: u32) \<le> 4294967295"
  using unat_u32_bound [of w] by linarith

declare word_le_nat_alt [unat_arith_simps]
  and word_less_nat_alt [unat_arith_simps]
  and unat_div [unat_arith_simps]
  and unat_mod [unat_arith_simps]

lemma unat_eq_iff [unat_arith_simps]: "(a :: 'a::len word) = b \<longleftrightarrow> unat a = unat b"
  by (simp add: word_unat_eq_iff)

lemma unat_add_u64: "unat a + unat b < 2 ^ 64 \<Longrightarrow> unat (a + b :: u64) = unat a + unat b"
  by (simp add: unat_word_ariths)

lemma unat_sub_u64: "b \<le> a \<Longrightarrow> unat (a - b :: u64) = unat a - unat b"
  by (rule unat_sub)

lemma unat_mult_u64: "unat a * unat b < 2 ^ 64 \<Longrightarrow> unat (a * b :: u64) = unat a * unat b"
  by (simp add: unat_word_ariths)

lemma unat_min_u64 [simp]: "unat (min a b :: u64) = min (unat a) (unat b)"
  by (simp add: min_def word_le_nat_alt)

lemma unat_ucast_u32_u64 [simp]: "unat (ucast (w :: u32) :: u64) = unat w"
  by (simp add: unsigned_ucast_eq take_bit_nat_eq_self order_less_le_trans [OF unat_u32_bound])

section \<open>Exceptions\<close>

text \<open>
  The standard exceptions the code throws, with the text it gives them. An operation that
  may throw returns a sum, with the exception on the left. Where the operation also changes
  an object, it returns the changed object next to the sum: a C++ exception does not undo
  the changes made before it.
\<close>

datatype exn =
    Invalid_argument string
  | Runtime_error string
  | Logic_error string
  | Overflow_error string
  | Out_of_range string

type_synonym 'a result = "exn + 'a"

fun is_ok :: "'a result \<Rightarrow> bool" where
  "is_ok (Inl e) \<longleftrightarrow> False"
| "is_ok (Inr x) \<longleftrightarrow> True"

text \<open>\<open>error.what()\<close>.\<close>

fun what :: "exn \<Rightarrow> string" where
  "what (Invalid_argument s) = s"
| "what (Runtime_error s) = s"
| "what (Logic_error s) = s"
| "what (Overflow_error s) = s"
| "what (Out_of_range s) = s"

lemma is_ok_iff: "is_ok r \<longleftrightarrow> (\<exists>x. r = Inr x)"
  by (cases r) simp_all

section \<open>Decimal text\<close>

text \<open>\<open>std::to_string\<close> and \<open>operator<<\<close> of an unsigned and of a signed integer.\<close>

text \<open>The apostrophe, for messages that quote a name.\<close>

abbreviation quote :: string where
  "quote \<equiv> [CHR 0x27]"

fun nat_to_string :: "nat \<Rightarrow> string" where
  "nat_to_string n =
     (if n < 10 then [char_of (48 + n)]
      else nat_to_string (n div 10) @ [char_of (48 + n mod 10)])"

declare nat_to_string.simps [simp del]

definition int_to_string :: "int \<Rightarrow> string" where
  "int_to_string i = (if i < 0 then CHR ''-'' # nat_to_string (nat (- i)) else nat_to_string (nat i))"

section \<open>Lists\<close>

lemma take_append_le: "n \<le> length xs \<Longrightarrow> take n (xs @ ys) = take n xs"
  by simp

lemma sorted_distinct_unique:
  fixes xs ys :: "nat list"
  assumes "sorted xs" "distinct xs" "sorted ys" "distinct ys" "set xs = set ys"
  shows "xs = ys"
  using assms by (rule sorted_distinct_set_unique)

lemma upt_join: "i \<le> j \<Longrightarrow> j \<le> k \<Longrightarrow> [i..<j] @ [j..<k] = [i..<k]"
  using upt_add_eq_append [of i j "k - j"] by simp

end
