(* ===== verification/Ordered_Map.thy ===== *)
theory Ordered_Map
  imports Spdk_Prelude
begin

text \<open>
  The operations of \<open>std::map\<close> the page allocator uses, on association lists kept in
  strictly increasing key order, which is the order in which a range-for loop visits a
  \<open>std::map\<close>. An iterator is the entry it points to, and \<open>None\<close> is \<open>end()\<close>.
\<close>

type_synonym ('k, 'v) omap = "('k \<times> 'v) list"

definition om_ok :: "('k::linorder, 'v) omap \<Rightarrow> bool" where
  "om_ok m \<longleftrightarrow> sorted_wrt (<) (map fst m)"

definition om_find :: "'k \<Rightarrow> ('k, 'v) omap \<Rightarrow> 'v option" where
  "om_find k m = map_of m k"

text \<open>\<open>lower_bound(k)\<close>: the first entry whose key is not below \<open>k\<close>.\<close>

fun om_lower_bound :: "'k::linorder \<Rightarrow> ('k, 'v) omap \<Rightarrow> ('k \<times> 'v) option" where
  "om_lower_bound k [] = None"
| "om_lower_bound k (e # m) = (if fst e < k then om_lower_bound k m else Some e)"

text \<open>\<open>std::prev(lower_bound(k))\<close>, and \<open>None\<close> where \<open>lower_bound(k)\<close> is \<open>begin()\<close>.\<close>

fun om_before :: "'k::linorder \<Rightarrow> ('k, 'v) omap \<Rightarrow> ('k \<times> 'v) option" where
  "om_before k [] = None"
| "om_before k (e # m) =
     (if fst e < k
      then (case om_before k m of None \<Rightarrow> Some e | Some e' \<Rightarrow> Some e')
      else None)"

fun om_erase :: "'k \<Rightarrow> ('k, 'v) omap \<Rightarrow> ('k, 'v) omap" where
  "om_erase k [] = []"
| "om_erase k (e # m) = (if fst e = k then m else e # om_erase k m)"

text \<open>\<open>emplace(k, v)\<close>: keeps the present entry when the key is already there.\<close>

fun om_emplace :: "'k::linorder \<Rightarrow> 'v \<Rightarrow> ('k, 'v) omap \<Rightarrow> ('k, 'v) omap" where
  "om_emplace k v [] = [(k, v)]"
| "om_emplace k v (e # m) =
     (if k < fst e then (k, v) # e # m
      else if k = fst e then e # m
      else e # om_emplace k v m)"

section \<open>A map cut at a key\<close>

text \<open>
  The proofs cut a map at a key into the entries below it and the others: \<open>lower_bound\<close>
  is the head of the second part, its predecessor the last of the first part.
\<close>

lemma om_ok_append:
  "om_ok (l @ r) \<longleftrightarrow> om_ok l \<and> om_ok r \<and> (\<forall>a\<in>set l. \<forall>b\<in>set r. fst a < fst b)"
  by (auto simp: om_ok_def sorted_wrt_append)

lemma om_ok_Cons: "om_ok (e # m) \<longleftrightarrow> (\<forall>b\<in>set m. fst e < fst b) \<and> om_ok m"
  by (auto simp: om_ok_def)

lemma om_ok_Nil [simp]: "om_ok []"
  by (simp add: om_ok_def)

lemma om_lower_bound_cut:
  assumes "\<forall>a\<in>set l. fst a < k" and "\<forall>b\<in>set r. k \<le> fst b"
  shows "om_lower_bound k (l @ r) = (case r of [] \<Rightarrow> None | e # _ \<Rightarrow> Some e)"
  using assms by (induction l) (auto split: list.splits)

lemma om_before_upper: "\<forall>b\<in>set r. k \<le> fst b \<Longrightarrow> om_before k r = None"
  by (cases r) auto

lemma om_before_cut:
  assumes "\<forall>a\<in>set l. fst a < k" and "\<forall>b\<in>set r. k \<le> fst b"
  shows "om_before k (l @ r) = (if l = [] then None else Some (last l))"
  using assms by (induction l) (auto simp: om_before_upper)

lemma om_erase_cut:
  assumes "om_ok (l @ e # r)"
  shows "om_erase (fst e) (l @ e # r) = l @ r"
  using assms by (induction l) (auto simp: om_ok_Cons)

lemma om_emplace_cut:
  assumes "\<forall>a\<in>set l. fst a < k" and "\<forall>b\<in>set r. k < fst b"
  shows "om_emplace k v (l @ r) = l @ (k, v) # r"
proof (use assms in \<open>induction l\<close>)
  case Nil
  then show ?case by (cases r) auto
qed auto

lemma om_find_Cons [simp]: "om_find k ((k', v) # m) = (if k = k' then Some v else om_find k m)"
  by (simp add: om_find_def)

lemma om_cut:
  fixes k :: "'k::linorder"
  assumes "om_ok m"
  obtains l r where "m = l @ r" and "\<forall>a\<in>set l. fst a < k" and "\<forall>b\<in>set r. k \<le> fst b"
proof
  show "m = takeWhile (\<lambda>e. fst e < k) m @ dropWhile (\<lambda>e. fst e < k) m" by simp
  show "\<forall>a\<in>set (takeWhile (\<lambda>e. fst e < k) m). fst a < k"
    by (auto dest: set_takeWhileD)
  show "\<forall>b\<in>set (dropWhile (\<lambda>e. fst e < k) m). k \<le> fst b"
    using assms
  proof (induction m)
    case (Cons e m)
    then show ?case
      by (cases "fst e < k") (auto simp: om_ok_Cons not_less intro: order_trans less_imp_le)
  qed simp
qed

end
