(* ===== verification/Page_Allocator.thy ===== *)
theory Page_Allocator
  imports Ordered_Map
begin

text \<open>
  The page allocator of \<open>bdev/csrc/page_extent_allocator.{h,cpp}\<close>: a first-fit allocator
  of page ranges over an ordered map from the first page of a free range to its length. The
  first section holds the operations, the second what they mean: the list of free pages.

  Every public operation takes the allocator's mutex, so operations are atomic and the model
  is sequential.
\<close>

section \<open>State and operations\<close>

record page_extent =
  first_page :: u64
  page_count :: u64

record page_allocator =
  free_extents :: "(u64, u64) omap"
  total_page_count :: u64
  free_page_count :: u64

definition new_page_allocator :: "u64 \<Rightarrow> page_allocator result" where
  "new_page_allocator n =
     (if n = 0 then Inl (Invalid_argument ''page allocator requires at least one page'')
      else Inr \<lparr>free_extents = om_emplace 0 n [], total_page_count = n, free_page_count = n\<rparr>)"

text \<open>
  The first loop of \<open>allocate\<close>: collects fragments in page order until the request is
  covered; the second component is what stays uncovered.
\<close>

fun first_fit :: "u64 \<Rightarrow> (u64, u64) omap \<Rightarrow> page_extent list \<times> u64" where
  "first_fit remaining [] = ([], remaining)"
| "first_fit remaining ((first, cnt) # m) =
     (let allocated = min remaining cnt; rest = remaining - allocated
      in if rest = 0 then ([\<lparr>first_page = first, page_count = allocated\<rparr>], rest)
         else (case first_fit rest m of
                 (es, r) \<Rightarrow> (\<lparr>first_page = first, page_count = allocated\<rparr> # es, r)))"

text \<open>
  The second loop of \<open>allocate\<close>: takes every fragment out of the free map. The map is
  returned on the error path too, as the loop changes it in place.
\<close>

fun take_extents :: "page_extent list \<Rightarrow> (u64, u64) omap \<Rightarrow> unit result \<times> (u64, u64) omap" where
  "take_extents [] m = (Inr (), m)"
| "take_extents (e # es) m =
     (case om_find (first_page e) m of
        None \<Rightarrow> (Inl (Logic_error ''page allocator free extent accounting is corrupt''), m)
      | Some old \<Rightarrow>
          if old < page_count e
          then (Inl (Logic_error ''page allocator free extent accounting is corrupt''), m)
          else
            let m1 = om_erase (first_page e) m;
                m2 = (if old \<noteq> page_count e
                      then om_emplace (first_page e + page_count e) (old - page_count e) m1
                      else m1)
            in take_extents es m2)"

definition allocate :: "u64 \<Rightarrow> page_allocator \<Rightarrow> page_extent list result \<times> page_allocator" where
  "allocate n a =
     (if n = 0 then (Inl (Invalid_argument ''page allocation must not be empty''), a)
      else if n > free_page_count a
      then (Inl (Runtime_error ''page allocator capacity exhausted''), a)
      else
        case first_fit n (free_extents a) of (es, remaining) \<Rightarrow>
          if remaining \<noteq> 0
          then (Inl (Logic_error ''page allocator free extent accounting is corrupt''), a)
          else
            case take_extents es (free_extents a) of
              (Inl err, m) \<Rightarrow> (Inl err, a\<lparr>free_extents := m\<rparr>)
            | (Inr _, m) \<Rightarrow>
                (Inr es, a\<lparr>free_extents := m, free_page_count := free_page_count a - n\<rparr>))"

text \<open>
  \<open>insert_free_extent_locked\<close>: both neighbours are checked before the map changes, so the
  error case carries no map.
\<close>

definition insert_free_extent_locked ::
  "page_extent \<Rightarrow> (u64, u64) omap \<Rightarrow> (u64, u64) omap result" where
  "insert_free_extent_locked e m =
     (let nxt = om_lower_bound (first_page e) m;
          prv = om_before (first_page e) m;
          extent_end = first_page e + page_count e
      in if (case prv of None \<Rightarrow> False | Some (pf, pc) \<Rightarrow> pf + pc > first_page e)
         then Inl (Invalid_argument ''page extent release overlaps free space'')
         else if (case nxt of None \<Rightarrow> False | Some (nf, nc) \<Rightarrow> extent_end > nf)
         then Inl (Invalid_argument ''page extent release overlaps free space'')
         else
           let (first1, count1, m1) =
                 (case prv of
                    Some (pf, pc) \<Rightarrow>
                      if pf + pc = first_page e
                      then (pf, page_count e + pc, om_erase pf m)
                      else (first_page e, page_count e, m)
                  | None \<Rightarrow> (first_page e, page_count e, m));
               (count2, m2) =
                 (case nxt of
                    Some (nf, nc) \<Rightarrow>
                      if extent_end = nf then (count1 + nc, om_erase nf m1) else (count1, m1)
                  | None \<Rightarrow> (count1, m1))
           in Inr (om_emplace first1 count2 m2))"

text \<open>
  \<open>release\<close>: extents before a refused one stay released, because the loop updates the
  allocator extent by extent.
\<close>

fun release :: "page_extent list \<Rightarrow> page_allocator \<Rightarrow> unit result \<times> page_allocator" where
  "release [] a = (Inr (), a)"
| "release (e # es) a =
     (if page_count e = 0 \<or> first_page e > u64_max - page_count e \<or>
         first_page e + page_count e > total_page_count a
      then (Inl (Invalid_argument ''invalid page extent release''), a)
      else
        case insert_free_extent_locked e (free_extents a) of
          Inl err \<Rightarrow> (Inl err, a)
        | Inr m \<Rightarrow>
            let a1 = a\<lparr>free_extents := m\<rparr>
            in if free_page_count a1 > u64_max - page_count e
               then (Inl (Overflow_error ''page allocator free count overflows uint64_t''), a1)
               else release es (a1\<lparr>free_page_count := free_page_count a1 + page_count e\<rparr>))"

section \<open>The free pages\<close>

text \<open>
  What the free map stands for: the list of its pages, in order. \<open>coalesced lo m\<close> says that
  the extents start at \<open>lo\<close> or later, are not empty, and that two neighbours neither overlap
  nor touch.
\<close>

definition ext_pages :: "u64 \<Rightarrow> u64 \<Rightarrow> nat list" where
  "ext_pages f c = [unat f ..< unat f + unat c]"

fun page_list :: "(u64, u64) omap \<Rightarrow> nat list" where
  "page_list [] = []"
| "page_list ((f, c) # m) = ext_pages f c @ page_list m"

fun extents_pages :: "page_extent list \<Rightarrow> nat list" where
  "extents_pages [] = []"
| "extents_pages (e # es) = ext_pages (first_page e) (page_count e) @ extents_pages es"

fun coalesced :: "nat \<Rightarrow> (u64, u64) omap \<Rightarrow> bool" where
  "coalesced lo [] \<longleftrightarrow> True"
| "coalesced lo ((f, c) # m) \<longleftrightarrow>
     lo \<le> unat f \<and> 0 < unat c \<and> coalesced (unat f + unat c + 1) m"

definition free_pages :: "page_allocator \<Rightarrow> nat list" where
  "free_pages a = page_list (free_extents a)"

definition alloc_inv :: "page_allocator \<Rightarrow> bool" where
  "alloc_inv a \<longleftrightarrow>
     coalesced 0 (free_extents a) \<and>
     (\<forall>p\<in>set (free_pages a). p < unat (total_page_count a)) \<and>
     unat (free_page_count a) = length (free_pages a)"

lemma set_ext_pages [simp]: "set (ext_pages f c) = {unat f ..< unat f + unat c}"
  by (simp add: ext_pages_def)

lemma length_ext_pages [simp]: "length (ext_pages f c) = unat c"
  by (simp add: ext_pages_def)

lemma page_list_append [simp]: "page_list (l @ r) = page_list l @ page_list r"
  by (induction l) auto

lemma coalesced_mono: "coalesced lo m \<Longrightarrow> lo' \<le> lo \<Longrightarrow> coalesced lo' m"
  by (cases m) auto

lemma coalesced_lower: "coalesced lo m \<Longrightarrow> p \<in> set (page_list m) \<Longrightarrow> lo \<le> p"
  by (induction m arbitrary: lo) fastforce+

lemma coalesced_key: "coalesced lo m \<Longrightarrow> e \<in> set m \<Longrightarrow> lo \<le> unat (fst e)"
  by (induction m arbitrary: lo) fastforce+

lemma coalesced_om_ok: "coalesced lo m \<Longrightarrow> om_ok m"
proof (induction m arbitrary: lo)
  case (Cons e m)
  then show ?case
    by (cases e) (fastforce simp: om_ok_Cons word_less_nat_alt dest: coalesced_key)
qed simp

lemma sorted_page_list: "coalesced lo m \<Longrightarrow> sorted_wrt (<) (page_list m)"
proof (induction m arbitrary: lo)
  case (Cons e m)
  then show ?case
    by (cases e) (fastforce simp: sorted_wrt_append ext_pages_def dest: coalesced_lower)
qed simp

lemma distinct_page_list: "coalesced lo m \<Longrightarrow> distinct (page_list m)"
  using sorted_page_list strict_sorted_iff by blast

lemma length_page_list_le:
  assumes "coalesced lo m" and "\<forall>p\<in>set (page_list m). p < n"
  shows "length (page_list m) \<le> n"
proof -
  have "card (set (page_list m)) \<le> card {..<n}"
    using assms(2) by (intro card_mono) auto
  then show ?thesis
    by (simp add: distinct_card [OF distinct_page_list [OF assms(1)]])
qed

section \<open>Allocation\<close>

lemma allocate_loops:
  assumes "coalesced lo m" and "\<forall>p\<in>set (page_list m). p < 2 ^ 64"
    and "n \<noteq> 0" and "unat n \<le> length (page_list m)"
  shows "\<exists>es m'. first_fit n m = (es, 0) \<and> take_extents es m = (Inr (), m') \<and>
    extents_pages es = take (unat n) (page_list m) \<and>
    page_list m' = drop (unat n) (page_list m) \<and> coalesced lo m'"
  using assms
proof (induction m arbitrary: lo n)
  case Nil
  then show ?case by (simp add: unat_eq_iff)
next
  case (Cons e m)
  obtain f c where e [simp]: "e = (f, c)" by (cases e)
  have ok: "om_ok ((f, c) # m)"
    using coalesced_om_ok [OF Cons.prems(1)] by simp
  show ?case
  proof (cases "n < c")
    case True
    have end_f: "unat (f + n) = unat f + unat n"
    proof (rule unat_add_u64)
      have "unat f + unat n \<in> set (page_list (e # m))"
        using True by (simp add: word_less_nat_alt)
      with Cons.prems(2) show "unat f + unat n < 2 ^ 64" by blast
    qed
    have keys: "\<forall>b\<in>set m. f + n < fst b"
    proof
      fix b assume "b \<in> set m"
      with Cons.prems(1) have "unat f + unat c + 1 \<le> unat (fst b)"
        by (auto dest: coalesced_key)
      with True end_f show "f + n < fst b" by (simp add: word_less_nat_alt)
    qed
    have count: "unat (c - n) = unat c - unat n"
      using True by (intro unat_sub_u64) (simp add: word_le_nat_alt word_less_nat_alt)
    have emp: "om_emplace (f + n) (c - n) m = (f + n, c - n) # m"
      using keys om_emplace_cut [of "[]" "f + n" m "c - n"] by simp
    have pages: "extents_pages [\<lparr>first_page = f, page_count = n\<rparr>] = take (unat n) (page_list (e # m))"
      using True by (simp add: ext_pages_def take_upt word_less_nat_alt)
    have rest: "page_list ((f + n, c - n) # m) = drop (unat n) (page_list (e # m))"
      using True by (simp add: ext_pages_def end_f count drop_upt word_less_nat_alt)
    have co: "coalesced lo ((f + n, c - n) # m)"
      using Cons.prems(1) True by (simp add: end_f count word_less_nat_alt)
    from True have "min n c = n" by simp
    then show ?thesis
      using pages rest co True emp
      by (intro exI [of _ "[\<lparr>first_page = f, page_count = n\<rparr>]"] exI [of _ "(f + n, c - n) # m"])
        (auto simp: Let_def)
  next
    case False
    then have min: "min n c = c" by simp
    show ?thesis
    proof (cases "n = c")
      case True
      with Cons.prems show ?thesis
        by (intro exI [of _ "[\<lparr>first_page = f, page_count = c\<rparr>]"] exI [of _ m])
          (auto simp: Let_def intro: coalesced_mono)
    next
      case neq: False
      with False have lt: "c < n" by simp
      have cn: "unat (n - c) = unat n - unat c"
        using lt by (intro unat_sub_u64) simp
      from Cons.prems lt have "coalesced (unat f + unat c + 1) m"
        and "\<forall>p\<in>set (page_list m). p < 2 ^ 64" and "n - c \<noteq> 0"
        and "unat (n - c) \<le> length (page_list m)"
        by (auto simp: cn)
      then obtain es m' where IH: "first_fit (n - c) m = (es, 0)"
        "take_extents es m = (Inr (), m')"
        "extents_pages es = take (unat (n - c)) (page_list m)"
        "page_list m' = drop (unat (n - c)) (page_list m)"
        "coalesced (unat f + unat c + 1) m'"
        using Cons.IH by blast
      have "unat c \<le> unat n" using lt by (simp add: word_less_nat_alt)
      with IH Cons.prems(1) lt min show ?thesis
        by (intro exI [of _ "\<lparr>first_page = f, page_count = c\<rparr> # es"] exI [of _ m'])
          (auto simp: Let_def cn intro: coalesced_mono)
    qed
  qed
qed

lemma alloc_inv_bound:
  assumes "alloc_inv a"
  shows "\<forall>p\<in>set (page_list (free_extents a)). p < 2 ^ 64"
  using assms by (auto simp: alloc_inv_def free_pages_def intro: order_less_trans)

lemma alloc_inv_strict: "alloc_inv a \<Longrightarrow> sorted_wrt (<) (free_pages a)"
  by (auto simp: alloc_inv_def free_pages_def intro: sorted_page_list)

lemma alloc_inv_sorted: "alloc_inv a \<Longrightarrow> sorted (free_pages a)"
  using alloc_inv_strict strict_sorted_iff by blast

lemma alloc_inv_distinct: "alloc_inv a \<Longrightarrow> distinct (free_pages a)"
  using alloc_inv_strict strict_sorted_iff by blast

lemma allocate_ok:
  assumes inv: "alloc_inv a" and n: "n \<noteq> 0" "unat n \<le> length (free_pages a)"
  obtains es a' where "allocate n a = (Inr es, a')"
    and "extents_pages es = take (unat n) (free_pages a)"
    and "free_pages a' = drop (unat n) (free_pages a)"
    and "total_page_count a' = total_page_count a"
    and "alloc_inv a'"
proof -
  from inv have "coalesced 0 (free_extents a)"
    and cnt: "unat (free_page_count a) = length (free_pages a)"
    and tot: "\<forall>p\<in>set (free_pages a). p < unat (total_page_count a)"
    by (auto simp: alloc_inv_def)
  with n obtain es m' where loops: "first_fit n (free_extents a) = (es, 0)"
    "take_extents es (free_extents a) = (Inr (), m')"
    "extents_pages es = take (unat n) (free_pages a)"
    "page_list m' = drop (unat n) (free_pages a)" "coalesced 0 m'"
    using allocate_loops alloc_inv_bound [OF inv] unfolding free_pages_def by metis
  let ?a' = "a\<lparr>free_extents := m', free_page_count := free_page_count a - n\<rparr>"
  from n cnt have le: "n \<le> free_page_count a" by (simp add: word_le_nat_alt)
  have "allocate n a = (Inr es, ?a')"
    using n le loops by (simp add: allocate_def not_less)
  moreover have "alloc_inv ?a'"
    using loops cnt tot unat_sub_u64 [OF le]
    by (auto simp: alloc_inv_def free_pages_def dest: in_set_dropD)
  ultimately show ?thesis
    using that loops by (simp add: free_pages_def)
qed

lemma allocate_refused:
  assumes inv: "alloc_inv a"
  shows "fst (allocate n a) =
    (if n = 0 then Inl (Invalid_argument ''page allocation must not be empty'')
     else if length (free_pages a) < unat n
     then Inl (Runtime_error ''page allocator capacity exhausted'')
     else fst (allocate n a))"
    and "n = 0 \<or> length (free_pages a) < unat n \<Longrightarrow> snd (allocate n a) = a"
  using inv by (auto simp: allocate_def alloc_inv_def word_less_nat_alt)

section \<open>Release\<close>

text \<open>
  The free map cut at a returned extent. \<open>next_start lo m\<close> is the least page at which an
  extent that follows \<open>m\<close> may start.
\<close>

fun next_start :: "nat \<Rightarrow> (u64, u64) omap \<Rightarrow> nat" where
  "next_start lo [] = lo"
| "next_start lo ((f, c) # m) = next_start (unat f + unat c + 1) m"

lemma coalesced_append:
  "coalesced lo (l @ r) \<longleftrightarrow> coalesced lo l \<and> coalesced (next_start lo l) r"
  by (induction l arbitrary: lo) auto

lemma next_start_snoc [simp]: "next_start lo (l @ [(f, c)]) = unat f + unat c + 1"
  by (induction l arbitrary: lo) auto

lemma next_start_ge: "coalesced lo l \<Longrightarrow> lo \<le> next_start lo l"
  by (induction l arbitrary: lo) fastforce+

lemma entries_before_next_start:
  "coalesced lo l \<Longrightarrow> (f, c) \<in> set l \<Longrightarrow> 0 < unat c \<and> unat f + unat c + 1 \<le> next_start lo l"
proof (induction l arbitrary: lo)
  case (Cons e l)
  then show ?case
    using next_start_ge by (cases e) fastforce
qed simp

lemma pages_before_next_start:
  "coalesced lo l \<Longrightarrow> p \<in> set (page_list l) \<Longrightarrow> p + 1 < next_start lo l"
proof (induction l arbitrary: lo)
  case (Cons e l)
  then show ?case
    using next_start_ge by (cases e) fastforce
qed simp

definition extent_in_range :: "u64 \<Rightarrow> page_extent \<Rightarrow> bool" where
  "extent_in_range tot e \<longleftrightarrow>
     page_count e \<noteq> 0 \<and> unat (first_page e) + unat (page_count e) \<le> unat tot"

lemma release_guard:
  "(page_count e = 0 \<or> first_page e > u64_max - page_count e \<or>
     first_page e + page_count e > tot) \<longleftrightarrow> \<not> extent_in_range tot e"
proof -
  have max: "unat (u64_max - page_count e) = 2 ^ 64 - 1 - unat (page_count e)"
    by (subst unat_sub_u64) (simp_all add: word_le_nat_alt unat_le_u64_max)
  show ?thesis
  proof (cases "unat (first_page e) + unat (page_count e) < 2 ^ 64")
    case True
    then show ?thesis
      by (auto simp: extent_in_range_def word_less_nat_alt max unat_add_u64)
  next
    case False
    then have "unat (first_page e) + unat (page_count e) > unat tot"
      using unat_le_u64_max [of tot] by simp
    with False show ?thesis
      using unat_le_u64_max [of "page_count e"]
      by (auto simp: extent_in_range_def word_less_nat_alt max)
  qed
qed

lemma coalesced_end:
  assumes "coalesced lo m" and "\<forall>p\<in>set (page_list m). p < n" and "(f, c) \<in> set m"
  shows "unat f + unat c \<le> n"
proof -
  have "0 < unat c" using assms(1,3) by (induction lo m rule: coalesced.induct) auto
  moreover have "unat f + unat c - 1 \<in> set (page_list m)"
    using assms(3) \<open>0 < unat c\<close> by (induction m) auto
  ultimately show ?thesis using assms(2) by force
qed

text \<open>The four ways an accepted extent joins the free map.\<close>

lemma insert_alone:
  assumes "om_before (first_page e) m = prv" and "om_lower_bound (first_page e) m = nxt"
    and "\<And>f c. prv = Some (f, c) \<Longrightarrow> f + c < first_page e"
    and "\<And>f c. nxt = Some (f, c) \<Longrightarrow> first_page e + page_count e < f"
  shows "insert_free_extent_locked e m = Inr (om_emplace (first_page e) (page_count e) m)"
  using assms by (auto simp: insert_free_extent_locked_def Let_def split: option.splits)

lemma insert_after:
  assumes "om_before (first_page e) m = Some (f0, c0)" and "om_lower_bound (first_page e) m = nxt"
    and "f0 + c0 = first_page e"
    and "\<And>f c. nxt = Some (f, c) \<Longrightarrow> first_page e + page_count e < f"
  shows "insert_free_extent_locked e m = Inr (om_emplace f0 (page_count e + c0) (om_erase f0 m))"
  using assms by (auto simp: insert_free_extent_locked_def Let_def split: option.splits)

lemma insert_in_front:
  assumes "om_before (first_page e) m = prv"
    and "om_lower_bound (first_page e) m = Some (f1, c1)"
    and "\<And>f c. prv = Some (f, c) \<Longrightarrow> f + c < first_page e"
    and "first_page e + page_count e = f1"
  shows "insert_free_extent_locked e m =
    Inr (om_emplace (first_page e) (page_count e + c1) (om_erase f1 m))"
  using assms by (auto simp: insert_free_extent_locked_def Let_def split: option.splits)

lemma insert_between:
  assumes "om_before (first_page e) m = Some (f0, c0)"
    and "om_lower_bound (first_page e) m = Some (f1, c1)"
    and "f0 + c0 = first_page e" and "first_page e + page_count e = f1"
  shows "insert_free_extent_locked e m =
    Inr (om_emplace f0 (page_count e + c0 + c1) (om_erase f1 (om_erase f0 m)))"
  using assms by (auto simp: insert_free_extent_locked_def Let_def)

text \<open>Placing an extent between two parts of a map it neither overlaps nor touches.\<close>

lemma place_extent:
  assumes co: "coalesced 0 l" "coalesced (unat f + n + 1) r"
    and gap: "next_start 0 l \<le> unat f" and n: "0 < n" "unat f + n < 2 ^ 64"
    and c: "unat c = n"
  shows "om_emplace f c (l @ r) = l @ (f, c) # r"
    and "coalesced 0 (l @ (f, c) # r)"
    and "page_list (l @ (f, c) # r) = page_list l @ [unat f ..< unat f + n] @ page_list r"
proof -
  have "\<forall>a\<in>set l. fst a < f"
    using entries_before_next_start [OF co(1)] gap by (fastforce simp: word_less_nat_alt)
  moreover have "\<forall>b\<in>set r. f < fst b"
    using coalesced_key [OF co(2)] by (fastforce simp: word_less_nat_alt)
  ultimately show "om_emplace f c (l @ r) = l @ (f, c) # r" by (rule om_emplace_cut)
  show "coalesced 0 (l @ (f, c) # r)"
    using co gap n c by (simp add: coalesced_append)
  show "page_list (l @ (f, c) # r) = page_list l @ [unat f ..< unat f + n] @ page_list r"
    using c by (simp add: ext_pages_def)
qed

text \<open>
  \<open>fits e l r\<close>: the extent \<open>e\<close> lies between the entries \<open>l\<close> and the entries \<open>r\<close> of a
  free map, overlapping neither.
\<close>

definition fits :: "page_extent \<Rightarrow> (u64, u64) omap \<Rightarrow> (u64, u64) omap \<Rightarrow> bool" where
  "fits e l r \<longleftrightarrow>
     coalesced 0 (l @ r) \<and> (\<forall>p\<in>set (page_list r). p < 2 ^ 64 - 1) \<and>
     0 < unat (page_count e) \<and> unat (first_page e) + unat (page_count e) < 2 ^ 64 \<and>
     (\<forall>a\<in>set l. fst a < first_page e) \<and> (\<forall>b\<in>set r. first_page e \<le> fst b) \<and>
     next_start 0 l \<le> unat (first_page e) + 1 \<and>
     coalesced (unat (first_page e) + unat (page_count e)) r"

definition inserted ::
  "page_extent \<Rightarrow> (u64, u64) omap \<Rightarrow> (u64, u64) omap \<Rightarrow> (u64, u64) omap \<Rightarrow> bool" where
  "inserted e l r m \<longleftrightarrow>
     insert_free_extent_locked e (l @ r) = Inr m \<and> coalesced 0 m \<and>
     page_list m = page_list l @ ext_pages (first_page e) (page_count e) @ page_list r"

lemma fits_neighbours:
  assumes "fits e l r"
  shows "om_before (first_page e) (l @ r) = (if l = [] then None else Some (last l))"
    and "om_lower_bound (first_page e) (l @ r) = (case r of [] \<Rightarrow> None | b # _ \<Rightarrow> Some b)"
    and "unat (first_page e + page_count e) = unat (first_page e) + unat (page_count e)"
    and "om_ok (l @ r)" and "coalesced 0 l" and "coalesced (next_start 0 l) r"
  using assms
  by (simp_all add: fits_def om_before_cut om_lower_bound_cut unat_add_u64 coalesced_append
      coalesced_om_ok [of 0])

lemma fits_last:
  assumes "fits e l r" and "l = l' @ [(f, c)]"
  shows "unat (f + c) = unat f + unat c" and "unat f + unat c \<le> unat (first_page e)"
    and "0 < unat c"
  using assms unat_le_u64_max [of "first_page e"]
  by (auto simp: fits_def unat_add_u64 coalesced_append)

lemma fits_prev_apart:
  assumes "fits e l r" and "next_start 0 l \<le> unat (first_page e)"
    and "om_before (first_page e) (l @ r) = Some (f, c)"
  shows "f + c < first_page e"
  using assms fits_last [OF assms(1)] fits_neighbours(1) [OF assms(1)]
  by (cases l rule: rev_cases) (auto simp: word_less_nat_alt)

lemma fits_next_apart:
  assumes "fits e l r" and "coalesced (unat (first_page e) + unat (page_count e) + 1) r"
    and "om_lower_bound (first_page e) (l @ r) = Some (f, c)"
  shows "first_page e + page_count e < f"
  using assms fits_neighbours(2,3) [OF assms(1)]
  by (cases r) (auto simp: word_less_nat_alt)

lemma insert_fits_alone:
  assumes fits: "fits e l r" and l: "next_start 0 l \<le> unat (first_page e)"
    and r: "coalesced (unat (first_page e) + unat (page_count e) + 1) r"
  shows "\<exists>m. inserted e l r m"
proof -
  note nb = fits_neighbours [OF fits]
  have "insert_free_extent_locked e (l @ r)
      = Inr (om_emplace (first_page e) (page_count e) (l @ r))"
    using fits_prev_apart [OF fits l] fits_next_apart [OF fits r]
    by (intro insert_alone [OF refl refl]) auto
  with place_extent [OF nb(5) r l _ _ refl] show ?thesis
    using fits by (auto simp: inserted_def fits_def ext_pages_def)
qed

lemma insert_fits_after:
  assumes fits: "fits e (l @ [(f, c)]) r" and eq: "unat f + unat c = unat (first_page e)"
    and r: "coalesced (unat (first_page e) + unat (page_count e) + 1) r"
  shows "\<exists>m. inserted e (l @ [(f, c)]) r m"
proof -
  note nb = fits_neighbours [OF fits]
  let ?n = "unat c + unat (page_count e)"
  have fc: "f + c = first_page e"
    using fits_last [OF fits refl] eq by (simp add: unat_eq_iff)
  have "insert_free_extent_locked e ((l @ [(f, c)]) @ r)
      = Inr (om_emplace f (page_count e + c) (om_erase f ((l @ [(f, c)]) @ r)))"
    using nb(1) fits_next_apart [OF fits r] fc by (intro insert_after [OF _ refl]) auto
  also have "om_erase f ((l @ [(f, c)]) @ r) = l @ r"
    using om_erase_cut [of l "(f, c)" r] nb(4) by simp
  finally have ins: "insert_free_extent_locked e ((l @ [(f, c)]) @ r)
      = Inr (om_emplace f (page_count e + c) (l @ r))" .
  have n: "0 < ?n" "unat f + ?n < 2 ^ 64" using fits eq by (auto simp: fits_def)
  have c: "unat (page_count e + c) = ?n" using n by (simp add: unat_add_u64)
  have l: "coalesced 0 l" "next_start 0 l \<le> unat f"
    using nb(5) by (auto simp: coalesced_append)
  have r': "coalesced (unat f + ?n + 1) r" using r eq by (simp add: add.assoc [symmetric])
  note place = place_extent [OF l(1) r' l(2) n c]
  have "[unat f ..< unat f + ?n] = ext_pages f c @ ext_pages (first_page e) (page_count e)"
    using upt_join [of "unat f" "unat f + unat c" "unat f + ?n"]
    by (simp add: ext_pages_def eq [symmetric] add.assoc)
  then have "inserted e (l @ [(f, c)]) r (l @ (f, page_count e + c) # r)"
    unfolding inserted_def place(3) using ins place(1,2) by simp
  then show ?thesis ..
qed

lemma insert_fits_in_front:
  assumes fits: "fits e l ((f, c) # r)" and l: "next_start 0 l \<le> unat (first_page e)"
    and eq: "unat (first_page e) + unat (page_count e) = unat f"
  shows "\<exists>m. inserted e l ((f, c) # r) m"
proof -
  note nb = fits_neighbours [OF fits]
  let ?F = "unat (first_page e)" and ?n = "unat (page_count e) + unat c"
  have ef: "first_page e + page_count e = f" using nb(3) eq by (simp add: unat_eq_iff)
  have "insert_free_extent_locked e (l @ (f, c) # r)
      = Inr (om_emplace (first_page e) (page_count e + c) (om_erase f (l @ (f, c) # r)))"
    using nb(2) fits_prev_apart [OF fits l] ef by (intro insert_in_front [OF refl]) auto
  also have "om_erase f (l @ (f, c) # r) = l @ r"
    using om_erase_cut [of l "(f, c)" r] nb(4) by simp
  finally have ins: "insert_free_extent_locked e (l @ (f, c) # r)
      = Inr (om_emplace (first_page e) (page_count e + c) (l @ r))" .
  have "unat f + unat c \<le> 2 ^ 64 - 1"
    using fits coalesced_end [of _ "(f, c) # r" "2 ^ 64 - 1" f c]
    by (simp add: fits_def) blast
  then have n: "0 < ?n" "?F + ?n < 2 ^ 64" using fits eq by (auto simp: fits_def)
  have c: "unat (page_count e + c) = ?n" using n by (simp add: unat_add_u64)
  have r': "coalesced (?F + ?n + 1) r" using nb(6) eq by (simp add: add.assoc [symmetric])
  note place = place_extent [OF nb(5) r' l n c]
  have "[?F ..< ?F + ?n] = ext_pages (first_page e) (page_count e) @ ext_pages f c"
    using upt_join [of ?F "?F + unat (page_count e)" "?F + ?n"]
    by (simp add: ext_pages_def eq [symmetric] add.assoc)
  then have "inserted e l ((f, c) # r) (l @ (first_page e, page_count e + c) # r)"
    unfolding inserted_def place(3) using ins place(1,2) by simp
  then show ?thesis ..
qed

lemma insert_fits_between:
  assumes fits: "fits e (l @ [(f0, c0)]) ((f1, c1) # r)"
    and eq0: "unat f0 + unat c0 = unat (first_page e)"
    and eq1: "unat (first_page e) + unat (page_count e) = unat f1"
  shows "\<exists>m. inserted e (l @ [(f0, c0)]) ((f1, c1) # r) m"
proof -
  note nb = fits_neighbours [OF fits]
  let ?n = "unat c0 + unat (page_count e) + unat c1"
  have f0: "f0 + c0 = first_page e"
    using fits_last [OF fits refl] eq0 by (simp add: unat_eq_iff)
  have f1: "first_page e + page_count e = f1" using nb(3) eq1 by (simp add: unat_eq_iff)
  have ok: "om_ok (l @ (f0, c0) # (f1, c1) # r)" using nb(4) by simp
  then have ok': "om_ok (l @ (f1, c1) # r)" by (auto simp: om_ok_append om_ok_Cons)
  have "insert_free_extent_locked e ((l @ [(f0, c0)]) @ (f1, c1) # r)
      = Inr (om_emplace f0 (page_count e + c0 + c1)
          (om_erase f1 (om_erase f0 ((l @ [(f0, c0)]) @ (f1, c1) # r))))"
    using nb(1,2) f0 f1 by (intro insert_between) auto
  also have "om_erase f1 (om_erase f0 ((l @ [(f0, c0)]) @ (f1, c1) # r)) = l @ r"
    using om_erase_cut [OF ok] om_erase_cut [OF ok'] by simp
  finally have ins: "insert_free_extent_locked e ((l @ [(f0, c0)]) @ (f1, c1) # r)
      = Inr (om_emplace f0 (page_count e + c0 + c1) (l @ r))" .
  have "unat f1 + unat c1 \<le> 2 ^ 64 - 1"
    using fits coalesced_end [of _ "(f1, c1) # r" "2 ^ 64 - 1" f1 c1]
    by (simp add: fits_def) blast
  then have n: "0 < ?n" "unat f0 + ?n < 2 ^ 64" using fits eq0 eq1 by (auto simp: fits_def)
  have c: "unat (page_count e + c0 + c1) = ?n" using n by (simp add: unat_add_u64)
  have r': "coalesced (unat f0 + ?n + 1) r"
    using nb(6) eq0 eq1 by (simp add: add.assoc [symmetric])
  have l: "coalesced 0 l" "next_start 0 l \<le> unat f0"
    using nb(5) by (auto simp: coalesced_append)
  note place = place_extent [OF l(1) r' l(2) n c]
  have "[unat f0 ..< unat f0 + ?n]
      = ext_pages f0 c0 @ ext_pages (first_page e) (page_count e) @ ext_pages f1 c1"
    using upt_join [of "unat f0" "unat f0 + unat c0" "unat f0 + unat c0 + unat (page_count e)"]
      upt_join [of "unat f0" "unat f0 + unat c0 + unat (page_count e)" "unat f0 + ?n"]
    by (simp add: ext_pages_def eq1 [symmetric] eq0 [symmetric] add.assoc
        del: append_assoc flip: append_assoc)
  then have "inserted e (l @ [(f0, c0)]) ((f1, c1) # r) (l @ (f0, page_count e + c0 + c1) # r)"
    unfolding inserted_def place(3) using ins place(1,2) by simp
  then show ?thesis ..
qed

text \<open>Any extent that fits is inserted: the four cases together.\<close>

lemma insert_fits:
  assumes fits: "fits e l r"
  shows "\<exists>m. inserted e l r m"
proof -
  note nb = fits_neighbours [OF fits]
  have r: "coalesced (unat (first_page e) + unat (page_count e) + 1) r \<or>
      (\<exists>f c r'. r = (f, c) # r' \<and> unat (first_page e) + unat (page_count e) = unat f)"
    using fits by (cases r) (auto simp: fits_def)
  show ?thesis
  proof (cases "next_start 0 l \<le> unat (first_page e)")
    case True
    with r show ?thesis using insert_fits_alone insert_fits_in_front fits by blast
  next
    case False
    with fits obtain l' f c where l: "l = l' @ [(f, c)]" "unat f + unat c = unat (first_page e)"
      by (cases l rule: rev_cases) (auto simp: fits_def)
    with r show ?thesis using insert_fits_after insert_fits_between fits by blast
  qed
qed

lemma cut_fits:
  assumes co: "coalesced 0 (l @ r)" and below: "\<forall>p\<in>set (page_list (l @ r)). p < 2 ^ 64 - 1"
    and C: "0 < unat (page_count e)" "unat (first_page e) + unat (page_count e) < 2 ^ 64"
    and l: "\<forall>a\<in>set l. fst a < first_page e" and r: "\<forall>b\<in>set r. first_page e \<le> fst b"
    and disj: "set (ext_pages (first_page e) (page_count e)) \<inter> set (page_list (l @ r)) = {}"
  shows "fits e l r"
proof -
  let ?F = "unat (first_page e)" and ?C = "unat (page_count e)"
  have co_l: "coalesced 0 l" and co_r: "coalesced (next_start 0 l) r"
    using co by (auto simp: coalesced_append)
  have "next_start 0 l \<le> ?F + 1"
  proof (cases l rule: rev_cases)
    case (snoc l' b)
    obtain f c where [simp]: "b = (f, c)" by (cases b)
    have "unat f < ?F" using l snoc by (simp add: word_less_nat_alt)
    moreover have "?F \<in> set (ext_pages (first_page e) (page_count e))" using C by simp
    with disj have "?F \<notin> set (page_list (l @ r))" by blast
    ultimately show ?thesis using snoc by auto
  qed simp
  moreover have "coalesced (?F + ?C) r"
  proof (cases r)
    case (Cons b r')
    obtain f c where [simp]: "b = (f, c)" by (cases b)
    have "0 < unat c" and "?F \<le> unat f" using co_r r Cons by (auto simp: word_le_nat_alt)
    then have "unat f \<in> set (page_list (l @ r))" by (simp add: Cons)
    with disj have "unat f \<notin> {?F ..< ?F + ?C}" by auto
    with \<open>?F \<le> unat f\<close> show ?thesis using co_r Cons by auto
  qed simp
  ultimately show ?thesis
    using assms by (auto simp: fits_def)
qed

lemma cut_overlap:
  assumes co: "coalesced 0 (l @ r)" and below: "\<forall>p\<in>set (page_list (l @ r)). p < 2 ^ 64 - 1"
    and C: "unat (first_page e) + unat (page_count e) < 2 ^ 64"
    and l: "\<forall>a\<in>set l. fst a < first_page e" and r: "\<forall>b\<in>set r. first_page e \<le> fst b"
    and p: "p \<in> set (ext_pages (first_page e) (page_count e))" "p \<in> set (page_list (l @ r))"
  shows "insert_free_extent_locked e (l @ r)
    = Inl (Invalid_argument ''page extent release overlaps free space'')"
proof -
  let ?F = "unat (first_page e)" and ?C = "unat (page_count e)"
  have co_l: "coalesced 0 l" and co_r: "coalesced (next_start 0 l) r"
    using co by (auto simp: coalesced_append)
  have FC: "unat (first_page e + page_count e) = ?F + ?C" using C by (simp add: unat_add_u64)
  have prv: "om_before (first_page e) (l @ r) = (if l = [] then None else Some (last l))"
    and nxt: "om_lower_bound (first_page e) (l @ r) = (case r of [] \<Rightarrow> None | b # _ \<Rightarrow> Some b)"
    using l r by (simp_all add: om_before_cut om_lower_bound_cut)
  consider "p \<in> set (page_list l)" | "p \<in> set (page_list r)" using p(2) by auto
  then show ?thesis
  proof cases
    case 1
    then obtain l' f c where s: "l = l' @ [(f, c)]"
      by (cases l rule: rev_cases) (auto simp del: page_list_append)
    have "p < unat f + unat c"
      using pages_before_next_start [OF co_l 1] by (simp add: s)
    moreover have "unat f + unat c \<le> 2 ^ 64 - 1"
      using coalesced_end [OF co below, of f c] by (simp add: s)
    ultimately have "f + c > first_page e"
      using p(1) by (simp add: word_less_nat_alt unat_add_u64)
    then show ?thesis using prv by (simp add: insert_free_extent_locked_def Let_def s)
  next
    case 2
    then obtain f c r' where s: "r = (f, c) # r'" by (cases r) auto
    with 2 co_r have "unat f \<le> p" using coalesced_lower [of "unat f" r p] by auto
    then have "first_page e + page_count e > f"
      using p(1) by (simp add: word_less_nat_alt FC)
    then show ?thesis
      using nxt by (auto simp: insert_free_extent_locked_def Let_def s split: option.splits)
  qed
qed

text \<open>
  What \<open>insert_free_extent_locked\<close> does: it refuses exactly the extents that share a page
  with the free map, and else adds their pages and keeps the map coalesced.
\<close>

lemma insert_free_extent:
  assumes co: "coalesced 0 m" and below: "\<forall>p\<in>set (page_list m). p < unat tot"
    and rng: "extent_in_range tot e"
  shows "set (ext_pages (first_page e) (page_count e)) \<inter> set (page_list m) = {} \<Longrightarrow>
      \<exists>m'. insert_free_extent_locked e m = Inr m' \<and> coalesced 0 m' \<and>
        set (page_list m') = set (page_list m) \<union> set (ext_pages (first_page e) (page_count e)) \<and>
        length (page_list m') = length (page_list m) + unat (page_count e)"
    and "set (ext_pages (first_page e) (page_count e)) \<inter> set (page_list m) \<noteq> {} \<Longrightarrow>
      insert_free_extent_locked e m
        = Inl (Invalid_argument ''page extent release overlaps free space'')"
proof -
  have C: "0 < unat (page_count e)" "unat (first_page e) + unat (page_count e) < 2 ^ 64"
    using rng unat_le_u64_max [of tot] by (auto simp: extent_in_range_def unat_eq_iff)
  have below': "\<forall>p\<in>set (page_list m). p < 2 ^ 64 - 1"
    using below unat_le_u64_max [of tot] by force
  obtain l r where m: "m = l @ r" and cut: "\<forall>a\<in>set l. fst a < first_page e"
      "\<forall>b\<in>set r. first_page e \<le> fst b"
    using om_cut [OF coalesced_om_ok [OF co]] .
  {
    assume "set (ext_pages (first_page e) (page_count e)) \<inter> set (page_list m) = {}"
    then have "fits e l r"
      using cut_fits [of l r e] co below' C cut by (simp add: m)
    then obtain m' where "inserted e l r m'" using insert_fits by blast
    then show "\<exists>m'. insert_free_extent_locked e m = Inr m' \<and> coalesced 0 m' \<and>
        set (page_list m') = set (page_list m) \<union> set (ext_pages (first_page e) (page_count e)) \<and>
        length (page_list m') = length (page_list m) + unat (page_count e)"
      by (intro exI [of _ m']) (auto simp: inserted_def m)
  next
    assume "set (ext_pages (first_page e) (page_count e)) \<inter> set (page_list m) \<noteq> {}"
    then show "insert_free_extent_locked e m
        = Inl (Invalid_argument ''page extent release overlaps free space'')"
      using cut_overlap [of l r e] co below' C(2) cut unfolding m by blast
  }
qed

text \<open>One round of the loop of \<open>release\<close>.\<close>

definition refusal :: "page_extent \<Rightarrow> page_allocator \<Rightarrow> exn option" where
  "refusal e a =
     (if \<not> extent_in_range (total_page_count a) e
      then Some (Invalid_argument ''invalid page extent release'')
      else if set (ext_pages (first_page e) (page_count e)) \<inter> set (free_pages a) \<noteq> {}
      then Some (Invalid_argument ''page extent release overlaps free space'')
      else None)"

lemma release_refused:
  assumes "alloc_inv a" and "refusal e a = Some err"
  shows "release (e # es) a = (Inl err, a)"
proof (cases "extent_in_range (total_page_count a) e")
  case True
  with assms have err: "err = Invalid_argument ''page extent release overlaps free space''"
    and "set (ext_pages (first_page e) (page_count e)) \<inter> set (free_pages a) \<noteq> {}"
    by (auto simp: refusal_def split: if_splits)
  with assms(1) True have "insert_free_extent_locked e (free_extents a) = Inl err"
    using insert_free_extent(2) unfolding alloc_inv_def free_pages_def by blast
  with True show ?thesis by (simp only: release.simps release_guard if_False not_not simp_thms sum.case)
next
  case False
  with assms show ?thesis by (simp only: release.simps release_guard if_True) (simp add: refusal_def)
qed

lemma release_accepted:
  assumes inv: "alloc_inv a" and "refusal e a = None"
  obtains a' where "\<forall>es. release (e # es) a = release es a'" and "alloc_inv a'"
    and "total_page_count a' = total_page_count a"
    and "set (free_pages a') = set (free_pages a) \<union> set (ext_pages (first_page e) (page_count e))"
proof -
  from assms(2) have rng: "extent_in_range (total_page_count a) e"
    and disj: "set (ext_pages (first_page e) (page_count e)) \<inter> set (free_pages a) = {}"
    by (auto simp: refusal_def split: if_splits)
  from inv have co: "coalesced 0 (free_extents a)"
    and below: "\<forall>p\<in>set (free_pages a). p < unat (total_page_count a)"
    and cnt: "unat (free_page_count a) = length (free_pages a)"
    by (auto simp: alloc_inv_def)
  obtain m where ins: "insert_free_extent_locked e (free_extents a) = Inr m"
    and m: "coalesced 0 m"
      "set (page_list m) = set (free_pages a) \<union> set (ext_pages (first_page e) (page_count e))"
      "length (page_list m) = length (free_pages a) + unat (page_count e)"
    using insert_free_extent(1) [OF co _ rng] below disj unfolding free_pages_def by blast
  let ?a' = "a\<lparr>free_extents := m, free_page_count := free_page_count a + page_count e\<rparr>"
  have below': "\<forall>p\<in>set (page_list m). p < unat (total_page_count a)"
    using below rng by (auto simp: m(2) extent_in_range_def)
  have le: "length (page_list m) \<le> unat (total_page_count a)"
    by (rule length_page_list_le [OF m(1) below'])
  then have sum: "unat (free_page_count a) + unat (page_count e) < 2 ^ 64"
    using m(3) cnt unat_le_u64_max [of "total_page_count a"] by simp
  have max: "unat (u64_max - page_count e) = 2 ^ 64 - 1 - unat (page_count e)"
    by (subst unat_sub_u64) (simp_all add: word_le_nat_alt unat_le_u64_max)
  have "\<not> free_page_count a > u64_max - page_count e"
    using sum by (simp add: word_less_nat_alt max)
  with ins rng have "\<forall>es. release (e # es) a = release es ?a'"
    by (simp only: release.simps release_guard) (simp add: Let_def)
  moreover have "alloc_inv ?a'"
    using m(1) below' sum cnt m(3) by (simp add: alloc_inv_def free_pages_def unat_add_u64)
  ultimately show ?thesis
    by (rule that) (simp_all add: m(2) free_pages_def)
qed

lemma release_preserves: "alloc_inv a \<Longrightarrow> alloc_inv (snd (release es a))"
proof (induction es arbitrary: a)
  case (Cons e es)
  show ?case
  proof (cases "refusal e a")
    case None
    then show ?thesis using release_accepted [OF Cons.prems, of e] Cons.IH by metis
  next
    case (Some err)
    then show ?thesis using release_refused [OF Cons.prems] Cons.prems by simp
  qed
qed simp

text \<open>An extent list that may be released: in range, and no page twice or already free.\<close>

definition releasable :: "page_allocator \<Rightarrow> page_extent list \<Rightarrow> bool" where
  "releasable a es \<longleftrightarrow>
     (\<forall>e\<in>set es. extent_in_range (total_page_count a) e) \<and>
     distinct (extents_pages es) \<and> set (extents_pages es) \<inter> set (free_pages a) = {}"

lemma release_releasable:
  "alloc_inv a \<Longrightarrow>
    (fst (release es a) = Inr () \<longleftrightarrow> releasable a es) \<and>
    (releasable a es \<longrightarrow>
      total_page_count (snd (release es a)) = total_page_count a \<and>
      set (free_pages (snd (release es a))) = set (free_pages a) \<union> set (extents_pages es))"
proof (induction es arbitrary: a)
  case (Cons e es)
  show ?case
  proof (cases "refusal e a")
    case None
    then have e: "extent_in_range (total_page_count a) e"
      "set (ext_pages (first_page e) (page_count e)) \<inter> set (free_pages a) = {}"
      by (auto simp: refusal_def split: if_splits)
    obtain a' where a': "\<forall>es. release (e # es) a = release es a'" "alloc_inv a'"
      "total_page_count a' = total_page_count a"
      "set (free_pages a')
        = set (free_pages a) \<union> set (ext_pages (first_page e) (page_count e))"
      by (rule release_accepted [OF Cons.prems None])
    have "releasable a (e # es) \<longleftrightarrow> releasable a' es"
      using e a'(3,4) by (auto simp: releasable_def ext_pages_def)
    with a' show ?thesis
      using Cons.IH [OF a'(2)] by (auto simp del: release.simps)
  next
    case (Some err)
    then have "\<not> releasable a (e # es)"
      by (auto simp: refusal_def releasable_def split: if_splits)
    with release_refused [OF Cons.prems Some] show ?thesis by (simp del: release.simps)
  qed
qed (simp add: releasable_def)

text \<open>
  A refused release: the extents before the refused one are releasable and stay released, the
  refused one is not releasable after them, and nothing behind it has been looked at.
\<close>

lemma release_kept_prefix:
  "alloc_inv a \<Longrightarrow> fst (release es a) = Inl err \<Longrightarrow>
    \<exists>n < length es. releasable a (take n es) \<and> \<not> releasable a (take (Suc n) es) \<and>
      snd (release es a) = snd (release (take n es) a)"
proof (induction es arbitrary: a)
  case (Cons e es)
  show ?case
  proof (cases "refusal e a")
    case None
    then have e: "extent_in_range (total_page_count a) e"
      "set (ext_pages (first_page e) (page_count e)) \<inter> set (free_pages a) = {}"
      by (auto simp: refusal_def split: if_splits)
    obtain a' where a': "\<forall>es. release (e # es) a = release es a'" "alloc_inv a'"
      "total_page_count a' = total_page_count a"
      "set (free_pages a')
        = set (free_pages a) \<union> set (ext_pages (first_page e) (page_count e))"
      by (rule release_accepted [OF Cons.prems(1) None])
    have tail: "releasable a (e # xs) \<longleftrightarrow> releasable a' xs" for xs
      using e a'(3,4) by (auto simp: releasable_def ext_pages_def)
    obtain n where n: "n < length es" "releasable a' (take n es)"
      "\<not> releasable a' (take (Suc n) es)" "snd (release es a') = snd (release (take n es) a')"
      using Cons.IH [OF a'(2)] Cons.prems(2) unfolding a'(1) [rule_format] by blast
    show ?thesis
      by (rule exI [of _ "Suc n"]) (use n in \<open>simp add: a'(1) tail del: release.simps\<close>)
  next
    case (Some r)
    then have "\<not> releasable a [e]"
      by (auto simp: refusal_def releasable_def split: if_splits)
    with release_refused [OF Cons.prems(1) Some, of es] show ?thesis
      by (intro exI [of _ 0]) (auto simp: releasable_def)
  qed
qed simp

text \<open>
  The free map is determined by its pages, because it is coalesced: two free maps with the
  same pages are equal.
\<close>

lemma coalesced_unique:
  assumes "coalesced lo m" and "coalesced lo' m'" and "page_list m = page_list m'"
  shows "m = m'"
  using assms
proof (induction m arbitrary: lo lo' m')
  case Nil
  then show ?case by (cases m') (auto simp: ext_pages_def)
next
  case (Cons e m)
  obtain f c where e: "e = (f, c)" by (cases e)
  from Cons.prems e obtain f' c' m1 where m': "m' = (f', c') # m1"
    by (cases m') (auto simp: ext_pages_def)
  have c: "0 < unat c" "0 < unat c'" using Cons.prems e m' by auto
  have hd: "unat f = unat f'"
    using Cons.prems(3) c by (simp add: e m' ext_pages_def upt_conv_Cons)
  have cs: "unat c = unat c'"
  proof (rule ccontr)
    assume ne: "unat c \<noteq> unat c'"
    have "unat f + unat c \<notin> set (page_list (e # m))"
      using Cons.prems(1) coalesced_lower [of "unat f + unat c + 1" m] e by fastforce
    moreover have "unat f' + unat c' \<notin> set (page_list m')"
      using Cons.prems(2) coalesced_lower [of "unat f' + unat c' + 1" m1] m' by fastforce
    moreover have "set (page_list (e # m)) = set (page_list m')"
      using Cons.prems(3) by simp
    ultimately have "unat f + unat c \<notin> {unat f' ..< unat f' + unat c'}"
      and "unat f' + unat c' \<notin> {unat f ..< unat f + unat c}"
      unfolding e m' by auto
    with ne hd show False by auto
  qed
  have "page_list m = page_list m1"
    using Cons.prems(3) hd cs by (simp add: e m' ext_pages_def)
  moreover have "coalesced (unat f + unat c + 1) m" "coalesced (unat f' + unat c' + 1) m1"
    using Cons.prems e m' by auto
  ultimately show ?case
    using Cons.IH hd cs e m' by (simp add: word_unat_eq_iff)
qed

lemma alloc_inv_unique:
  assumes "alloc_inv a" and "alloc_inv b" and "total_page_count a = total_page_count b"
    and "set (free_pages a) = set (free_pages b)"
  shows "a = b"
proof -
  have "free_pages a = free_pages b"
    using assms by (intro sorted_distinct_set_unique alloc_inv_sorted alloc_inv_distinct)
  with assms show ?thesis
    using coalesced_unique [of 0 "free_extents a" 0 "free_extents b"]
    by (cases a; cases b) (simp add: alloc_inv_def free_pages_def word_unat_eq_iff)
qed

section \<open>The allocator as a store of pages\<close>

text \<open>
  What a client of the allocator relies on: its free pages as a set, and what the two
  operations do to that set.
\<close>

locale page_store =
  fixes reserve :: "u64 \<Rightarrow> 's \<Rightarrow> page_extent list result \<times> 's"
    and give_back :: "page_extent list \<Rightarrow> 's \<Rightarrow> unit result \<times> 's"
    and free :: "'s \<Rightarrow> nat set"
    and capacity :: "'s \<Rightarrow> u64"
    and inv :: "'s \<Rightarrow> bool"
  assumes reserve_ok: "inv s \<Longrightarrow> reserve n s = (Inr es, s') \<Longrightarrow>
      inv s' \<and> capacity s' = capacity s \<and> set (extents_pages es) \<subseteq> free s \<and>
      free s' = free s - set (extents_pages es) \<and> distinct (extents_pages es) \<and>
      length (extents_pages es) = unat n \<and> (\<forall>e\<in>set es. extent_in_range (capacity s) e)"
    and reserve_err: "inv s \<Longrightarrow> reserve n s = (Inl err, s') \<Longrightarrow> s' = s"
    and give_back_ok: "inv s \<Longrightarrow> \<forall>e\<in>set es. extent_in_range (capacity s) e \<Longrightarrow>
      distinct (extents_pages es) \<Longrightarrow> set (extents_pages es) \<inter> free s = {} \<Longrightarrow>
      \<exists>s'. give_back es s = (Inr (), s') \<and> inv s' \<and> capacity s' = capacity s \<and>
        free s' = free s \<union> set (extents_pages es)"
begin

text \<open>
  A ledger of who owns which extents, next to the store: every extent in range, no page
  owned twice, no owned page free, and every page either free or owned.
\<close>

definition held :: "('o \<Rightarrow> page_extent list) \<Rightarrow> nat set" where
  "held own = (\<Union>k. set (extents_pages (own k)))"

definition exclusive :: "('o \<Rightarrow> page_extent list) \<Rightarrow> bool" where
  "exclusive own \<longleftrightarrow>
     (\<forall>j k. j \<noteq> k \<longrightarrow> set (extents_pages (own j)) \<inter> set (extents_pages (own k)) = {}) \<and>
     (\<forall>k. distinct (extents_pages (own k)))"

definition ledger :: "('o \<Rightarrow> page_extent list) \<Rightarrow> 's \<Rightarrow> bool" where
  "ledger own s \<longleftrightarrow> inv s \<and> exclusive own \<and>
     (\<forall>k. \<forall>e\<in>set (own k). extent_in_range (capacity s) e) \<and>
     held own \<inter> free s = {} \<and> held own \<union> free s = {..<unat (capacity s)}"

lemma held_insert: "own k = [] \<Longrightarrow> held (own(k := es)) = set (extents_pages es) \<union> held own"
  by (force simp: held_def split: if_splits)

lemma held_remove: "held own = set (extents_pages (own k)) \<union> held (own(k := []))"
  by (force simp: held_def split: if_splits)

lemma exclusive_remove:
  assumes "exclusive own"
  shows "exclusive (own(k := []))" and "set (extents_pages (own k)) \<inter> held (own(k := [])) = {}"
  using assms by (fastforce simp: exclusive_def held_def split: if_splits)+

lemma exclusive_insert:
  assumes "exclusive own" and "distinct (extents_pages es)"
    and "set (extents_pages es) \<inter> held own = {}"
  shows "exclusive (own(k := es))"
  using assms by (auto simp: exclusive_def held_def)

lemma ledger_reserve:
  assumes "ledger own s" and "own k = []" and "reserve n s = (Inr es, s')"
  shows "ledger (own(k := es)) s'" and "length (extents_pages es) = unat n"
proof -
  have inv: "inv s" using assms(1) by (simp add: ledger_def)
  note r = reserve_ok [OF inv assms(3)]
  show "length (extents_pages es) = unat n" using r by blast
  have "set (extents_pages es) \<inter> held own = {}"
    using assms(1) r by (auto simp: ledger_def)
  then have "exclusive (own(k := es))"
    using assms(1) r by (intro exclusive_insert) (auto simp: ledger_def)
  then show "ledger (own(k := es)) s'"
    using assms(1) r by (auto simp: ledger_def held_insert [of own k, OF assms(2)])
qed

lemma ledger_give_back:
  assumes "ledger own s"
  obtains s' where "give_back (own k) s = (Inr (), s')" and "ledger (own(k := [])) s'"
    and "capacity s' = capacity s"
proof -
  have part: "held own = set (extents_pages (own k)) \<union> held (own(k := []))"
    by (rule held_remove)
  have excl: "exclusive (own(k := []))" "set (extents_pages (own k)) \<inter> held (own(k := [])) = {}"
    using exclusive_remove [of own k] assms by (simp_all add: ledger_def)
  have "\<forall>e\<in>set (own k). extent_in_range (capacity s) e" "distinct (extents_pages (own k))"
    "set (extents_pages (own k)) \<inter> free s = {}" "inv s"
    using assms part by (auto simp: ledger_def exclusive_def)
  then obtain s' where s': "give_back (own k) s = (Inr (), s')" "inv s'"
    "capacity s' = capacity s" "free s' = free s \<union> set (extents_pages (own k))"
    using give_back_ok by blast
  have "ledger (own(k := [])) s'"
    using assms s' excl part by (auto simp: ledger_def)
  with s'(1,3) that show ?thesis by blast
qed

text \<open>Handing the extents of one owner to another, as publishing a reservation does.\<close>

lemma ledger_hand_over:
  assumes "ledger own s" and "own k = []" and "j \<noteq> k"
  shows "ledger (own(k := own j, j := [])) s"
proof -
  have remove: "exclusive (own(j := []))" "set (extents_pages (own j)) \<inter> held (own(j := [])) = {}"
    using exclusive_remove [of own j] assms by (simp_all add: ledger_def)
  have upd: "own(k := own j, j := []) = (own(j := []))(k := own j)"
    using assms(3) by (auto simp: fun_eq_iff)
  have "held (own(k := own j, j := [])) = held own"
    unfolding upd using assms(2,3) held_insert [of "own(j := [])" k] held_remove [of own j] by simp
  moreover have "exclusive (own(k := own j, j := []))"
    unfolding upd using remove assms(1) by (intro exclusive_insert) (auto simp: ledger_def exclusive_def)
  ultimately show ?thesis using assms(1) by (simp add: ledger_def)
qed

text \<open>Owners may exchange what they hold.\<close>

lemma ledger_permute:
  assumes "ledger own s" and "bij f"
  shows "ledger (own \<circ> f) s"
proof -
  have "range f = UNIV" using assms(2) by (rule bij_is_surj)
  moreover have "held (own \<circ> f) = (\<Union>k\<in>range f. set (extents_pages (own k)))"
    by (simp add: held_def)
  ultimately have h: "held (own \<circ> f) = held own" by (simp add: held_def)
  have ex: "exclusive own" using assms(1) by (simp add: ledger_def)
  have "f j \<noteq> f k" if "j \<noteq> k" for j k using assms(2) that by (auto simp: bij_def dest: injD)
  then have "exclusive (own \<circ> f)" using ex unfolding exclusive_def comp_def by blast
  with h show ?thesis using assms(1) by (simp add: ledger_def)
qed

lemma ledger_swap:
  assumes "ledger own s"
  shows "ledger (own(j := own k, k := own j)) s"
proof -
  let ?f = "\<lambda>x. if x = j then k else if x = k then j else x"
  have "?f \<circ> ?f = id" by auto
  then have "bij ?f" by (rule o_bij)  (auto simp: fun_eq_iff)
  moreover have "own(j := own k, k := own j) = own \<circ> ?f" by (auto simp: fun_eq_iff)
  ultimately show ?thesis using ledger_permute [OF assms] by simp
qed

lemma ledger_free_count:
  assumes "ledger own s" and "finite (free s)"
  shows "card (held own) + card (free s) = unat (capacity s)"
proof -
  have "card (held own \<union> free s) = card (held own) + card (free s)"
    using assms finite_subset [of "held own" "{..<unat (capacity s)}"]
    by (intro card_Un_disjoint) (auto simp: ledger_def)
  with assms(1) show ?thesis by (simp add: ledger_def)
qed

end

text \<open>The fragments an allocation returns lie in the range of the allocator.\<close>

lemma first_fit_counts:
  assumes "coalesced lo m" and "n \<noteq> 0" and "first_fit n m = (es, r)"
  shows "\<forall>e\<in>set es. page_count e \<noteq> 0"
  using assms
proof (induction m arbitrary: lo n es r)
  case (Cons b m)
  obtain f c where b: "b = (f, c)" by (cases b)
  with Cons.prems(1,2) have c: "min n c \<noteq> 0" by (auto simp: min_def unat_eq_iff)
  show ?case
  proof (cases "n - min n c = 0")
    case True
    with Cons.prems(3) c b show ?thesis by (auto simp: Let_def)
  next
    case False
    obtain es' r' where rec: "first_fit (n - min n c) m = (es', r')" by fastforce
    with False Cons.prems(3) b have "es = \<lparr>first_page = f, page_count = min n c\<rparr> # es'"
      by (auto simp: Let_def)
    with Cons.IH [OF _ False rec] Cons.prems(1) b c show ?thesis by auto
  qed
qed simp

lemma extents_in_range:
  assumes "\<forall>e\<in>set es. page_count e \<noteq> 0" and "\<forall>p\<in>set (extents_pages es). p < unat tot"
  shows "\<forall>e\<in>set es. extent_in_range tot e"
  using assms
proof (induction es)
  case (Cons e es)
  then have "0 < unat (page_count e)" by (simp add: unat_eq_iff)
  with Cons.prems(2) have "unat (first_page e) + unat (page_count e) - 1 < unat tot" by auto
  with Cons show ?case by (auto simp: extent_in_range_def)
qed simp

lemma allocate_contract:
  assumes "alloc_inv a" and "allocate n a = (Inr es, a')"
  shows "alloc_inv a' \<and> total_page_count a' = total_page_count a \<and>
    set (extents_pages es) \<subseteq> set (free_pages a) \<and>
    set (free_pages a') = set (free_pages a) - set (extents_pages es) \<and>
    distinct (extents_pages es) \<and> length (extents_pages es) = unat n \<and>
    (\<forall>e\<in>set es. extent_in_range (total_page_count a) e)"
proof -
  from assms have n: "n \<noteq> 0" "unat n \<le> length (free_pages a)"
    by (auto simp: allocate_def alloc_inv_def word_less_nat_alt not_less split: if_splits)
  with allocate_ok [OF assms(1)] assms(2) have r:
    "extents_pages es = take (unat n) (free_pages a)"
    "free_pages a' = drop (unat n) (free_pages a)"
    "total_page_count a' = total_page_count a" "alloc_inv a'"
    by (metis Inr_inject prod.inject)+
  have d: "distinct (free_pages a)" by (rule alloc_inv_distinct [OF assms(1)])
  have co: "coalesced 0 (free_extents a)"
    and below: "\<forall>p\<in>set (free_pages a). p < unat (total_page_count a)"
    using assms(1) by (auto simp: alloc_inv_def)
  have "first_fit n (free_extents a) = (es, 0)"
    using assms(2) by (auto simp: allocate_def split: if_splits prod.splits sum.splits)
  then have "\<forall>e\<in>set es. page_count e \<noteq> 0"
    using first_fit_counts [OF co n(1)] by blast
  moreover have "\<forall>p\<in>set (extents_pages es). p < unat (total_page_count a)"
    using below r(1) by (auto dest: in_set_takeD)
  ultimately have rng: "\<forall>e\<in>set es. extent_in_range (total_page_count a) e"
    by (rule extents_in_range)
  have "set (free_pages a) = set (take (unat n) (free_pages a)) \<union> set (drop (unat n) (free_pages a))"
    by (metis append_take_drop_id set_append)
  moreover have "set (take (unat n) (free_pages a)) \<inter> set (drop (unat n) (free_pages a)) = {}"
    using d by (rule set_take_disj_set_drop_if_distinct) simp
  ultimately show ?thesis
    using r rng n d by (auto dest: in_set_takeD)
qed

lemma allocate_error: "alloc_inv a \<Longrightarrow> allocate n a = (Inl err, a') \<Longrightarrow> a' = a"
  using allocate_refused(2) [of a n] allocate_ok [of a n]
  by (metis Inl_Inr_False linorder_not_le prod.inject snd_conv)

interpretation pages: page_store allocate release "\<lambda>a. set (free_pages a)" total_page_count alloc_inv
proof
  fix s s' es n assume "alloc_inv s" "allocate n s = (Inr es, s')"
  then show "alloc_inv s' \<and> total_page_count s' = total_page_count s \<and>
      set (extents_pages es) \<subseteq> set (free_pages s) \<and>
      set (free_pages s') = set (free_pages s) - set (extents_pages es) \<and>
      distinct (extents_pages es) \<and> length (extents_pages es) = unat n \<and>
      (\<forall>e\<in>set es. extent_in_range (total_page_count s) e)"
    by (rule allocate_contract)
next
  fix s s' n err assume "alloc_inv s" "allocate n s = (Inl err, s')"
  then show "s' = s" by (rule allocate_error)
next
  fix s es assume s: "alloc_inv s" and "\<forall>e\<in>set es. extent_in_range (total_page_count s) e"
    "distinct (extents_pages es)" "set (extents_pages es) \<inter> set (free_pages s) = {}"
  then have "releasable s es" by (simp add: releasable_def)
  with release_releasable [OF s, of es] release_preserves [OF s, of es]
  show "\<exists>s'. release es s = (Inr (), s') \<and> alloc_inv s' \<and>
      total_page_count s' = total_page_count s \<and>
      set (free_pages s') = set (free_pages s) \<union> set (extents_pages es)"
    by (metis prod.collapse)
qed

section \<open>Properties\<close>

inductive allocator_reachable :: "u64 \<Rightarrow> page_allocator \<Rightarrow> bool" for n where
  constructed: "new_page_allocator n = Inr a \<Longrightarrow> allocator_reachable n a"
| allocated: "allocator_reachable n a \<Longrightarrow> allocator_reachable n (snd (allocate k a))"
| released: "allocator_reachable n a \<Longrightarrow> allocator_reachable n (snd (release es a))"

lemma release_total: "total_page_count (snd (release es a)) = total_page_count a"
  by (induction es arbitrary: a) (auto simp: Let_def split: sum.splits)

lemma allocate_total: "total_page_count (snd (allocate k a)) = total_page_count a"
  by (simp add: allocate_def split: prod.splits sum.splits)

lemma new_allocator_inv: "new_page_allocator n = Inr a \<Longrightarrow> alloc_inv a \<and> total_page_count a = n"
  by (auto simp: new_page_allocator_def alloc_inv_def free_pages_def unat_eq_iff split: if_splits)

lemma allocate_preserves: "alloc_inv a \<Longrightarrow> alloc_inv (snd (allocate k a))"
  by (cases "allocate k a"; cases "fst (allocate k a)")
    (auto dest: allocate_contract allocate_error)

text \<open>
  Property C1. In every allocator state that any sequence of \<open>allocate\<close> and \<open>release\<close>
  calls can reach, failed and refused ones included, the free map is disjoint, in range and
  fully coalesced, and \<open>free_page_count\<close> is the number of free pages.
\<close>

theorem page_allocator_invariant:
  assumes "allocator_reachable n a"
  shows "alloc_inv a \<and> total_page_count a = n"
  using assms
  by induction (auto simp: new_allocator_inv allocate_preserves release_preserves
      allocate_total release_total)

definition example_allocator :: page_allocator where
  "example_allocator =
     \<lparr>free_extents = [(0, 3), (5, 5)], total_page_count = 10, free_page_count = 8\<rparr>"

lemma example_allocator_inv: "alloc_inv example_allocator"
  by (simp add: alloc_inv_def example_allocator_def free_pages_def ext_pages_def)

theorem page_allocator_invariant_witness:
  "alloc_inv (snd (release [\<lparr>first_page = 0, page_count = 3\<rparr>]
     (snd (allocate 5 \<lparr>free_extents = [(0, 10)], total_page_count = 10, free_page_count = 10\<rparr>))))"
proof -
  have "new_page_allocator 10
      = Inr \<lparr>free_extents = [(0, 10)], total_page_count = 10, free_page_count = 10\<rparr>"
    by (simp add: new_page_allocator_def)
  then have "allocator_reachable 10 (snd (release [\<lparr>first_page = 0, page_count = 3\<rparr>]
     (snd (allocate 5 \<lparr>free_extents = [(0, 10)], total_page_count = 10, free_page_count = 10\<rparr>))))"
    by (intro allocator_reachable.intros)
  then show ?thesis using page_allocator_invariant by blast
qed

text \<open>
  Property C2. \<open>allocate\<close> hands out the lowest-numbered free pages: on success the
  fragments are, in order, the first \<open>k\<close> of the sorted free pages and the rest stay free. It
  fails exactly when \<open>k\<close> is zero or more than the free pages, with the matching exception, and
  then changes nothing; the \<open>logic_error\<close> branches are never taken.
\<close>

theorem allocate_lowest_pages:
  assumes "alloc_inv a"
  shows "sorted (free_pages a) \<and> distinct (free_pages a) \<and>
    (case allocate k a of
       (Inr es, a') \<Rightarrow> k \<noteq> 0 \<and> k \<le> free_page_count a \<and>
         extents_pages es = take (unat k) (free_pages a) \<and>
         free_pages a' = drop (unat k) (free_pages a) \<and>
         free_page_count a' = free_page_count a - k
     | (Inl e, a') \<Rightarrow> a' = a \<and>
         (if k = 0 then e = Invalid_argument ''page allocation must not be empty''
          else free_page_count a < k \<and>
            e = Runtime_error ''page allocator capacity exhausted''))"
proof (cases "k = 0 \<or> free_page_count a < k")
  case True
  then show ?thesis
    using alloc_inv_sorted [OF assms] alloc_inv_distinct [OF assms]
    by (auto simp: allocate_def)
next
  case False
  then have k: "k \<noteq> 0" "unat k \<le> length (free_pages a)"
    using assms by (auto simp: alloc_inv_def word_less_nat_alt)
  then obtain es a' where r: "allocate k a = (Inr es, a')"
    "extents_pages es = take (unat k) (free_pages a)"
    "free_pages a' = drop (unat k) (free_pages a)"
    using allocate_ok [OF assms] by metis
  then have "free_page_count a' = free_page_count a - k"
    by (auto simp: allocate_def split: if_splits prod.splits sum.splits)
  with r False show ?thesis
    using alloc_inv_sorted [OF assms] alloc_inv_distinct [OF assms] by auto
qed

theorem allocate_lowest_pages_witness:
  "allocate 4 example_allocator =
     (Inr [\<lparr>first_page = 0, page_count = 3\<rparr>, \<lparr>first_page = 5, page_count = 1\<rparr>],
      \<lparr>free_extents = [(6, 4)], total_page_count = 10, free_page_count = 4\<rparr>) \<and>
   sorted (free_pages example_allocator)"
  using allocate_lowest_pages [OF example_allocator_inv, of 4]
  by (simp add: allocate_def example_allocator_def Let_def)

text \<open>
  Property C3. Releasing what an allocation returned restores the allocator exactly, free map
  included: coalescing undoes every split.
\<close>

theorem allocate_release_roundtrip:
  assumes "alloc_inv a" and "allocate k a = (Inr es, a')"
  shows "release es a' = (Inr (), a)"
proof -
  note c = allocate_contract [OF assms]
  then have rel: "releasable a' es" by (auto simp: releasable_def)
  have inv': "alloc_inv a'" using c by blast
  note r = release_releasable [OF inv', of es]
  have "snd (release es a') = a"
    using assms(1) c rel r by (intro alloc_inv_unique release_preserves inv') auto
  with r rel show ?thesis by (metis prod.collapse)
qed

theorem allocate_release_roundtrip_witness:
  "release [\<lparr>first_page = 0, page_count = 3\<rparr>, \<lparr>first_page = 5, page_count = 1\<rparr>]
     \<lparr>free_extents = [(6, 4)], total_page_count = 10, free_page_count = 4\<rparr>
   = (Inr (), example_allocator)"
proof -
  have "allocate 4 example_allocator =
     (Inr [\<lparr>first_page = 0, page_count = 3\<rparr>, \<lparr>first_page = 5, page_count = 1\<rparr>],
      \<lparr>free_extents = [(6, 4)], total_page_count = 10, free_page_count = 4\<rparr>)"
    by (simp add: allocate_def example_allocator_def Let_def)
  then show ?thesis by (rule allocate_release_roundtrip [OF example_allocator_inv])
qed

text \<open>
  Property C4. \<open>release\<close> succeeds exactly on extents that are non-empty, in range, share no
  page with each other and none with the free space; then the free pages grow by exactly
  their pages. So a double release, or one that overlaps free space, is always refused. A
  refused release keeps what it had done: the extents before the first one that cannot be
  released are free, nothing else has changed.
\<close>

theorem release_exact:
  assumes "alloc_inv a"
  shows "(fst (release es a) = Inr () \<longleftrightarrow> releasable a es) \<and>
    (releasable a es \<longrightarrow>
       set (free_pages (snd (release es a))) = set (free_pages a) \<union> set (extents_pages es)) \<and>
    (es \<noteq> [] \<and> releasable a es \<longrightarrow> fst (release es (snd (release es a))) \<noteq> Inr ()) \<and>
    (\<not> releasable a es \<longrightarrow>
       (\<exists>n < length es. releasable a (take n es) \<and> \<not> releasable a (take (Suc n) es) \<and>
          alloc_inv (snd (release es a)) \<and>
          total_page_count (snd (release es a)) = total_page_count a \<and>
          set (free_pages (snd (release es a))) =
            set (free_pages a) \<union> set (extents_pages (take n es))))"
proof (intro conjI)
  note r = release_releasable [OF assms, of es]
  have "\<not> releasable (snd (release es a)) es" if "es \<noteq> []" "releasable a es"
  proof -
    obtain e es' where es: "es = e # es'" using \<open>es \<noteq> []\<close> by (cases es) auto
    then have "page_count e \<noteq> 0" using that by (auto simp: releasable_def extent_in_range_def)
    then have "unat (first_page e) \<in> set (extents_pages es)"
      using es by (simp add: unat_eq_iff)
    with r that show ?thesis by (auto simp: releasable_def)
  qed
  then show "es \<noteq> [] \<and> releasable a es \<longrightarrow> fst (release es (snd (release es a))) \<noteq> Inr ()"
    using r release_releasable [OF release_preserves [OF assms], of es es] by blast
  show "fst (release es a) = Inr () \<longleftrightarrow> releasable a es" using r by blast
  show "releasable a es \<longrightarrow>
    set (free_pages (snd (release es a))) = set (free_pages a) \<union> set (extents_pages es)"
    using r by blast
  show "\<not> releasable a es \<longrightarrow>
       (\<exists>n < length es. releasable a (take n es) \<and> \<not> releasable a (take (Suc n) es) \<and>
          alloc_inv (snd (release es a)) \<and>
          total_page_count (snd (release es a)) = total_page_count a \<and>
          set (free_pages (snd (release es a))) =
            set (free_pages a) \<union> set (extents_pages (take n es)))"
  proof
    assume "\<not> releasable a es"
    then obtain err where "fst (release es a) = Inl err" using r by (cases "fst (release es a)") auto
    then obtain n where n: "n < length es" "releasable a (take n es)"
      "\<not> releasable a (take (Suc n) es)" "snd (release es a) = snd (release (take n es) a)"
      using release_kept_prefix [OF assms] by blast
    with release_releasable [OF assms, of "take n es"] release_preserves [OF assms, of es]
    show "\<exists>n < length es. releasable a (take n es) \<and> \<not> releasable a (take (Suc n) es) \<and>
          alloc_inv (snd (release es a)) \<and>
          total_page_count (snd (release es a)) = total_page_count a \<and>
          set (free_pages (snd (release es a))) =
            set (free_pages a) \<union> set (extents_pages (take n es))"
      by (intro exI [of _ n]) simp
  qed
qed

theorem release_exact_witness:
  "fst (release [\<lparr>first_page = 3, page_count = 2\<rparr>] example_allocator) = Inr () \<and>
   fst (release [\<lparr>first_page = 4, page_count = 2\<rparr>] example_allocator) \<noteq> Inr ()"
  using release_exact [OF example_allocator_inv, of "[\<lparr>first_page = 3, page_count = 2\<rparr>]"]
    release_exact [OF example_allocator_inv, of "[\<lparr>first_page = 4, page_count = 2\<rparr>]"]
  by (simp add: releasable_def extent_in_range_def example_allocator_def free_pages_def
      ext_pages_def del: release.simps)

end
