(* ===== verification/Config_Text.thy ===== *)
theory Config_Text
  imports Spdk_Prelude "HOL-Library.List_Lexorder" "HOL-Library.Char_ord"
begin

unbundle bit_operations_syntax

text \<open>
  The text handling of the configuration: trimming, booleans, log flags and log levels
  (\<open>bdev/csrc/spdk/spdk_runtime.cpp\<close> and \<open>spdk_bdev_context.cpp\<close>) and the core mask
  (\<open>bdev/csrc/spdk_pybind_common.cpp\<close>). Characters are bytes; \<open>std::isspace\<close> and
  \<open>std::tolower\<close> are those of the C locale.
\<close>

section \<open>Trimming and options\<close>

definition is_space :: "char \<Rightarrow> bool" where
  "is_space c \<longleftrightarrow> (of_char c :: nat) = 32 \<or> (9 \<le> (of_char c :: nat) \<and> (of_char c :: nat) \<le> 13)"

definition to_lower :: "char \<Rightarrow> char" where
  "to_lower c =
     (if 65 \<le> (of_char c :: nat) \<and> (of_char c :: nat) \<le> 90
      then char_of ((of_char c :: nat) + 32) else c)"

text \<open>\<open>Trim\<close>: erases up to the first non-space, then after the last one.\<close>

definition trim :: "string \<Rightarrow> string" where
  "trim s = rev (dropWhile is_space (rev (dropWhile is_space s)))"

definition parse_boolean :: "string \<Rightarrow> string \<Rightarrow> bool result" where
  "parse_boolean s description =
     (let v = map to_lower (trim s)
      in if v = ''1'' \<or> v = ''true'' \<or> v = ''yes'' \<or> v = ''on'' then Inr True
         else if v = ''0'' \<or> v = ''false'' \<or> v = ''no'' \<or> v = ''off'' then Inr False
         else Inl (Invalid_argument (description @ '' must be a boolean value'')))"

text \<open>\<open>std::getenv\<close> is the argument \<open>getenv\<close>, with \<open>None\<close> for an unset variable.\<close>

type_synonym getenv_fun = "string \<Rightarrow> string option"

definition resolve_structured_events :: "getenv_fun \<Rightarrow> int \<Rightarrow> bool result" where
  "resolve_structured_events getenv configured =
     (if configured < -1 \<or> configured > 1
      then Inl (Invalid_argument ''spdk_structured_events must be -1, 0, or 1'')
      else if configured \<ge> 0 then Inr (configured = 1)
      else case getenv ''LMCACHE_SPDK_STRUCTURED_EVENTS'' of
             None \<Rightarrow> Inr False
           | Some v \<Rightarrow> parse_boolean v ''LMCACHE_SPDK_STRUCTURED_EVENTS'')"

definition resolve_option :: "getenv_fun \<Rightarrow> string \<Rightarrow> string \<Rightarrow> string" where
  "resolve_option getenv s name =
     (let v = trim s
      in if v \<noteq> [] then v else (case getenv name of None \<Rightarrow> [] | Some e \<Rightarrow> trim e))"

text \<open>
  The loop of \<open>ParseLogFlags\<close>. Its argument is \<open>value.substr(start)\<close>; a piece ends at the
  next comma, and the loop ends with the piece that no comma follows.
\<close>

function split_flags :: "string \<Rightarrow> string list" where
  "split_flags rest =
     (let piece = takeWhile (\<lambda>c. c \<noteq> CHR '','') rest;
          after = dropWhile (\<lambda>c. c \<noteq> CHR '','') rest;
          flag = trim piece;
          flags = (if flag \<noteq> [] then [flag] else [])
      in if after = [] then flags else flags @ split_flags (tl after))"
  by pat_completeness auto
termination
proof (relation "measure length")
  fix rest :: string and piece after flag flags
  assume a: "after = dropWhile (\<lambda>c. c \<noteq> CHR '','') rest" and ne: "after \<noteq> []"
  have "length after \<le> length rest" unfolding a by (rule length_dropWhile_le)
  moreover have "0 < length after" using ne by simp
  ultimately show "(tl after, rest) \<in> measure length" by (simp only: in_measure length_tl)
qed simp

declare split_flags.simps [simp del]

definition parse_log_flags :: "string \<Rightarrow> string list" where
  "parse_log_flags s = remdups_adj (sort (split_flags s))"

datatype spdk_log_level =
    SPDK_LOG_DISABLED | SPDK_LOG_ERROR | SPDK_LOG_WARN | SPDK_LOG_NOTICE | SPDK_LOG_INFO
  | SPDK_LOG_DEBUG

definition parse_print_level :: "string \<Rightarrow> spdk_log_level option result" where
  "parse_print_level s =
     (let v = map to_lower (trim s)
      in if v = [] then Inr None
         else if v = ''disabled'' then Inr (Some SPDK_LOG_DISABLED)
         else if v = ''error'' then Inr (Some SPDK_LOG_ERROR)
         else if v = ''warn'' \<or> v = ''warning'' then Inr (Some SPDK_LOG_WARN)
         else if v = ''notice'' then Inr (Some SPDK_LOG_NOTICE)
         else if v = ''info'' then Inr (Some SPDK_LOG_INFO)
         else if v = ''debug'' then Inr (Some SPDK_LOG_DEBUG)
         else Inl (Invalid_argument
           ''spdk_print_level must be disabled, error, warn, notice, info, or debug''))"

section \<open>The core mask\<close>

text \<open>
  A \<open>char\<close> is a signed byte: it is promoted to \<open>int\<close> before the subtraction, and the
  difference is converted to \<open>unsigned\<close>, where it wraps around. The digit written back is an
  \<open>unsigned\<close> sum cut to a byte.
\<close>

definition char_code :: "char \<Rightarrow> int" where
  "char_code c = sint (of_char c :: 8 word)"

definition hex_digit_value :: "char \<Rightarrow> u32" where
  "hex_digit_value c =
     (if char_code c \<le> char_code (CHR ''9'')
      then word_of_int (char_code c - char_code (CHR ''0''))
      else word_of_int (char_code c - char_code (CHR ''a'') + 10))"

definition hex_digit :: "u32 \<Rightarrow> char" where
  "hex_digit v =
     (if v < 10 then char_of (unat (word_of_int (char_code (CHR ''0'')) + v))
      else char_of (unat (word_of_int (char_code (CHR ''a'')) + v - 10)))"

text \<open>The two loops of \<open>MakeCoreMask\<close>: the highest CPU, and one bit per CPU.\<close>

fun highest_cpu :: "int \<Rightarrow> int list \<Rightarrow> int result" where
  "highest_cpu h [] = Inr h"
| "highest_cpu h (cpu # cpus) =
     (if cpu < 0 then Inl (Invalid_argument ''SPDK reactor CPU must be non-negative'')
      else highest_cpu (max h cpu) cpus)"

definition set_cpu_bit :: "int \<Rightarrow> string \<Rightarrow> string" where
  "set_cpu_bit cpu digits =
     (let digit = length digits - 1 - nat (cpu div 4);
          bt = nat (cpu mod 4);
          updated = hex_digit_value (digits ! digit) OR push_bit bt 1
      in digits[digit := hex_digit updated])"

definition make_core_mask :: "int list \<Rightarrow> string result" where
  "make_core_mask cpus =
     (if cpus = [] then Inl (Invalid_argument ''reactor_cpus must not be empty'')
      else case highest_cpu 0 cpus of
             Inl e \<Rightarrow> Inl e
           | Inr h \<Rightarrow>
               Inr (''0x'' @ fold set_cpu_bit cpus (replicate (nat (h div 4 + 1)) (CHR ''0''))))"

section \<open>Trimmed text\<close>

lemma trim_ends:
  assumes ne: "trim s \<noteq> []"
  shows "\<not> is_space (hd (trim s))" and "\<not> is_space (last (trim s))"
proof -
  let ?l = "dropWhile is_space s"
  have bk: "dropWhile is_space (rev ?l) \<noteq> []" and front: "?l \<noteq> []"
    using ne by (auto simp: trim_def simp del: dropWhile_eq_Nil_conv)
  show "\<not> is_space (last (trim s))"
    using hd_dropWhile [OF bk] bk by (simp add: trim_def last_rev del: dropWhile_eq_Nil_conv)
  have "rev (rev ?l) = rev (takeWhile is_space (rev ?l) @ dropWhile is_space (rev ?l))"
    by (simp only: takeWhile_dropWhile_id)
  then have "?l = trim s @ rev (takeWhile is_space (rev ?l))"
    by (simp only: rev_rev_ident rev_append trim_def)
  then have "hd ?l = hd (trim s)" using ne by (metis hd_append2)
  then show "\<not> is_space (hd (trim s))" using hd_dropWhile [OF front] by simp
qed

text \<open>A clean flag: what \<open>split_flags\<close> can return.\<close>

definition clean_flag :: "string \<Rightarrow> bool" where
  "clean_flag f \<longleftrightarrow> f \<noteq> [] \<and> CHR '','' \<notin> set f \<and> \<not> is_space (hd f) \<and> \<not> is_space (last f)"

lemma dropWhile_id: "xs \<noteq> [] \<Longrightarrow> \<not> P (hd xs) \<Longrightarrow> dropWhile P xs = xs"
  by (cases xs) simp_all

lemma trim_id: "s \<noteq> [] \<Longrightarrow> \<not> is_space (hd s) \<Longrightarrow> \<not> is_space (last s) \<Longrightarrow> trim s = s"
  by (simp add: trim_def dropWhile_id hd_rev)

lemma clean_flag_trim: "clean_flag f \<Longrightarrow> trim f = f"
  by (simp add: clean_flag_def trim_id)

lemma trim_clean: "CHR '','' \<notin> set s \<Longrightarrow> trim s \<noteq> [] \<Longrightarrow> clean_flag (trim s)"
  using trim_ends [of s]
  by (auto simp: clean_flag_def trim_def dest!: set_dropWhileD)

lemma split_flags_clean: "f \<in> set (split_flags s) \<Longrightarrow> clean_flag f"
proof (induction s rule: split_flags.induct)
  case (1 rest)
  let ?piece = "takeWhile (\<lambda>c. c \<noteq> CHR '','') rest"
  have "CHR '','' \<notin> set ?piece" by (auto dest: set_takeWhileD)
  then have "clean_flag (trim ?piece)" if "trim ?piece \<noteq> []" using that by (rule trim_clean)
  with 1 show ?case
    by (subst (asm) (2) split_flags.simps) (auto simp: Let_def split: if_splits)
qed

text \<open>A comma-separated list of clean flags is split into these flags again.\<close>

fun join_flags :: "string list \<Rightarrow> string" where
  "join_flags [] = []"
| "join_flags [f] = f"
| "join_flags (f # fs) = f @ CHR '','' # join_flags fs"

lemma split_flags_join: "\<forall>f\<in>set fs. clean_flag f \<Longrightarrow> split_flags (join_flags fs) = fs"
proof (induction fs rule: join_flags.induct)
  case 1
  then show ?case by (subst split_flags.simps) (simp add: trim_def)
next
  case (2 f)
  have "takeWhile (\<lambda>c. c \<noteq> CHR '','') f = f" and "dropWhile (\<lambda>c. c \<noteq> CHR '','') f = []"
    using 2 by (auto simp: clean_flag_def)
  moreover have "trim f = f" and "f \<noteq> []" using 2 by (auto simp: clean_flag_trim clean_flag_def)
  ultimately show ?case
    by (subst split_flags.simps) (simp add: Let_def takeWhile_eq_all_conv [THEN iffD2])
next
  case (3 f f' fs)
  have "takeWhile (\<lambda>c. c \<noteq> CHR '','') (f @ CHR '','' # join_flags (f' # fs)) = f"
    and "dropWhile (\<lambda>c. c \<noteq> CHR '','') (f @ CHR '','' # join_flags (f' # fs))
      = CHR '','' # join_flags (f' # fs)"
    using "3.prems" by (auto simp: clean_flag_def takeWhile_append dropWhile_append
        takeWhile_eq_all_conv [THEN iffD2])
  moreover have "trim f = f" and "f \<noteq> []"
    using "3.prems" by (auto simp: clean_flag_trim clean_flag_def)
  ultimately show ?case
    using 3 by (subst split_flags.simps) (simp add: Let_def)
qed

lemma distinct_remdups_adj: "sorted xs \<Longrightarrow> distinct (remdups_adj xs)"
  by (induction xs rule: remdups_adj.induct) auto

text \<open>
  Property C8. \<open>ParseLogFlags\<close> returns a canonical list: sorted, without duplicates, every
  flag non-empty, without commas and without space at either end. Parsing the comma-separated
  text of any such flags gives back exactly their set, in that canonical order; so two
  configurations that list the same flags differently compare equal.
\<close>

theorem parse_log_flags_canonical:
  "sorted (parse_log_flags s) \<and> distinct (parse_log_flags s) \<and>
   (\<forall>f. f \<in> set (parse_log_flags s) \<longrightarrow> clean_flag f) \<and>
   (\<forall>fs. (\<forall>f\<in>set fs. clean_flag f) \<longrightarrow>
      parse_log_flags (join_flags fs) = sorted_list_of_set (set fs))"
proof -
  have canon: "sorted (parse_log_flags x)" "distinct (parse_log_flags x)"
    "set (parse_log_flags x) = set (split_flags x)" for x
    by (simp_all add: parse_log_flags_def distinct_remdups_adj)
  moreover have "parse_log_flags (join_flags fs) = sorted_list_of_set (set fs)"
    if "\<forall>f\<in>set fs. clean_flag f" for fs
    using canon [of "join_flags fs"] split_flags_join [OF that]
    by (intro sorted_distinct_set_unique) simp_all
  ultimately show ?thesis using split_flags_clean by blast
qed

theorem parse_log_flags_canonical_witness:
  "parse_log_flags (join_flags [''nvme'', ''bdev'', ''nvme'']) =
     sorted_list_of_set {''nvme'', ''bdev''}"
proof -
  have "\<forall>f\<in>set [''nvme'', ''bdev'', ''nvme'']. clean_flag f"
    by (simp add: clean_flag_def is_space_def)
  moreover have "set [''nvme'', ''bdev'', ''nvme''] = {''nvme'', ''bdev''}" by auto
  ultimately show ?thesis using parse_log_flags_canonical by metis
qed

section \<open>The value of a core mask\<close>

text \<open>A hexadecimal string as a number, most significant digit first, and its bits.\<close>

definition hex_chars :: string where
  "hex_chars = ''0123456789abcdef''"

definition hex_value :: "char \<Rightarrow> nat" where
  "hex_value c = length (takeWhile (\<lambda>d. d \<noteq> c) hex_chars)"

definition mask_value :: "string \<Rightarrow> nat" where
  "mask_value ds = foldl (\<lambda>a c. 16 * a + hex_value c) 0 ds"

definition hex_ok :: "string \<Rightarrow> bool" where
  "hex_ok ds \<longleftrightarrow> set ds \<subseteq> set hex_chars"

text \<open>The code reads and writes exactly these sixteen characters.\<close>

lemma hex_value_read:
  assumes "c \<in> set hex_chars"
  shows "hex_value c < 16" and "hex_digit_value c = of_nat (hex_value c)"
proof -
  have "\<forall>c\<in>set hex_chars. hex_value c < 16 \<and> hex_digit_value c = of_nat (hex_value c)"
    by code_simp
  with assms show "hex_value c < 16" and "hex_digit_value c = of_nat (hex_value c)" by blast+
qed

lemma hex_value_written:
  assumes "v < 16"
  shows "hex_digit (of_nat v) \<in> set hex_chars" and "hex_value (hex_digit (of_nat v)) = v"
proof -
  have "\<forall>v\<in>set [0..<16]. hex_digit (of_nat v) \<in> set hex_chars \<and>
    hex_value (hex_digit (of_nat v)) = v" by code_simp
  with assms show "hex_digit (of_nat v) \<in> set hex_chars"
    and "hex_value (hex_digit (of_nat v)) = v" by simp_all
qed

lemma or_of_nat_bit: "(of_nat v :: u32) OR push_bit b 1 = of_nat (v OR push_bit b 1)"
  by (simp only: of_nat_or_eq of_nat_push_bit of_nat_1)

lemma bit_shift4:
  assumes "d < (16 :: nat)"
  shows "bit (16 * v + d) k \<longleftrightarrow> (if k < 4 then bit d k else bit v (k - 4))"
proof (cases "k < 4")
  case True
  then have "k = 0 \<or> k = 1 \<or> k = 2 \<or> k = 3" by linarith
  then have "odd ((16 * v + d) div 2 ^ k) \<longleftrightarrow> odd (d div 2 ^ k)"
    by (elim disjE) (simp_all, presburger+)
  then show ?thesis using True by (simp add: bit_iff_odd)
next
  case False
  then obtain j where k: "k = 4 + j" by (metis le_Suc_ex not_less)
  have "(16 * v + d) div 2 ^ k = (16 * v + d) div 16 div 2 ^ j"
    by (simp add: k power_add div_mult2_eq)
  then show ?thesis using assms by (simp add: bit_iff_odd k)
qed

lemma bit_mask_value:
  "hex_ok ds \<Longrightarrow> bit (mask_value ds) k \<longleftrightarrow>
     k div 4 < length ds \<and> bit (hex_value (ds ! (length ds - 1 - k div 4))) (k mod 4)"
proof (induction ds arbitrary: k rule: rev_induct)
  case Nil
  then show ?case by (simp add: mask_value_def)
next
  case (snoc c ds)
  have v: "mask_value (ds @ [c]) = 16 * mask_value ds + hex_value c"
    by (simp add: mask_value_def)
  have c: "hex_value c < 16" and ds: "hex_ok ds" using snoc.prems by (auto simp: hex_ok_def hex_value_read)
  show ?case
  proof (cases "k < 4")
    case True
    then show ?thesis by (simp add: v bit_shift4 [OF c])
  next
    case False
    then obtain j where k: "k = j + 4" by (metis add.commute le_Suc_ex not_less)
    have "bit (mask_value (ds @ [c])) k \<longleftrightarrow> bit (mask_value ds) j"
      by (simp add: v bit_shift4 [OF c] k)
    also have "\<dots> \<longleftrightarrow> j div 4 < length ds \<and>
        bit (hex_value (ds ! (length ds - 1 - j div 4))) (j mod 4)"
      by (rule snoc.IH [OF ds])
    also have "\<dots> \<longleftrightarrow> k div 4 < length (ds @ [c]) \<and>
        bit (hex_value ((ds @ [c]) ! (length (ds @ [c]) - 1 - k div 4))) (k mod 4)"
    proof -
      have "k div 4 = Suc (j div 4)" "k mod 4 = j mod 4" by (simp_all add: k)
      then show ?thesis by (auto simp: nth_append)
    qed
    finally show ?thesis .
  qed
qed

lemma or_bit_less_16:
  assumes "v < (16 :: nat)" and "b < 4"
  shows "v OR push_bit b 1 < 16"
proof -
  have "b = 0 \<or> b = 1 \<or> b = 2 \<or> b = 3" using assms(2) by linarith
  then have "push_bit b (1 :: nat) < 2 ^ 4" by (elim disjE) (simp_all add: push_bit_eq_mult)
  then have "take_bit 4 v = v" and "take_bit 4 (push_bit b (1 :: nat)) = push_bit b 1"
    using assms by (simp_all add: take_bit_nat_eq_self_iff)
  then have "take_bit 4 (v OR push_bit b 1) = v OR push_bit b 1"
    by (simp only: take_bit_or)
  then show ?thesis by (simp only: take_bit_nat_eq_self_iff) simp
qed

lemma set_cpu_bit:
  assumes ok: "hex_ok ds" and cpu: "0 \<le> cpu" "nat (cpu div 4) < length ds"
  shows "hex_ok (set_cpu_bit cpu ds)" and "length (set_cpu_bit cpu ds) = length ds"
    and "bit (mask_value (set_cpu_bit cpu ds)) k \<longleftrightarrow> bit (mask_value ds) k \<or> int k = cpu"
proof -
  let ?i = "length ds - 1 - nat (cpu div 4)" and ?b = "nat (cpu mod 4)"
  let ?u = "hex_value (ds ! ?i) OR push_bit ?b 1"
  have i: "?i < length ds" using cpu by linarith
  have b: "?b < 4" by simp
  have c: "ds ! ?i \<in> set hex_chars" using ok nth_mem [OF i] by (auto simp: hex_ok_def)
  have u: "?u < 16" using hex_value_read(1) [OF c] b by (rule or_bit_less_16)
  have upd: "set_cpu_bit cpu ds = ds[?i := hex_digit (of_nat ?u)]"
    by (simp only: set_cpu_bit_def Let_def hex_value_read(2) [OF c] or_of_nat_bit)
  show ok': "hex_ok (set_cpu_bit cpu ds)"
    using ok hex_value_written(1) [OF u] unfolding upd hex_ok_def
    by (auto dest!: subsetD [OF set_update_subset_insert])
  show len: "length (set_cpu_bit cpu ds) = length ds" by (simp add: upd)
  have cpu_split: "int k = cpu \<longleftrightarrow> k div 4 = nat (cpu div 4) \<and> k mod 4 = ?b"
  proof -
    obtain n where n: "cpu = int n" using cpu(1) nonneg_int_cases by blast
    have "k = n \<longleftrightarrow> k div 4 = n div 4 \<and> k mod 4 = n mod 4" by (metis div_mult_mod_eq)
    then show ?thesis by (simp add: n nat_div_distrib nat_mod_distrib)
  qed
  have bit1: "bit (push_bit ?b (1 :: nat)) j \<longleftrightarrow> j = ?b" for j
    by (simp add: bit_exp_iff)
  show "bit (mask_value (set_cpu_bit cpu ds)) k \<longleftrightarrow> bit (mask_value ds) k \<or> int k = cpu"
  proof (cases "k div 4 = nat (cpu div 4)")
    case True
    then show ?thesis
      using i cpu(2) unfolding bit_mask_value [OF ok'] bit_mask_value [OF ok] cpu_split len
      unfolding upd
      by (simp add: hex_value_written(2) [OF u, simplified] bit_or_iff bit1 [simplified])
  next
    case False
    then have "k div 4 < length ds \<Longrightarrow> length ds - 1 - k div 4 \<noteq> ?i" using cpu(2) by linarith
    with False show ?thesis
      unfolding bit_mask_value [OF ok'] bit_mask_value [OF ok] cpu_split by (auto simp: upd)
  qed
qed

lemma fold_set_cpu_bit:
  assumes "hex_ok ds" and "\<forall>cpu\<in>set cpus. 0 \<le> cpu \<and> nat (cpu div 4) < length ds"
  shows "hex_ok (fold set_cpu_bit cpus ds)"
    and "bit (mask_value (fold set_cpu_bit cpus ds)) k \<longleftrightarrow>
      bit (mask_value ds) k \<or> int k \<in> set cpus"
proof -
  have "hex_ok (fold set_cpu_bit cpus ds) \<and>
    (bit (mask_value (fold set_cpu_bit cpus ds)) k \<longleftrightarrow> bit (mask_value ds) k \<or> int k \<in> set cpus)"
    using assms
  proof (induction cpus arbitrary: ds)
    case (Cons cpu cpus)
    then show ?case
      using set_cpu_bit [OF Cons.prems(1), of cpu] by (auto simp: set_cpu_bit(2))
  qed simp
  then show "hex_ok (fold set_cpu_bit cpus ds)"
    and "bit (mask_value (fold set_cpu_bit cpus ds)) k \<longleftrightarrow>
      bit (mask_value ds) k \<or> int k \<in> set cpus" by simp_all
qed

lemma length_fold_set_cpu_bit:
  "length (fold set_cpu_bit cpus ds) = length ds"
  by (induction cpus arbitrary: ds) (simp_all add: set_cpu_bit_def Let_def)

lemma highest_cpu_ok:
  "\<forall>cpu\<in>set cpus. 0 \<le> cpu \<Longrightarrow> highest_cpu h cpus = Inr (Max (insert h (set cpus)))"
proof (induction cpus arbitrary: h)
  case (Cons cpu cpus)
  have "Max (insert (max h cpu) (set cpus)) = Max (insert h (set (cpu # cpus)))"
    by (cases "cpus = []") (simp_all add: max.left_commute max.commute max.assoc)
  with Cons show ?case by simp
qed simp

lemma highest_cpu_error:
  "cpu \<in> set cpus \<Longrightarrow> cpu < 0 \<Longrightarrow>
     highest_cpu h cpus = Inl (Invalid_argument ''SPDK reactor CPU must be non-negative'')"
  by (induction cpus arbitrary: h) auto

lemma mask_value_zeros: "mask_value (replicate n (CHR ''0'')) = 0"
  by (induction n) (auto simp: mask_value_def hex_value_def hex_chars_def foldl_conv_fold)

text \<open>
  Property C7. \<open>MakeCoreMask\<close> refuses an empty CPU list and a negative CPU; for any other
  list the mask is \<open>0x\<close> and as many characters of \<open>0123456789abcdef\<close> as the highest CPU
  needs, whose value has bit \<open>k\<close> set exactly when CPU \<open>k\<close> is in the list, however often and
  in whatever order it is listed.
\<close>

theorem make_core_mask_bits:
  "case make_core_mask cpus of
     Inl e \<Rightarrow> cpus = [] \<and> e = Invalid_argument ''reactor_cpus must not be empty'' \<or>
       (\<exists>cpu\<in>set cpus. cpu < 0) \<and>
       e = Invalid_argument ''SPDK reactor CPU must be non-negative''
   | Inr m \<Rightarrow> \<exists>ds. m = ''0x'' @ ds \<and> set ds \<subseteq> set ''0123456789abcdef'' \<and>
       int (length ds) = Max (set cpus) div 4 + 1 \<and>
       (\<forall>k. bit (mask_value ds) k = (int k \<in> set cpus))"
proof (cases "cpus = [] \<or> (\<exists>cpu\<in>set cpus. cpu < 0)")
  case True
  then show ?thesis by (auto simp: make_core_mask_def highest_cpu_error)
next
  case False
  then have nonneg: "\<forall>cpu\<in>set cpus. 0 \<le> cpu" and ne: "cpus \<noteq> []" by (auto simp: not_less)
  define h where "h = Max (set cpus)"
  obtain c where "c \<in> set cpus" using ne by (cases cpus) auto
  then have h: "\<forall>cpu\<in>set cpus. cpu \<le> h" "0 \<le> h"
    using nonneg order_trans [OF _ Max_ge, of 0 c "set cpus"] by (simp_all add: h_def)
  have run: "highest_cpu 0 cpus = Inr h"
    using h(2) ne by (simp add: highest_cpu_ok [OF nonneg] h_def)
  let ?z = "replicate (nat (h div 4 + 1)) (CHR ''0'')"
  have ok: "hex_ok ?z" by (auto simp: hex_ok_def hex_chars_def)
  have len: "\<forall>cpu\<in>set cpus. 0 \<le> cpu \<and> nat (cpu div 4) < length ?z"
    using nonneg h by (auto simp: zdiv_mono1 le_imp_less_Suc nat_less_eq_zless)
  show ?thesis
    using False h run fold_set_cpu_bit [OF ok len]
    by (auto simp: make_core_mask_def mask_value_zeros length_fold_set_cpu_bit hex_ok_def hex_chars_def
        simp flip: h_def)
qed

end
