(* ===== verification/Io_Types.thy ===== *)
theory Io_Types
  imports Config_Text
begin

text \<open>
  The types that cross the boundary between the connector and the bdev context
  (\<open>bdev/csrc/spdk/spdk_bdev_context.h\<close>, \<open>spdk_config.h\<close>) and the glue that builds and reads
  them (\<open>bdev/csrc/spdk_pybind_common.cpp\<close>). A caller buffer is an address, \<open>0\<close> being the
  null pointer; \<open>int\<close> fields are HOL integers, \<open>std::uint64_t\<close> and \<open>std::size_t\<close> fields
  are 64-bit words.
\<close>

section \<open>Configuration\<close>

record spdk_config =
  cfg_json_config_file :: string
  cfg_bdev_name :: string
  cfg_core_mask :: string
  cfg_memory_size_mb :: int
  cfg_no_huge :: bool
  cfg_no_pci :: bool
  cfg_io_segment_size :: u64
  cfg_spdk_buffer_count :: u64
  cfg_io_thread_count :: u64
  cfg_connector_worker_count :: int
  cfg_max_pending_operations :: u64
  cfg_print_level :: string
  cfg_log_flags :: string
  cfg_tpoint_group_mask :: string
  cfg_structured_events :: int

definition default_spdk_config :: spdk_config where
  "default_spdk_config =
     \<lparr>cfg_json_config_file = [], cfg_bdev_name = [], cfg_core_mask = ''0x1'',
      cfg_memory_size_mb = 128, cfg_no_huge = True, cfg_no_pci = True,
      cfg_io_segment_size = 1024 * 1024, cfg_spdk_buffer_count = 2, cfg_io_thread_count = 1,
      cfg_connector_worker_count = 4, cfg_max_pending_operations = 1024,
      cfg_print_level = [], cfg_log_flags = [], cfg_tpoint_group_mask = [],
      cfg_structured_events = -1\<rparr>"

definition make_config ::
  "string \<Rightarrow> string \<Rightarrow> int list \<Rightarrow> u64 \<Rightarrow> u64 \<Rightarrow> int \<Rightarrow> bool \<Rightarrow> bool \<Rightarrow> u64 \<Rightarrow> spdk_config result" where
  "make_config json_config bdev_name reactor_cpus io_thread_count buffer_count memory_size_mb
     no_huge no_pci io_segment_bytes =
     (case make_core_mask reactor_cpus of
        Inl e \<Rightarrow> Inl e
      | Inr core_mask \<Rightarrow> Inr (default_spdk_config
          \<lparr>cfg_json_config_file := json_config, cfg_bdev_name := bdev_name,
           cfg_core_mask := core_mask, cfg_memory_size_mb := memory_size_mb,
           cfg_no_huge := no_huge, cfg_no_pci := no_pci,
           cfg_io_segment_size := io_segment_bytes, cfg_spdk_buffer_count := buffer_count,
           cfg_io_thread_count := io_thread_count\<rparr>))"

section \<open>Batch items, results and metrics\<close>

record io_trace_context =
  tr_future_id :: u64
  tr_item_index :: u64
  tr_segment_index :: u64
  tr_segment_count :: u64
  tr_first_page :: u64
  tr_page_count :: u64
  tr_logical_offset :: u64

record io_batch_item =
  it_buffer :: u64
  it_logical_length :: u64
  it_byte_offset :: u64
  it_physical_length :: u64
  it_trace :: io_trace_context

record io_result =
  res_success :: bool
  res_error :: string

definition empty_result :: io_result where
  "empty_result = \<lparr>res_success = False, res_error = []\<rparr>"

record io_metrics =
  m_submitted :: u64
  m_completed :: u64
  m_succeeded :: u64
  m_failed :: u64
  m_worker_queue_wait_ns :: u64
  m_buffer_pool_starvations :: u64
  m_buffer_pool_wait_ns :: u64
  m_queue_retries :: u64
  m_queue_retry_wait_ns :: u64
  m_dma_buffer_pool_allocated_bytes :: u64
  m_dma_buffer_pool_in_use_bytes :: u64
  m_dma_buffer_pool_peak_in_use_bytes :: u64
  m_submitted_logical_bytes :: u64
  m_submitted_physical_bytes :: u64
  m_submitted_unused_dma_buffer_bytes :: u64
  m_submitted_write_padding_bytes :: u64

definition zero_metrics :: io_metrics where
  "zero_metrics =
     \<lparr>m_submitted = 0, m_completed = 0, m_succeeded = 0, m_failed = 0,
      m_worker_queue_wait_ns = 0, m_buffer_pool_starvations = 0, m_buffer_pool_wait_ns = 0,
      m_queue_retries = 0, m_queue_retry_wait_ns = 0, m_dma_buffer_pool_allocated_bytes = 0,
      m_dma_buffer_pool_in_use_bytes = 0, m_dma_buffer_pool_peak_in_use_bytes = 0,
      m_submitted_logical_bytes = 0, m_submitted_physical_bytes = 0,
      m_submitted_unused_dma_buffer_bytes = 0, m_submitted_write_padding_bytes = 0\<rparr>"

text \<open>\<open>RequireSuccess\<close> throws for the first result that failed.\<close>

fun require_success :: "io_result list \<Rightarrow> string \<Rightarrow> unit result" where
  "require_success [] operation = Inr ()"
| "require_success (r # rs) operation =
     (if \<not> res_success r
      then Inl (Runtime_error (operation @ '' failed: '' @ res_error r))
      else require_success rs operation)"

lemma require_success_iff:
  "require_success rs operation = Inr () \<longleftrightarrow> (\<forall>r\<in>set rs. res_success r)"
  by (induction rs) auto

lemma require_success_first:
  "require_success rs operation = Inl e \<longleftrightarrow>
     (\<exists>as r bs. rs = as @ r # bs \<and> (\<forall>a\<in>set as. res_success a) \<and> \<not> res_success r \<and>
        e = Runtime_error (operation @ '' failed: '' @ res_error r))"
proof (induction rs)
  case (Cons r rs)
  show ?case
  proof (cases "res_success r")
    case True
    have "(\<exists>as x bs. r # rs = as @ x # bs \<and> (\<forall>a\<in>set as. res_success a) \<and> \<not> res_success x \<and>
        e = Runtime_error (operation @ '' failed: '' @ res_error x)) \<longleftrightarrow>
      (\<exists>as x bs. rs = as @ x # bs \<and> (\<forall>a\<in>set as. res_success a) \<and> \<not> res_success x \<and>
        e = Runtime_error (operation @ '' failed: '' @ res_error x))" (is "?l \<longleftrightarrow> ?r")
    proof
      assume ?l
      then obtain as x bs where s: "r # rs = as @ x # bs" "\<forall>a\<in>set as. res_success a"
        "\<not> res_success x" "e = Runtime_error (operation @ '' failed: '' @ res_error x)" by blast
      then obtain as' where "as = r # as'" using True by (cases as) auto
      with s show ?r by auto
    next
      assume ?r
      then obtain as x bs where s: "rs = as @ x # bs" "\<forall>a\<in>set as. res_success a"
        "\<not> res_success x" "e = Runtime_error (operation @ '' failed: '' @ res_error x)" by blast
      then have "r # rs = (r # as) @ x # bs" "\<forall>a\<in>set (r # as). res_success a" using True by auto
      with s show ?l by blast
    qed
    with True Cons.IH show ?thesis by simp
  next
    case False
    then show ?thesis
      by (auto simp: Cons_eq_append_conv intro: exI [of _ "[]"])
  qed
qed simp

end
