(* ===== verification/Spdk_Runtime.thy ===== *)
theory Spdk_Runtime
  imports Io_Types
begin

text \<open>
  The process-wide SPDK application, \<open>bdev/csrc/spdk/spdk_runtime.{h,cpp}\<close>: the
  configuration all contexts must share, the registry that hands out the one runtime, its
  thread and its shutdown, and the ownership of bdevs by name.

  The constructor of \<open>SpdkRuntime\<close> waits for its thread, so acquiring is one step of the
  process; what SPDK does in it is an argument (\<open>app_start_outcome\<close>). The \<open>std::weak_ptr\<close>
  of the registry is an owner count: it expires when the last owner is gone. Every call into
  SPDK is recorded in the order it is made.
\<close>

section \<open>The process and its environment\<close>

record host =
  host_absolute :: "string \<Rightarrow> string option"
  host_is_regular_file :: "string \<Rightarrow> bool"
  host_getenv :: getenv_fun
  host_strerror :: "int \<Rightarrow> string"
  host_log_set_flag :: "string \<Rightarrow> int"

definition spdk_error :: "host \<Rightarrow> string \<Rightarrow> int \<Rightarrow> string" where
  "spdk_error h operation return_code =
     (let error_number = (if return_code < 0 then - return_code else return_code)
      in operation @ '' failed with code '' @ int_to_string return_code @ '' (''
         @ host_strerror h error_number @ '')'')"

record runtime_config =
  rtc_json_config_file :: string
  rtc_core_mask :: string
  rtc_memory_size_mb :: int
  rtc_no_huge :: bool
  rtc_no_pci :: bool
  rtc_print_level :: string
  rtc_log_flags :: "string list"
  rtc_tpoint_group_mask :: string
  rtc_io_thread_count :: u64

definition runtime_config_eq :: "runtime_config \<Rightarrow> runtime_config \<Rightarrow> bool" where
  "runtime_config_eq a b \<longleftrightarrow>
     rtc_json_config_file a = rtc_json_config_file b \<and>
     rtc_core_mask a = rtc_core_mask b \<and> rtc_memory_size_mb a = rtc_memory_size_mb b \<and>
     rtc_no_huge a = rtc_no_huge b \<and> rtc_no_pci a = rtc_no_pci b \<and>
     rtc_print_level a = rtc_print_level b \<and> rtc_log_flags a = rtc_log_flags b \<and>
     rtc_tpoint_group_mask a = rtc_tpoint_group_mask b \<and>
     rtc_io_thread_count a = rtc_io_thread_count b"

definition make_runtime_config :: "host \<Rightarrow> spdk_config \<Rightarrow> runtime_config result" where
  "make_runtime_config h config =
     (let no_file = Inl (Invalid_argument
            (''SPDK JSON configuration is not a file: '' @ cfg_json_config_file config))
      in case host_absolute h (cfg_json_config_file config) of
           None \<Rightarrow> no_file
         | Some path \<Rightarrow>
           if \<not> host_is_regular_file h path then no_file
           else if cfg_core_mask config = [] \<or> cfg_memory_size_mb config \<le> 0 \<or>
                   cfg_io_thread_count config = 0
           then Inl (Invalid_argument ''invalid process-wide SPDK runtime configuration'')
           else
             let r = \<lparr>rtc_json_config_file = path, rtc_core_mask = cfg_core_mask config,
                      rtc_memory_size_mb = cfg_memory_size_mb config,
                      rtc_no_huge = cfg_no_huge config, rtc_no_pci = cfg_no_pci config,
                      rtc_print_level = resolve_option (host_getenv h)
                        (cfg_print_level config) ''LMCACHE_SPDK_PRINT_LEVEL'',
                      rtc_log_flags = parse_log_flags (resolve_option (host_getenv h)
                        (cfg_log_flags config) ''LMCACHE_SPDK_LOG_FLAGS''),
                      rtc_tpoint_group_mask = resolve_option (host_getenv h)
                        (cfg_tpoint_group_mask config) ''LMCACHE_SPDK_TPOINT_GROUP_MASK'',
                      rtc_io_thread_count = cfg_io_thread_count config\<rparr>
             in case parse_print_level (rtc_print_level r) of Inl e \<Rightarrow> Inl e | Inr _ \<Rightarrow> Inr r)"

text \<open>The options handed to \<open>spdk_app_start\<close>; \<open>None\<close> leaves SPDK's initial value.\<close>

record app_opts =
  opt_name :: string
  opt_json_config_file :: string
  opt_rpc_addr :: "string option"
  opt_reactor_mask :: string
  opt_tpoint_group_mask :: "string option"
  opt_mem_size :: int
  opt_no_huge :: bool
  opt_no_pci :: bool
  opt_disable_signal_handlers :: bool
  opt_print_level :: "spdk_log_level option"

datatype spdk_call =
    Call_log_set_flag string
  | Call_app_start app_opts
  | Call_app_fini
  | Call_app_stop int

type_synonym spdk_thread = nat

record runtime =
  rt_config :: runtime_config
  rt_initialization_complete :: bool
  rt_initialization_succeeded :: bool
  rt_stopping :: bool
  rt_last_error :: string
  rt_app_thread :: "spdk_thread option"
  rt_claimed_bdevs :: "string set"

record process =
  proc_active :: "(runtime \<times> nat) option"
  proc_started_once :: bool
  proc_calls :: "spdk_call list"

definition initial_process :: process where
  "initial_process = \<lparr>proc_active = None, proc_started_once = False, proc_calls = []\<rparr>"

text \<open>
  What \<open>spdk_app_start\<close> does: it fails before its callback, it runs the callback without a
  thread and later returns a code, or it runs the callback on a thread and stays in its loop.
\<close>

datatype app_start_outcome =
  Start_failed int | Started_without_thread int | Started spdk_thread

section \<open>The runtime thread\<close>

definition new_runtime :: "runtime_config \<Rightarrow> runtime" where
  "new_runtime c =
     \<lparr>rt_config = c, rt_initialization_complete = False, rt_initialization_succeeded = False,
      rt_stopping = False, rt_last_error = [], rt_app_thread = None, rt_claimed_bdevs = {}\<rparr>"

definition log_call :: "spdk_call \<Rightarrow> process \<Rightarrow> process" where
  "log_call c p = p\<lparr>proc_calls := proc_calls p @ [c]\<rparr>"

definition publish_runtime_failure :: "string \<Rightarrow> runtime \<Rightarrow> runtime" where
  "publish_runtime_failure message rt =
     rt\<lparr>rt_last_error := message, rt_initialization_succeeded := False,
        rt_initialization_complete := True\<rparr>"

definition on_app_start :: "spdk_thread option \<Rightarrow> runtime \<Rightarrow> process \<Rightarrow> runtime \<times> process" where
  "on_app_start current rt p =
     (let rt1 = rt\<lparr>rt_app_thread := current\<rparr>
      in if current = None
         then (rt1\<lparr>rt_last_error := ''SPDK started without an application thread'',
                   rt_initialization_succeeded := False, rt_initialization_complete := True\<rparr>,
               log_call (Call_app_stop (-5)) p)
         else (rt1\<lparr>rt_initialization_succeeded := True, rt_initialization_complete := True\<rparr>, p))"

text \<open>The part of \<open>thread_main\<close> after \<open>spdk_app_start\<close> returned.\<close>

definition app_returned :: "host \<Rightarrow> int \<Rightarrow> runtime \<Rightarrow> process \<Rightarrow> runtime \<times> process" where
  "app_returned h return_code rt p =
     (let rt1 =
        (if \<not> rt_initialization_complete rt
         then rt\<lparr>rt_last_error := spdk_error h ''SPDK application initialization'' return_code,
                 rt_initialization_complete := True, rt_initialization_succeeded := False\<rparr>
         else if return_code \<noteq> 0 \<and> rt_last_error rt = []
         then rt\<lparr>rt_last_error := spdk_error h ''SPDK application shutdown'' return_code\<rparr>
         else rt)
      in (rt1\<lparr>rt_app_thread := None\<rparr>, log_call Call_app_fini p))"

definition make_app_opts :: "runtime_config \<Rightarrow> app_opts" where
  "make_app_opts c =
     \<lparr>opt_name = ''lmcache_spdk'', opt_json_config_file = rtc_json_config_file c,
      opt_rpc_addr = None, opt_reactor_mask = rtc_core_mask c,
      opt_tpoint_group_mask =
        (if rtc_tpoint_group_mask c = [] then None else Some (rtc_tpoint_group_mask c)),
      opt_mem_size = rtc_memory_size_mb c, opt_no_huge = rtc_no_huge c,
      opt_no_pci = rtc_no_pci c, opt_disable_signal_handlers = True,
      opt_print_level =
        (case parse_print_level (rtc_print_level c) of Inl _ \<Rightarrow> None | Inr l \<Rightarrow> l)\<rparr>"

text \<open>The loop over the log flags: the first unknown flag, if any.\<close>

fun set_log_flags :: "host \<Rightarrow> string list \<Rightarrow> process \<Rightarrow> string option \<times> process" where
  "set_log_flags h [] p = (None, p)"
| "set_log_flags h (flag # flags) p =
     (let p1 = log_call (Call_log_set_flag flag) p
      in if host_log_set_flag h flag \<noteq> 0 then (Some flag, p1) else set_log_flags h flags p1)"

text \<open>
  \<open>thread_main\<close> until it has published the outcome of the initialisation; in the cases
  where \<open>spdk_app_start\<close> returns, to its end.
\<close>

definition thread_main ::
  "host \<Rightarrow> app_start_outcome \<Rightarrow> runtime \<Rightarrow> process \<Rightarrow> runtime \<times> process" where
  "thread_main h outcome rt p =
     (case set_log_flags h (rtc_log_flags (rt_config rt)) p of
        (Some flag, p1) \<Rightarrow>
          (publish_runtime_failure (''unknown SPDK log flag '' @ quote @ flag @ quote) rt, p1)
      | (None, p1) \<Rightarrow>
          let p2 = log_call (Call_app_start (make_app_opts (rt_config rt)))
                     (p1\<lparr>proc_started_once := True\<rparr>)
          in case outcome of
               Start_failed return_code \<Rightarrow> app_returned h return_code rt p2
             | Started_without_thread return_code \<Rightarrow>
                 (case on_app_start None rt p2 of
                    (rt1, p3) \<Rightarrow> app_returned h return_code rt1 p3)
             | Started t \<Rightarrow> on_app_start (Some t) rt p2)"

section \<open>Acquiring, using and stopping the runtime\<close>

definition construct_runtime ::
  "host \<Rightarrow> app_start_outcome \<Rightarrow> runtime_config \<Rightarrow> process \<Rightarrow> runtime result \<times> process" where
  "construct_runtime h outcome c p =
     (case thread_main h outcome (new_runtime c) p of
        (rt, p1) \<Rightarrow>
          if rt_initialization_succeeded rt then (Inr rt, p1)
          else (Inl (Runtime_error (rt_last_error rt)), p1))"

text \<open>
  \<open>Acquire\<close>: on success the caller owns one more reference to the active runtime.
\<close>

definition acquire ::
  "host \<Rightarrow> app_start_outcome \<Rightarrow> spdk_config \<Rightarrow> process \<Rightarrow> runtime result \<times> process" where
  "acquire h outcome config p =
     (case make_runtime_config h config of
        Inl e \<Rightarrow> (Inl e, p)
      | Inr requested \<Rightarrow>
        (case proc_active p of
           Some (current, owners) \<Rightarrow>
             if \<not> runtime_config_eq (rt_config current) requested
             then (Inl (Runtime_error
                 (''all SPDK adapters in one process must use identical runtime configuration ''
                  @ ''(JSON path, core mask, memory, PCI/hugepage, logging, ''
                  @ ''tracepoint, and SPDK I/O-thread settings)'')), p)
             else (Inr current, p\<lparr>proc_active := Some (current, Suc owners)\<rparr>)
         | None \<Rightarrow>
             if proc_started_once p
             then (Inl (Runtime_error
                 (''the SPDK application can be initialized only once per process; ''
                  @ ''start a new process to create another SPDK runtime'')), p)
             else
               (case construct_runtime h outcome requested p of
                  (Inl e, p1) \<Rightarrow> (Inl e, p1)
                | (Inr rt, p1) \<Rightarrow> (Inr rt, p1\<lparr>proc_active := Some (rt, 1)\<rparr>))))"

definition runtime_is_available :: "runtime \<Rightarrow> bool" where
  "runtime_is_available rt \<longleftrightarrow>
     rt_initialization_succeeded rt \<and> \<not> rt_stopping rt \<and> rt_app_thread rt \<noteq> None"

text \<open>\<open>send_message\<close>, with the code \<open>spdk_thread_send_msg\<close> returns as an argument.\<close>

definition runtime_send_message ::
  "host \<Rightarrow> spdk_thread option \<Rightarrow> int \<Rightarrow> runtime \<Rightarrow> unit result" where
  "runtime_send_message h thread send_result rt =
     (if thread = None \<or> \<not> runtime_is_available rt
      then Inl (Runtime_error ''SPDK runtime is unavailable'')
      else if send_result \<noteq> 0
      then Inl (Runtime_error (spdk_error h ''posting SPDK message'' send_result))
      else Inr ())"

definition claim_bdev :: "string \<Rightarrow> runtime \<Rightarrow> unit result \<times> runtime" where
  "claim_bdev bdev_name rt =
     (if bdev_name \<in> rt_claimed_bdevs rt
      then (Inl (Runtime_error (''SPDK bdev '' @ quote @ bdev_name @ quote
              @ '' is already owned by another L2 adapter'')), rt)
      else (Inr (), rt\<lparr>rt_claimed_bdevs := insert bdev_name (rt_claimed_bdevs rt)\<rparr>))"

definition release_bdev :: "string \<Rightarrow> runtime \<Rightarrow> runtime" where
  "release_bdev bdev_name rt = rt\<lparr>rt_claimed_bdevs := rt_claimed_bdevs rt - {bdev_name}\<rparr>"

text \<open>
  \<open>stop\<close>. When the message is posted, \<open>StopCallback\<close> stops the application on its own
  thread; otherwise \<open>stop\<close> stops it directly. Joining runs \<open>thread_main\<close> to its end.
\<close>

definition runtime_stop ::
  "host \<Rightarrow> int \<Rightarrow> int \<Rightarrow> runtime \<Rightarrow> process \<Rightarrow> runtime \<times> process" where
  "runtime_stop h send_result return_code rt p =
     (if rt_stopping rt then (rt, p)
      else
        let rt1 = rt\<lparr>rt_stopping := True\<rparr>
        in if rt_app_thread rt \<noteq> None
           then app_returned h return_code rt1
                  (log_call (Call_app_stop (if send_result = 0 then 0 else send_result)) p)
           else (rt1, p))"

text \<open>
  An owner drops its reference. The last one runs the destructor, which stops the runtime.
\<close>

definition drop_runtime :: "host \<Rightarrow> int \<Rightarrow> int \<Rightarrow> process \<Rightarrow> process" where
  "drop_runtime h send_result return_code p =
     (case proc_active p of
        None \<Rightarrow> p
      | Some (rt, owners) \<Rightarrow>
          if owners > 1 then p\<lparr>proc_active := Some (rt, owners - 1)\<rparr>
          else snd (runtime_stop h send_result return_code rt (p\<lparr>proc_active := None\<rparr>)))"

text \<open>The reactor loop ends without \<open>stop\<close>: \<open>thread_main\<close> finishes under its owners.\<close>

definition app_exits :: "host \<Rightarrow> int \<Rightarrow> process \<Rightarrow> process" where
  "app_exits h return_code p =
     (case proc_active p of
        None \<Rightarrow> p
      | Some (rt, owners) \<Rightarrow>
          if rt_app_thread rt = None then p
          else case app_returned h return_code rt p of
                 (rt1, p1) \<Rightarrow> p1\<lparr>proc_active := Some (rt1, owners)\<rparr>)"

section \<open>Reachable processes\<close>

text \<open>Claiming and releasing bdevs happens on the runtime its owners share.\<close>

definition with_runtime :: "(runtime \<Rightarrow> runtime) \<Rightarrow> process \<Rightarrow> process" where
  "with_runtime f p =
     (case proc_active p of
        None \<Rightarrow> p
      | Some (rt, owners) \<Rightarrow> p\<lparr>proc_active := Some (f rt, owners)\<rparr>)"

inductive process_step :: "process \<Rightarrow> process \<Rightarrow> bool" where
  step_acquire: "process_step p (snd (acquire h outcome config p))"
| step_drop: "process_step p (drop_runtime h send_result return_code p)"
| step_exit: "process_step p (app_exits h return_code p)"
| step_claim: "process_step p (with_runtime (\<lambda>rt. snd (claim_bdev name rt)) p)"
| step_release: "process_step p (with_runtime (release_bdev name) p)"

inductive_cases process_stepE: "process_step p p'"

inductive process_reachable :: "process \<Rightarrow> bool" where
  reach_init: "process_reachable initial_process"
| reach_step: "process_reachable p \<Longrightarrow> process_step p p' \<Longrightarrow> process_reachable p'"

fun is_app_start :: "spdk_call \<Rightarrow> bool" where
  "is_app_start (Call_app_start _) = True"
| "is_app_start _ = False"

definition app_starts :: "process \<Rightarrow> nat" where
  "app_starts p = length (filter is_app_start (proc_calls p))"

definition app_finis :: "process \<Rightarrow> nat" where
  "app_finis p = length (filter (\<lambda>c. c = Call_app_fini) (proc_calls p))"

definition app_running :: "process \<Rightarrow> bool" where
  "app_running p \<longleftrightarrow> (\<exists>rt n. proc_active p = Some (rt, n) \<and> rt_app_thread rt \<noteq> None)"

definition process_inv :: "process \<Rightarrow> bool" where
  "process_inv p \<longleftrightarrow>
     app_starts p = (if proc_started_once p then 1 else 0) \<and>
     app_finis p + (if app_running p then 1 else 0) = app_starts p \<and>
     (\<forall>rt n. proc_active p = Some (rt, n) \<longrightarrow>
        proc_started_once p \<and> 0 < n \<and> rt_initialization_succeeded rt \<and>
        rt_initialization_complete rt \<and> \<not> rt_stopping rt)"

lemma app_starts_log [simp]:
  "app_starts (log_call c p) = app_starts p + (if is_app_start c then 1 else 0)"
  by (simp add: app_starts_def log_call_def)

lemma app_finis_log [simp]:
  "app_finis (log_call c p) = app_finis p + (if c = Call_app_fini then 1 else 0)"
  by (simp add: app_finis_def log_call_def)

lemma log_call_fields [simp]:
  "proc_active (log_call c p) = proc_active p"
  "proc_started_once (log_call c p) = proc_started_once p"
  by (simp_all add: log_call_def)

lemma counts_active [simp]:
  "app_starts (p\<lparr>proc_active := a\<rparr>) = app_starts p"
  "app_finis (p\<lparr>proc_active := a\<rparr>) = app_finis p"
  "app_starts (p\<lparr>proc_started_once := b\<rparr>) = app_starts p"
  "app_finis (p\<lparr>proc_started_once := b\<rparr>) = app_finis p"
  by (simp_all add: app_starts_def app_finis_def)

lemma app_running_simps [simp]:
  "app_running (p\<lparr>proc_active := Some (rt, n)\<rparr>) \<longleftrightarrow> rt_app_thread rt \<noteq> None"
  "\<not> app_running (p\<lparr>proc_active := None\<rparr>)"
  by (simp_all add: app_running_def)

lemma app_running_None: "proc_active p = None \<Longrightarrow> \<not> app_running p"
  by (simp add: app_running_def)

lemma app_running_Some: "proc_active p = Some (rt, n) \<Longrightarrow> app_running p \<longleftrightarrow> rt_app_thread rt \<noteq> None"
  by (simp add: app_running_def)

lemma set_log_flags_frame:
  "set_log_flags h fs p = (r, p') \<Longrightarrow>
     proc_active p' = proc_active p \<and> proc_started_once p' = proc_started_once p \<and>
     app_starts p' = app_starts p \<and> app_finis p' = app_finis p \<and>
     (case r of None \<Rightarrow> \<forall>f\<in>set fs. host_log_set_flag h f = 0
      | Some f \<Rightarrow> f \<in> set fs \<and> host_log_set_flag h f \<noteq> 0)"
  by (induction fs arbitrary: p) (force simp: Let_def split: if_splits option.splits)+

lemma app_returned_process:
  "snd (app_returned h rc rt p) = log_call Call_app_fini p"
  "rt_app_thread (fst (app_returned h rc rt p)) = None"
  "rt_stopping (fst (app_returned h rc rt p)) = rt_stopping rt"
  "rt_config (fst (app_returned h rc rt p)) = rt_config rt"
  "rt_initialization_succeeded (fst (app_returned h rc rt p)) =
     (rt_initialization_complete rt \<and> rt_initialization_succeeded rt)"
  "rt_initialization_complete (fst (app_returned h rc rt p))"
  by (simp_all add: app_returned_def Let_def)

text \<open>The outcome of the constructor, by whether the flags are known and how SPDK starts.\<close>

lemma construct_runtime_cases:
  assumes "construct_runtime h outcome c p = (r, p')"
  shows "proc_active p' = proc_active p"
    and "case r of
       Inr rt \<Rightarrow> (\<exists>t. outcome = Started t \<and> rt = (new_runtime c)\<lparr>rt_app_thread := Some t,
           rt_initialization_succeeded := True, rt_initialization_complete := True\<rparr>) \<and>
         (\<forall>f\<in>set (rtc_log_flags c). host_log_set_flag h f = 0) \<and>
         proc_started_once p' \<and> app_starts p' = Suc (app_starts p) \<and> app_finis p' = app_finis p
     | Inl e \<Rightarrow>
         (\<exists>f\<in>set (rtc_log_flags c). host_log_set_flag h f \<noteq> 0 \<and>
            e = Runtime_error (''unknown SPDK log flag '' @ quote @ f @ quote)) \<and>
         proc_started_once p' = proc_started_once p \<and> app_starts p' = app_starts p \<and>
         app_finis p' = app_finis p \<or>
         (\<forall>f\<in>set (rtc_log_flags c). host_log_set_flag h f = 0) \<and> (\<forall>t. outcome \<noteq> Started t) \<and>
         proc_started_once p' \<and> app_starts p' = Suc (app_starts p) \<and>
         app_finis p' = Suc (app_finis p)"
proof -
  obtain fl p1 where s: "set_log_flags h (rtc_log_flags c) p = (fl, p1)" by fastforce
  note frame = set_log_flags_frame [OF s]
  have cfg: "rt_config (new_runtime c) = c" by (simp add: new_runtime_def)
  note defs = construct_runtime_def thread_main_def cfg s on_app_start_def app_returned_def
    publish_runtime_failure_def new_runtime_def Let_def
  show "proc_active p' = proc_active p"
    using assms frame
    by (auto simp: defs split: option.splits app_start_outcome.splits if_splits)
  show "case r of
       Inr rt \<Rightarrow> (\<exists>t. outcome = Started t \<and> rt = (new_runtime c)\<lparr>rt_app_thread := Some t,
           rt_initialization_succeeded := True, rt_initialization_complete := True\<rparr>) \<and>
         (\<forall>f\<in>set (rtc_log_flags c). host_log_set_flag h f = 0) \<and>
         proc_started_once p' \<and> app_starts p' = Suc (app_starts p) \<and> app_finis p' = app_finis p
     | Inl e \<Rightarrow>
         (\<exists>f\<in>set (rtc_log_flags c). host_log_set_flag h f \<noteq> 0 \<and>
            e = Runtime_error (''unknown SPDK log flag '' @ quote @ f @ quote)) \<and>
         proc_started_once p' = proc_started_once p \<and> app_starts p' = app_starts p \<and>
         app_finis p' = app_finis p \<or>
         (\<forall>f\<in>set (rtc_log_flags c). host_log_set_flag h f = 0) \<and> (\<forall>t. outcome \<noteq> Started t) \<and>
         proc_started_once p' \<and> app_starts p' = Suc (app_starts p) \<and>
         app_finis p' = Suc (app_finis p)"
  proof (cases fl)
    case (Some f)
    then show ?thesis using assms frame by (auto simp: defs)
  next
    case None
    then show ?thesis
      using assms frame by (cases outcome) (auto simp: defs)
  qed
qed

lemma process_inv_initial: "process_inv initial_process"
  by (simp add: process_inv_def initial_process_def app_starts_def app_finis_def app_running_def)

lemma process_inv_acquire:
  assumes "process_inv p"
  shows "process_inv (snd (acquire h outcome config p))"
proof (cases "make_runtime_config h config")
  case (Inl e)
  then show ?thesis using assms by (simp add: acquire_def)
next
  case (Inr requested)
  show ?thesis
  proof (cases "proc_active p")
    case (Some a)
    obtain current owners where a: "a = (current, owners)" by fastforce
    then show ?thesis
      using assms Some Inr by (auto simp: acquire_def process_inv_def app_running_Some)
  next
    case None
    obtain r p1 where c: "construct_runtime h outcome requested p = (r, p1)" by fastforce
    note cc = construct_runtime_cases [OF c]
    show ?thesis
    proof (cases "proc_started_once p")
      case True
      then show ?thesis using assms None Inr by (simp add: acquire_def)
    next
      case False
      then have z: "app_starts p = 0" "app_finis p = 0"
        using assms None by (auto simp: process_inv_def app_running_None)
      show ?thesis
        using cc z False None Inr c
        by (cases r) (auto simp: acquire_def process_inv_def app_running_None new_runtime_def)
    qed
  qed
qed

lemma process_inv_app_returned:
  assumes "process_inv p" and "proc_active p = Some (rt, n)" and "rt_app_thread rt \<noteq> None"
  shows "process_inv (snd (app_returned h rc rt' p)\<lparr>proc_active := None\<rparr>)"
    and "process_inv (snd (app_returned h rc rt p)
      \<lparr>proc_active := Some (fst (app_returned h rc rt p), n)\<rparr>)"
  using assms by (auto simp: process_inv_def app_returned_process app_running_Some)

lemma process_inv_drop: "process_inv p \<Longrightarrow> process_inv (drop_runtime h s rc p)"
  by (auto simp: drop_runtime_def runtime_stop_def process_inv_def app_running_Some Let_def
      app_returned_process app_running_None split: option.splits)

lemma process_inv_exit: "process_inv p \<Longrightarrow> process_inv (app_exits h rc p)"
  using process_inv_app_returned(2) [of p _ _ h rc]
  by (auto simp: app_exits_def case_prod_unfold split: option.splits)

lemma process_inv_with_runtime:
  assumes "process_inv p"
    and "\<And>rt. rt_app_thread (f rt) = rt_app_thread rt"
    "\<And>rt. rt_initialization_succeeded (f rt) = rt_initialization_succeeded rt"
    "\<And>rt. rt_initialization_complete (f rt) = rt_initialization_complete rt"
    "\<And>rt. rt_stopping (f rt) = rt_stopping rt"
  shows "process_inv (with_runtime f p)"
  using assms by (auto simp: with_runtime_def process_inv_def app_running_Some app_running_None split: option.splits)

lemma process_inv_step: "process_step p p' \<Longrightarrow> process_inv p \<Longrightarrow> process_inv p'"
  by (erule process_stepE)
    (simp_all add: process_inv_acquire process_inv_drop process_inv_exit process_inv_with_runtime
      claim_bdev_def release_bdev_def)

lemma process_inv_reachable: "process_reachable p \<Longrightarrow> process_inv p"
  by (induction rule: process_reachable.induct) (auto intro: process_inv_initial process_inv_step)

section \<open>Properties\<close>

text \<open>
  Property C9. However contexts acquire and drop the runtime and whatever SPDK does, the
  process enters \<open>spdk_app_start\<close> at most once; it finalises the application exactly once
  for every start, unless it still runs under an owner; a runtime that is handed out was
  initialised and is not stopping.
\<close>

theorem spdk_started_at_most_once:
  assumes "process_reachable p"
  shows "app_starts p \<le> 1 \<and> (proc_started_once p \<longleftrightarrow> app_starts p = 1) \<and>
    app_finis p + (if app_running p then 1 else 0) = app_starts p \<and>
    (\<forall>rt n. proc_active p = Some (rt, n) \<longrightarrow>
       app_starts p = 1 \<and> 0 < n \<and> (runtime_is_available rt \<longleftrightarrow> app_running p))"
  using process_inv_reachable [OF assms]
  by (auto simp: process_inv_def runtime_is_available_def app_running_Some)

text \<open>A host without environment variables that knows one log flag, and a configuration.\<close>

definition example_host :: host where
  "example_host =
     \<lparr>host_absolute = Some, host_is_regular_file = (\<lambda>f. f = ''/spdk.json''),
      host_getenv = (\<lambda>_. None), host_strerror = (\<lambda>_. ''error''),
      host_log_set_flag = (\<lambda>f. if f = ''bdev'' then 0 else - 22)\<rparr>"

definition example_config :: spdk_config where
  "example_config = default_spdk_config
     \<lparr>cfg_json_config_file := ''/spdk.json'', cfg_bdev_name := ''Malloc0'',
      cfg_log_flags := '' bdev,bdev ''\<rparr>"

definition example_runtime_config :: runtime_config where
  "example_runtime_config =
     \<lparr>rtc_json_config_file = ''/spdk.json'', rtc_core_mask = ''0x1'', rtc_memory_size_mb = 128,
      rtc_no_huge = True, rtc_no_pci = True, rtc_print_level = [], rtc_log_flags = [''bdev''],
      rtc_tpoint_group_mask = [], rtc_io_thread_count = 1\<rparr>"

lemma example_runtime_config:
  "make_runtime_config example_host example_config = Inr example_runtime_config"
proof -
  have "split_flags ''bdev,bdev'' = [''bdev'', ''bdev'']"
    using split_flags_join [of "[''bdev'', ''bdev'']"]
    by (simp add: clean_flag_def is_space_def)
  then show ?thesis
    by (simp add: make_runtime_config_def example_host_def example_config_def
        default_spdk_config_def resolve_option_def trim_def is_space_def parse_log_flags_def
        parse_print_level_def example_runtime_config_def)
qed

lemma runtime_config_eq_iff: "runtime_config_eq a b \<longleftrightarrow> a = b"
  by (cases a; cases b) (auto simp: runtime_config_eq_def)

lemma acquired_active:
  "acquire h outcome c p = (Inr rt, p') \<Longrightarrow> process_reachable p \<Longrightarrow>
     make_runtime_config h c = Inr (rt_config rt) \<and> (\<exists>n. proc_active p' = Some (rt, Suc n))"
  using construct_runtime_cases
  by (fastforce simp: acquire_def runtime_config_eq_iff new_runtime_def
      split: sum.splits option.splits if_splits prod.splits)

lemma make_runtime_config_frame [simp]:
  "make_runtime_config h (c\<lparr>cfg_bdev_name := b\<rparr>) = make_runtime_config h c"
  "make_runtime_config (h\<lparr>host_log_set_flag := g\<rparr>) c = make_runtime_config h c"
  by (simp_all add: make_runtime_config_def Let_def cong: option.case_cong sum.case_cong if_cong)

lemma process_inv_fresh:
  "process_inv p \<Longrightarrow> \<not> proc_started_once p \<Longrightarrow> proc_active p = None \<and> app_starts p = 0"
  by (cases "proc_active p") (auto simp: process_inv_def)

lemma example_flags:
  "rtc_log_flags example_runtime_config = [''bdev'']"
  "host_log_set_flag example_host ''bdev'' = 0"
  by (simp_all add: example_runtime_config_def example_host_def)

definition example_process :: process where
  "example_process = snd (acquire example_host (Started 7) example_config initial_process)"

lemma example_process_reachable: "process_reachable example_process"
  by (simp add: example_process_def reach_init reach_step [OF reach_init step_acquire])

lemma example_acquired:
  "acquire example_host (Started 7) example_config initial_process =
     (Inr ((new_runtime example_runtime_config)\<lparr>rt_app_thread := Some 7,
        rt_initialization_succeeded := True, rt_initialization_complete := True\<rparr>),
      example_process)"
  by (simp add: example_process_def acquire_def example_runtime_config initial_process_def
      construct_runtime_def thread_main_def new_runtime_def on_app_start_def Let_def
      example_flags log_call_def)

theorem spdk_started_at_most_once_witness:
  "app_starts example_process = 1 \<and> app_finis example_process = 0 \<and> app_running example_process"
proof -
  have "proc_active example_process \<noteq> None" and "app_running example_process"
    using example_acquired acquired_active [OF example_acquired reach_init]
    by (auto simp: app_running_def)
  then show ?thesis
    using spdk_started_at_most_once [OF example_process_reachable] by auto
qed

text \<open>
  Property C10. While a runtime is owned, a further request gets that same runtime exactly
  when its normalised configuration is the same, without any call into SPDK and so that
  dropping it restores the process; any other request is refused and changes nothing.
\<close>

theorem acquire_shares_one_runtime:
  assumes "process_reachable p" and "acquire h1 o1 c1 p = (Inr rt, p1)"
    and "make_runtime_config h2 c2 = Inr requested"
  shows "make_runtime_config h1 c1 = Inr (rt_config rt) \<and>
    (if requested = rt_config rt
     then \<exists>p2. acquire h2 o2 c2 p1 = (Inr rt, p2) \<and> proc_calls p2 = proc_calls p1 \<and>
       drop_runtime h3 send_result return_code p2 = p1
     else \<exists>e. acquire h2 o2 c2 p1 = (Inl (Runtime_error e), p1))"
proof -
  obtain n where n: "proc_active p1 = Some (rt, Suc n)"
    and c: "make_runtime_config h1 c1 = Inr (rt_config rt)"
    using acquired_active [OF assms(2,1)] by blast
  show ?thesis
    using assms(3) n c
    by (auto simp: acquire_def runtime_config_eq_iff drop_runtime_def)
qed

theorem acquire_shares_one_runtime_witness:
  "\<exists>rt p2. acquire example_host (Start_failed 1) (example_config\<lparr>cfg_bdev_name := ''Nvme0''\<rparr>)
       example_process = (Inr rt, p2) \<and> drop_runtime example_host 0 0 p2 = example_process"
proof -
  have "make_runtime_config example_host (example_config\<lparr>cfg_bdev_name := ''Nvme0''\<rparr>) =
      Inr example_runtime_config"
    using example_runtime_config by simp
  from acquire_shares_one_runtime [OF reach_init example_acquired this,
      of "Start_failed 1" example_host 0 0]
  show ?thesis by (auto simp: new_runtime_def)
qed

text \<open>
  Property C11. Once the application was started and no runtime is owned any more (it was
  stopped, or SPDK failed to start it), the process never changes again and every later
  request is refused.
\<close>

theorem stopped_process_is_final:
  assumes "proc_started_once p" and "proc_active p = None" and "process_step\<^sup>*\<^sup>* p p'"
  shows "p' = p \<and> (\<exists>e. acquire h outcome config p' = (Inl e, p'))"
proof -
  have refused: "\<exists>e. acquire h outcome config p = (Inl e, p)" for h outcome config
    using assms(1,2) by (cases "make_runtime_config h config") (auto simp: acquire_def)
  have step: "x = p" if "process_step p x" for x
    using that refused assms(2)
    by (cases rule: process_step.cases)
      (auto simp: drop_runtime_def app_exits_def with_runtime_def, metis snd_conv)
  have "p' = p" using assms(3) by (induction rule: rtranclp_induct) (auto dest: step)
  with refused show ?thesis by simp
qed

theorem stopped_process_is_final_witness:
  "\<exists>e. acquire example_host (Started 1) example_config
      (drop_runtime example_host 0 0 example_process) =
      (Inl e, drop_runtime example_host 0 0 example_process)"
proof -
  let ?p = "drop_runtime example_host 0 0 example_process"
  have "proc_started_once ?p" and "proc_active ?p = None"
    by (simp_all add: example_process_def acquire_def example_runtime_config initial_process_def
      construct_runtime_def thread_main_def new_runtime_def on_app_start_def Let_def
      example_flags log_call_def drop_runtime_def runtime_stop_def app_returned_def)
  then show ?thesis using stopped_process_is_final [of ?p ?p] by blast
qed

text \<open>
  Property C12. An unknown log flag is found before SPDK is entered: the request fails with
  the flag's name, and the process can still acquire a runtime with any valid configuration.
\<close>

theorem unknown_log_flag_is_retryable:
  assumes "process_reachable p" and "\<not> proc_started_once p"
    and "make_runtime_config h config = Inr c"
    and "flag \<in> set (rtc_log_flags c)" and "host_log_set_flag h flag \<noteq> 0"
    and "make_runtime_config h2 config2 = Inr c2"
    and "\<forall>f\<in>set (rtc_log_flags c2). host_log_set_flag h2 f = 0"
  shows "case acquire h outcome config p of (r, p') \<Rightarrow>
      (\<exists>f\<in>set (rtc_log_flags c). host_log_set_flag h f \<noteq> 0 \<and>
         r = Inl (Runtime_error (''unknown SPDK log flag '' @ quote @ f @ quote))) \<and>
      app_starts p' = 0 \<and>
      (case acquire h2 (Started t) config2 p' of (r2, p2) \<Rightarrow>
         (\<exists>rt. r2 = Inr rt \<and> rt_config rt = c2 \<and> runtime_is_available rt) \<and> app_starts p2 = 1)"
proof -
  have inv: "process_inv p" by (rule process_inv_reachable [OF assms(1)])
  then have none: "proc_active p = None" and zero: "app_starts p = 0"
    using assms(2) process_inv_fresh by blast+
  obtain r p1 where con: "construct_runtime h outcome c p = (r, p1)" by fastforce
  note c1 = construct_runtime_cases [OF con]
  obtain f where f: "f \<in> set (rtc_log_flags c)" "host_log_set_flag h f \<noteq> 0"
    "r = Inl (Runtime_error (''unknown SPDK log flag '' @ quote @ f @ quote))"
    and p1: "proc_started_once p1 = proc_started_once p" "app_starts p1 = app_starts p"
    using c1(2) assms(4,5) by (cases r) auto
  obtain r2 p2 where con2: "construct_runtime h2 (Started t) c2 p1 = (r2, p2)" by fastforce
  note c2 = construct_runtime_cases [OF con2]
  obtain rt where rt: "r2 = Inr rt" "rt_config rt = c2" "runtime_is_available rt"
    "app_starts p2 = Suc (app_starts p1)"
    using c2(2) assms(7) by (cases r2) (auto simp: new_runtime_def runtime_is_available_def)
  have a1: "acquire h outcome config p = (r, p1)"
    using assms(2,3) none con f by (simp add: acquire_def)
  have a2: "acquire h2 (Started t) config2 p1 = (Inr rt, p2\<lparr>proc_active := Some (rt, 1)\<rparr>)"
    using assms(2,6) none p1 c1(1) con2 rt by (simp add: acquire_def)
  show ?thesis using f p1 zero rt by (auto simp: a1 a2)
qed

theorem unknown_log_flag_is_retryable_witness:
  "\<exists>e. fst (acquire (example_host\<lparr>host_log_set_flag := (\<lambda>_. -22)\<rparr>) (Started 7) example_config
      initial_process) = Inl e"
proof -
  let ?h = "example_host\<lparr>host_log_set_flag := (\<lambda>_. -22)\<rparr>"
  have h: "make_runtime_config ?h example_config = Inr example_runtime_config"
    using example_runtime_config by simp
  have "\<not> proc_started_once initial_process" by (simp add: initial_process_def)
  note * = unknown_log_flag_is_retryable [OF reach_init this h, where flag = "''bdev''" and t = 7
      and ?h2.0 = example_host and ?config2.0 = example_config and ?c2.0 = example_runtime_config
      and outcome = "Started 7"]
  then show ?thesis
    by (auto simp: example_runtime_config example_flags split: prod.splits)
qed

end
