(* ===== verification/Storage_Geometry.thy ===== *)
theory Storage_Geometry
  imports Spdk_Prelude
begin

unbundle bit_operations_syntax

text \<open>
  The geometry of an opened bdev, \<open>bdev/csrc/storage_geometry.cpp\<close> and
  \<open>bdev/csrc/spdk/storage_geometry.h\<close>: the validation that turns what SPDK reports about a
  bdev and what the configuration asks for into page and segment sizes.
\<close>

section \<open>Definitions\<close>

record storage_geometry =
  capacity_bytes :: u64
  usable_capacity_bytes :: u64
  page_size :: u64
  geo_page_count :: u64
  io_segment_size :: u64
  bdev_max_rw_size_bytes :: u64
  block_size :: u32
  write_unit_blocks :: u32
  buffer_alignment :: u64
  spdk_buffer_count :: u64
  spdk_reactor_count :: u64
  spdk_io_thread_count :: u64
  total_spdk_buffer_count :: u64
  spdk_reactor_cores :: "u32 list"
  spdk_io_cores :: "u32 list"

definition default_geometry :: storage_geometry where
  "default_geometry =
     \<lparr>capacity_bytes = 0, usable_capacity_bytes = 0, page_size = 0, geo_page_count = 0,
      io_segment_size = 0, bdev_max_rw_size_bytes = 0, block_size = 0, write_unit_blocks = 0,
      buffer_alignment = 0, spdk_buffer_count = 0, spdk_reactor_count = 0,
      spdk_io_thread_count = 0, total_spdk_buffer_count = 0, spdk_reactor_cores = [],
      spdk_io_cores = []\<rparr>"

definition checked_multiply :: "u64 \<Rightarrow> u64 \<Rightarrow> string \<Rightarrow> u64 result" where
  "checked_multiply left right description =
     (if left \<noteq> 0 \<and> right > u64_max div left
      then Inl (Overflow_error description) else Inr (left * right))"

definition is_power_of_two :: "u64 \<Rightarrow> bool" where
  "is_power_of_two value \<longleftrightarrow> value \<noteq> 0 \<and> value AND (value - 1) = 0"

text \<open>
  The tail of \<open>BuildStorageGeometry\<close>, from the effective segment size on, and the whole
  function. \<open>ucast\<close> is the promotion of a 32-bit argument to \<open>std::uint64_t\<close>.
\<close>

definition effective_io_segment_size :: "u64 \<Rightarrow> u64 \<Rightarrow> u64 \<Rightarrow> u64" where
  "effective_io_segment_size seg max_rw_bytes page =
     (let max_page_aligned = max_rw_bytes div page * page
      in if max_rw_bytes = 0 then seg else min seg max_page_aligned)"

definition finish_geometry ::
  "u64 \<Rightarrow> u64 \<Rightarrow> u64 \<Rightarrow> u32 \<Rightarrow> u32 \<Rightarrow> u64 \<Rightarrow> u64 \<Rightarrow> u64 \<Rightarrow> storage_geometry result" where
  "finish_geometry capacity page max_rw_bytes bs wub align seg buffers =
     (let effective = effective_io_segment_size seg max_rw_bytes page
      in if effective < page \<or> effective mod page \<noteq> 0 \<or> effective > u64_max
         then Inl (Invalid_argument
           ''effective SPDK I/O segment size must be a storage-page-aligned bdev command size'')
         else
           let pages = capacity div page
           in if pages = 0
              then Inl (Invalid_argument ''bdev has no complete storage pages'')
              else
                (case checked_multiply pages page ''usable bdev capacity overflows uint64_t'' of
                   Inl e \<Rightarrow> Inl e
                 | Inr usable \<Rightarrow>
                     Inr (default_geometry
                       \<lparr>capacity_bytes := capacity, page_size := page, geo_page_count := pages,
                        usable_capacity_bytes := usable, io_segment_size := effective,
                        bdev_max_rw_size_bytes := max_rw_bytes, block_size := bs,
                        write_unit_blocks := wub, buffer_alignment := align,
                        spdk_buffer_count := buffers\<rparr>)))"

definition build_storage_geometry ::
  "u64 \<Rightarrow> u32 \<Rightarrow> u32 \<Rightarrow> u64 \<Rightarrow> u64 \<Rightarrow> u32 \<Rightarrow> u64 \<Rightarrow> storage_geometry result" where
  "build_storage_geometry num_blocks bs wub align seg max_rw_blocks buffers =
     (if num_blocks = 0 \<or> bs = 0 \<or> wub = 0
      then Inl (Invalid_argument ''bdev geometry contains a zero-sized dimension'')
      else if \<not> is_power_of_two align
      then Inl (Invalid_argument ''bdev buffer alignment must be a power of two'')
      else if buffers = 0
      then Inl (Invalid_argument ''spdk_buffer_count must be greater than zero'')
      else
        case checked_multiply num_blocks (ucast bs) ''bdev byte capacity overflows uint64_t'' of
          Inl e \<Rightarrow> Inl e
        | Inr capacity \<Rightarrow>
          (case checked_multiply (ucast bs) (ucast wub) ''bdev write unit overflows uint64_t'' of
             Inl e \<Rightarrow> Inl e
           | Inr page \<Rightarrow>
             (case (if max_rw_blocks = 0 then Inr 0
                    else checked_multiply (ucast max_rw_blocks) (ucast bs)
                           ''bdev maximum I/O size overflows uint64_t'') of
                Inl e \<Rightarrow> Inl e
              | Inr max_rw_bytes \<Rightarrow>
                  finish_geometry capacity page max_rw_bytes bs wub align seg buffers)))"

section \<open>Lemmas\<close>

lemma checked_multiply_iff:
  "checked_multiply a b d =
     (if unat a * unat b < 2 ^ 64 then Inr (a * b) else Inl (Overflow_error d))"
proof (cases "a = 0")
  case False
  then have a: "0 < unat a" by (simp add: unat_eq_iff)
  have "b > u64_max div a \<longleftrightarrow> unat b > (2 ^ 64 - 1) div unat a"
    by (simp add: word_less_nat_alt unat_div)
  also have "\<dots> \<longleftrightarrow> unat a * unat b \<ge> 2 ^ 64"
    unfolding div_less_iff_less_mult [OF a] by (auto simp: mult.commute)
  finally have "b > u64_max div a \<longleftrightarrow> \<not> unat a * unat b < 2 ^ 64" by (simp only: not_less)
  then show ?thesis using False by (simp add: checked_multiply_def)
qed (simp add: checked_multiply_def)

lemma checked_multiply_Inr:
  "checked_multiply a b d = Inr c \<Longrightarrow> unat c = unat a * unat b"
  by (auto simp: checked_multiply_iff unat_mult_u64 split: if_splits)

lemma u32_product_bound: "unat (a :: u32) * unat (b :: u32) < 2 ^ 64"
proof -
  have "unat a * unat b \<le> (2 ^ 32 - 1) * (2 ^ 32 - 1)"
    using unat_le_u32_max [of a] unat_le_u32_max [of b] by (intro mult_le_mono) simp_all
  also have "\<dots> < 2 ^ 64" by simp
  finally show ?thesis .
qed

lemma checked_multiply_u32:
  "checked_multiply (ucast (a :: u32)) (ucast (b :: u32)) d = Inr (ucast a * ucast b)"
  using u32_product_bound [of a b] by (simp add: checked_multiply_iff)

lemma power_of_two_nat: "(n :: nat) \<noteq> 0 \<and> n AND (n - 1) = 0 \<longleftrightarrow> (\<exists>k. n = 2 ^ k)"
proof (induction n rule: less_induct)
  case (less n)
  consider "n = 0" | "n = 1" | m where "m \<noteq> 0" "n = 2 * m" | m where "m \<noteq> 0" "n = 2 * m + 1"
    by (metis One_nat_def add_0 mult_0_right oddE evenE)
  then show ?case
  proof cases
    case 3
    have "n - 1 = 2 * (m - 1) + 1" using 3 by simp
    then have "n AND (n - 1) = 2 * (m AND (m - 1))"
      using 3 by (simp add: and_rec [of "2 * m"])
    moreover have "(\<exists>k. n = 2 ^ k) \<longleftrightarrow> (\<exists>k. m = 2 ^ k)"
    proof
      assume "\<exists>k. n = 2 ^ k"
      then obtain k where k: "2 * m = 2 ^ k" using 3 by auto
      with \<open>m \<noteq> 0\<close> show "\<exists>k. m = 2 ^ k" by (cases k) auto
    next
      assume "\<exists>k. m = 2 ^ k"
      then show "\<exists>k. n = 2 ^ k" using 3 by (metis power_Suc)
    qed
    ultimately show ?thesis using less.IH [of m] 3 by auto
  next
    case 4
    have "n AND (n - 1) = 2 * m"
      using 4 by (simp add: and_rec [of "Suc (2 * m)"])
    moreover have "\<nexists>k. n = 2 ^ k"
    proof
      assume "\<exists>k. n = 2 ^ k"
      then obtain k where "2 * m + 1 = 2 ^ k" using 4 by auto
      with \<open>m \<noteq> 0\<close> show False by (cases k) (auto, presburger)
    qed
    ultimately show ?thesis using 4 by simp
  qed (auto intro: exI [of _ "0::nat"])
qed

lemma is_power_of_two_iff: "is_power_of_two v \<longleftrightarrow> (\<exists>k. unat v = 2 ^ k)"
proof (cases "v = 0")
  case False
  then have "unat (v - 1) = unat v - 1" by (simp add: unat_minus_one)
  then have "v AND (v - 1) = 0 \<longleftrightarrow> unat v AND (unat v - 1) = 0"
    by (simp add: unat_eq_iff unsigned_and_eq)
  then show ?thesis
    using False power_of_two_nat [of "unat v"] by (simp add: is_power_of_two_def unat_eq_iff)
qed (simp add: is_power_of_two_def)

text \<open>
  What the rest of the connector relies on: pages of whole blocks, segments of whole pages,
  and a usable capacity that is exactly the pages.
\<close>

definition geometry_ok :: "storage_geometry \<Rightarrow> bool" where
  "geometry_ok g \<longleftrightarrow>
     0 < unat (page_size g) \<and> 0 < unat (block_size g) \<and>
     unat (block_size g) dvd unat (page_size g) \<and>
     unat (page_size g) dvd unat (io_segment_size g) \<and>
     unat (page_size g) \<le> unat (io_segment_size g) \<and>
     0 < unat (geo_page_count g) \<and>
     unat (usable_capacity_bytes g) = unat (geo_page_count g) * unat (page_size g) \<and>
     spdk_buffer_count g \<noteq> 0 \<and> is_power_of_two (buffer_alignment g)"

definition effective_segment :: "nat \<Rightarrow> nat \<Rightarrow> nat \<Rightarrow> nat" where
  "effective_segment seg max_rw page = (if max_rw = 0 then seg else min seg (max_rw div page * page))"

lemma unat_div_times: "unat (a div b * b :: u64) = unat a div unat b * unat b"
proof -
  have "unat (a div b) * unat b \<le> unat a" by (simp add: unat_div)
  then have "unat (a div b) * unat b < 2 ^ 64"
    using unat_le_u64_max [of a] by simp
  then show ?thesis by (simp add: unat_mult_u64 unat_div)
qed

lemma unat_effective:
  "unat (effective_io_segment_size seg max_rw page) =
     effective_segment (unat seg) (unat max_rw) (unat page)"
  by (auto simp: effective_segment_def effective_io_segment_size_def Let_def unat_div_times
      unat_eq_iff)

lemma not_above_u64_max: "\<not> u64_max < w"
  by (simp add: word_less_nat_alt not_less unat_le_u64_max)

lemma finish_geometry_accepts:
  assumes page: "page \<noteq> 0"
    and eff: "eff = effective_segment (unat seg) (unat max_rw) (unat page)"
    and ok: "unat page \<le> eff" "unat page dvd eff" "unat page \<le> unat capacity"
  shows "\<exists>g. finish_geometry capacity page max_rw bs wub align seg buffers = Inr g \<and>
    capacity_bytes g = capacity \<and> page_size g = page \<and>
    unat (geo_page_count g) = unat capacity div unat page \<and>
    unat (usable_capacity_bytes g) = unat capacity div unat page * unat page \<and>
    unat (io_segment_size g) = eff \<and> bdev_max_rw_size_bytes g = max_rw \<and> block_size g = bs \<and>
    write_unit_blocks g = wub \<and> buffer_alignment g = align \<and> spdk_buffer_count g = buffers"
proof -
  let ?e = "effective_io_segment_size seg max_rw page"
  have e: "unat ?e = eff" by (simp add: unat_effective eff)
  have p: "0 < unat page" using page by (simp add: unat_eq_iff)
  have "\<not> (?e < page \<or> ?e mod page \<noteq> 0 \<or> ?e > u64_max)"
    using ok e not_above_u64_max [of ?e]
    by (simp add: word_less_nat_alt [of _ page] unat_eq_iff [of "?e mod page"] unat_mod
        mod_eq_0_iff_dvd not_less)
  moreover have "capacity div page \<noteq> 0"
    using ok(3) p by (simp add: unat_eq_iff unat_div div_eq_0_iff)
  moreover have "checked_multiply (capacity div page) page d = Inr (capacity div page * page)" for d
  proof -
    have "unat capacity div unat page * unat page \<le> unat capacity"
      by (rule div_times_less_eq_dividend)
    also have "\<dots> < 2 ^ 64" using unat_le_u64_max [of capacity] by simp
    finally show ?thesis by (simp add: checked_multiply_iff unat_div)
  qed
  ultimately show ?thesis
    using e by (simp add: finish_geometry_def Let_def unat_div_times unat_div)
qed

lemma finish_geometry_rejects:
  assumes page: "page \<noteq> 0"
    and eff: "eff = effective_segment (unat seg) (unat max_rw) (unat page)"
    and bad: "\<not> (unat page \<le> eff \<and> unat page dvd eff \<and> unat page \<le> unat capacity)"
  shows "\<exists>s. finish_geometry capacity page max_rw bs wub align seg buffers = Inl (Invalid_argument s)"
proof (cases "unat page \<le> eff \<and> unat page dvd eff")
  case True
  then have "capacity div page = 0"
    using bad by (simp add: unat_eq_iff unat_div)
  then show ?thesis by (simp add: finish_geometry_def Let_def)
next
  case False
  let ?e = "effective_io_segment_size seg max_rw page"
  have "?e < page \<or> ?e mod page \<noteq> 0"
    using False unat_effective [of seg max_rw page]
    unfolding word_less_nat_alt unat_eq_iff [of "?e mod page"] unat_mod eff [symmetric]
    by (auto simp: mod_eq_0_iff_dvd not_le)
  then have "?e < page \<or> ?e mod page \<noteq> 0 \<or> ?e > u64_max" by (elim disjE) simp_all
  then show ?thesis by (simp only: finish_geometry_def Let_def if_True) blast
qed

section \<open>Properties\<close>

definition geometry_accepted ::
  "nat \<Rightarrow> nat \<Rightarrow> nat \<Rightarrow> nat \<Rightarrow> nat \<Rightarrow> nat \<Rightarrow> nat \<Rightarrow> bool" where
  "geometry_accepted nb bs wub align seg mrw buffers \<longleftrightarrow>
     nb \<noteq> 0 \<and> bs \<noteq> 0 \<and> wub \<noteq> 0 \<and> (\<exists>k. align = 2 ^ k) \<and> buffers \<noteq> 0 \<and> nb * bs < 2 ^ 64 \<and>
     (let page = bs * wub; eff = effective_segment seg (mrw * bs) page
      in page \<le> eff \<and> page dvd eff \<and> page \<le> nb * bs)"

lemma unat_page: "unat (ucast (bs :: u32) * ucast (wub :: u32) :: u64) = unat bs * unat wub"
  using u32_product_bound [of bs wub] by (simp add: unat_mult_u64)

text \<open>
  Property C5. \<open>BuildStorageGeometry\<close> accepts exactly the inputs that, read as unbounded
  numbers, describe a bdev with at least one whole page, a power-of-two alignment, buffers, a
  capacity below \<open>2 ^ 64\<close> and an effective segment of whole pages; then every size it reports
  is the unbounded product or quotient, so nothing wraps. Every refusal is an
  \<open>invalid_argument\<close>, except that a capacity of \<open>2 ^ 64\<close> or more is an \<open>overflow_error\<close>.
\<close>

theorem build_storage_geometry_correct:
  "case build_storage_geometry nb bs wub align seg mrw buffers of
     Inr g \<Rightarrow>
       geometry_accepted (unat nb) (unat bs) (unat wub) (unat align) (unat seg) (unat mrw)
         (unat buffers) \<and>
       geometry_ok g \<and>
       unat (capacity_bytes g) = unat nb * unat bs \<and>
       unat (page_size g) = unat bs * unat wub \<and>
       unat (geo_page_count g) = unat nb * unat bs div (unat bs * unat wub) \<and>
       unat (io_segment_size g)
         = effective_segment (unat seg) (unat mrw * unat bs) (unat bs * unat wub) \<and>
       unat (usable_capacity_bytes g) \<le> unat (capacity_bytes g)
   | Inl e \<Rightarrow>
       \<not> geometry_accepted (unat nb) (unat bs) (unat wub) (unat align) (unat seg) (unat mrw)
         (unat buffers) \<and>
       (case e of Invalid_argument s \<Rightarrow> True
        | Overflow_error s \<Rightarrow> 2 ^ 64 \<le> unat nb * unat bs
        | _ \<Rightarrow> False)"
proof (cases "nb = 0 \<or> bs = 0 \<or> wub = 0 \<or> \<not> is_power_of_two align \<or> buffers = 0")
  case True
  then show ?thesis
    by (auto simp: build_storage_geometry_def geometry_accepted_def is_power_of_two_iff)
next
  case False
  let ?P = "ucast bs * ucast wub :: u64" and ?M = "ucast mrw * ucast bs :: u64"
  let ?C = "nb * ucast bs :: u64"
  let ?eff = "effective_segment (unat seg) (unat ?M) (unat ?P)"
  have pos: "0 < unat nb" "0 < unat bs" "0 < unat wub" "0 < unat buffers"
    and al: "\<exists>k. unat align = 2 ^ k"
    using False by (auto simp: unat_eq_iff is_power_of_two_iff)
  have P: "unat ?P = unat bs * unat wub" and M: "unat ?M = unat mrw * unat bs"
    by (rule unat_page)+
  with pos have Pne: "?P \<noteq> 0" unfolding unat_eq_iff by simp
  show ?thesis
  proof (cases "unat nb * unat bs < 2 ^ 64")
    case over: False
    then have "build_storage_geometry nb bs wub align seg mrw buffers
        = Inl (Overflow_error ''bdev byte capacity overflows uint64_t'')"
      using False by (simp add: build_storage_geometry_def checked_multiply_iff)
    with over show ?thesis by (simp add: geometry_accepted_def)
  next
    case True
    then have C: "unat ?C = unat nb * unat bs" by (simp add: unat_mult_u64)
    have build: "build_storage_geometry nb bs wub align seg mrw buffers
        = finish_geometry ?C ?P ?M bs wub align seg buffers"
      using False True
      unfolding build_storage_geometry_def checked_multiply_u32
      by (simp add: checked_multiply_iff)
    have acc: "geometry_accepted (unat nb) (unat bs) (unat wub) (unat align) (unat seg)
        (unat mrw) (unat buffers) \<longleftrightarrow>
        unat ?P \<le> ?eff \<and> unat ?P dvd ?eff \<and> unat ?P \<le> unat ?C"
      using pos al True by (simp add: geometry_accepted_def Let_def P M C)
    show ?thesis
    proof (cases "unat ?P \<le> ?eff \<and> unat ?P dvd ?eff \<and> unat ?P \<le> unat ?C")
      case ok: True
      then obtain g where "finish_geometry ?C ?P ?M bs wub align seg buffers = Inr g"
        "capacity_bytes g = ?C \<and> page_size g = ?P \<and>
         unat (geo_page_count g) = unat ?C div unat ?P \<and>
         unat (usable_capacity_bytes g) = unat ?C div unat ?P * unat ?P \<and>
         unat (io_segment_size g) = ?eff \<and> block_size g = bs \<and>
         buffer_alignment g = align \<and> spdk_buffer_count g = buffers"
        using finish_geometry_accepts [OF Pne refl, of seg ?M ?C bs wub align buffers] by blast
      with ok acc build False pos show ?thesis
        by (simp add: geometry_ok_def P M C div_greater_zero_iff)
    next
      case bad: False
      with finish_geometry_rejects [OF Pne refl, of seg ?M ?C bs wub align buffers] acc build
      show ?thesis by auto
    qed
  qed
qed

definition example_geometry :: storage_geometry where
  "example_geometry = default_geometry
     \<lparr>capacity_bytes := 20480, usable_capacity_bytes := 16384, page_size := 8192,
      geo_page_count := 2, io_segment_size := 8192, block_size := 4096, write_unit_blocks := 2,
      buffer_alignment := 4096, spdk_buffer_count := 1\<rparr>"

lemma example_geometry_built: "build_storage_geometry 5 4096 2 4096 8192 0 1 = Inr example_geometry"
  by (simp add: build_storage_geometry_def checked_multiply_def is_power_of_two_def u64_max_def
      finish_geometry_def effective_io_segment_size_def Let_def example_geometry_def
      default_geometry_def)

end
