(* ===== verification/Buffer_Pool.thy ===== *)
theory Buffer_Pool
  imports Storage_Geometry
begin

text \<open>
  The pool of DMA bounce buffers of one SPDK I/O worker,
  \<open>bdev/csrc/spdk/spdk_buffer_pool.{h,cpp}\<close>.

  SPDK's allocator is a parameter: \<open>zmalloc size alignment heap\<close> returns a fresh buffer or
  \<open>None\<close> for a null pointer, and \<open>dma_free\<close> gives a buffer back. Buffer indexes are
  natural numbers: they are positions in the three tables and no arithmetic is done on them.
\<close>

section \<open>State and operations\<close>

type_synonym dma_ptr = nat

type_synonym 'h zmalloc_fun = "u64 \<Rightarrow> u64 \<Rightarrow> 'h \<Rightarrow> dma_ptr option \<times> 'h"

type_synonym 'h dma_free_fun = "dma_ptr \<Rightarrow> 'h \<Rightarrow> 'h"

record buffer_pool =
  pool_buffer_size :: u64
  pool_buffer_alignment :: u64
  pool_buffers :: "dma_ptr list"
  pool_in_use :: "u8 list"
  pool_free_indexes :: "nat list"
  pool_initialized :: bool

definition empty_pool :: buffer_pool where
  "empty_pool =
     \<lparr>pool_buffer_size = 0, pool_buffer_alignment = 0, pool_buffers = [], pool_in_use = [],
      pool_free_indexes = [], pool_initialized = False\<rparr>"

text \<open>The destructor terminates the process when buffers are left.\<close>

definition pool_destructible :: "buffer_pool \<Rightarrow> bool" where
  "pool_destructible p \<longleftrightarrow> pool_buffers p = []"

definition pool_release_all ::
  "'h dma_free_fun \<Rightarrow> buffer_pool \<Rightarrow> 'h \<Rightarrow> buffer_pool \<times> 'h" where
  "pool_release_all dma_free p h = (empty_pool, fold dma_free (pool_buffers p) h)"

text \<open>The allocation loop: the second component says whether every buffer was obtained.\<close>

fun zmalloc_loop ::
  "'h zmalloc_fun \<Rightarrow> u64 \<Rightarrow> u64 \<Rightarrow> nat \<Rightarrow> buffer_pool \<Rightarrow> 'h \<Rightarrow> buffer_pool \<times> bool \<times> 'h" where
  "zmalloc_loop zmalloc sz algn 0 p h = (p, True, h)"
| "zmalloc_loop zmalloc sz algn (Suc n) p h =
     (case zmalloc sz algn h of
        (None, h') \<Rightarrow> (p, False, h')
      | (Some b, h') \<Rightarrow>
          zmalloc_loop zmalloc sz algn n (p\<lparr>pool_buffers := pool_buffers p @ [b]\<rparr>) h')"

text \<open>The checks of \<open>initialize\<close>, up to its first assignment, and the rest of it.\<close>

definition pool_initialize_error :: "u64 \<Rightarrow> u64 \<Rightarrow> u64 \<Rightarrow> buffer_pool \<Rightarrow> exn option" where
  "pool_initialize_error sz algn cnt p =
     (if pool_initialized p \<or> pool_buffers p \<noteq> []
      then Some (Logic_error ''SPDK buffer pool is already initialized'')
      else if sz = 0
      then Some (Invalid_argument ''SPDK buffer size must be greater than zero'')
      else if sz > u64_max
      then Some (Overflow_error ''SPDK buffer size does not fit in size_t'')
      else if \<not> is_power_of_two algn
      then Some (Invalid_argument ''SPDK buffer alignment must be a nonzero power of two'')
      else if cnt = 0
      then Some (Invalid_argument ''SPDK buffer count must be greater than zero'')
      else if cnt > u64_max div sz
      then Some (Overflow_error ''total SPDK buffer pool size overflows size_t'')
      else None)"

definition pool_initialize ::
  "'h zmalloc_fun \<Rightarrow> 'h dma_free_fun \<Rightarrow> u64 \<Rightarrow> u64 \<Rightarrow> u64 \<Rightarrow> buffer_pool \<Rightarrow> 'h \<Rightarrow>
     unit result \<times> buffer_pool \<times> 'h" where
  "pool_initialize zmalloc dma_free sz algn cnt p h =
     (case pool_initialize_error sz algn cnt p of
        Some e \<Rightarrow> (Inl e, p, h)
      | None \<Rightarrow>
        let p1 = p\<lparr>pool_buffer_size := sz, pool_buffer_alignment := algn,
                   pool_in_use := replicate (unat cnt) 0\<rparr>
        in case zmalloc_loop zmalloc sz algn (unat cnt) p1 h of
             (p2, False, h2) \<Rightarrow>
               let allocated = length (pool_buffers p2)
               in (case pool_release_all dma_free p2 h2 of
                     (p3, h3) \<Rightarrow>
                       (Inl (Runtime_error
                          (''spdk_dma_zmalloc failed after allocating '' @ nat_to_string allocated
                           @ '' of '' @ nat_to_string (unat cnt)
                           @ '' SPDK buffers; partial allocations were released'')), p3, h3))
           | (p2, True, h2) \<Rightarrow>
               (Inr (),
                p2\<lparr>pool_free_indexes := pool_free_indexes p2 @ rev [0..<unat cnt],
                   pool_initialized := True\<rparr>, h2))"

definition pool_try_acquire :: "buffer_pool \<Rightarrow> nat option result \<times> buffer_pool" where
  "pool_try_acquire p =
     (if \<not> pool_initialized p
      then (Inl (Logic_error ''SPDK buffer pool is not initialized''), p)
      else if pool_free_indexes p = [] then (Inr None, p)
      else
        let i = last (pool_free_indexes p);
            p1 = p\<lparr>pool_free_indexes := butlast (pool_free_indexes p)\<rparr>
        in if i < length (pool_in_use p1)
           then (Inr (Some i), p1\<lparr>pool_in_use := (pool_in_use p1)[i := 1]\<rparr>)
           else (Inl (Out_of_range ''vector::_M_range_check''), p1))"

definition pool_available :: "buffer_pool \<Rightarrow> nat" where
  "pool_available p = length (pool_free_indexes p)"

text \<open>
  The check that \<open>data\<close> and \<open>release\<close> share: whether index \<open>i\<close> is leased, with
  \<open>in_use_.at\<close> throwing when the tables disagree in length.
\<close>

definition pool_check_leased :: "buffer_pool \<Rightarrow> nat \<Rightarrow> unit result" where
  "pool_check_leased p i =
     (if \<not> pool_initialized p then Inl (Logic_error ''SPDK buffer pool is not initialized'')
      else if i \<ge> length (pool_buffers p)
      then Inl (Invalid_argument ''SPDK buffer index is not currently leased'')
      else if i \<ge> length (pool_in_use p) then Inl (Out_of_range ''vector::_M_range_check'')
      else if pool_in_use p ! i = 0
      then Inl (Invalid_argument ''SPDK buffer index is not currently leased'')
      else Inr ())"

definition pool_data :: "buffer_pool \<Rightarrow> nat \<Rightarrow> dma_ptr result" where
  "pool_data p i =
     (case pool_check_leased p i of Inl e \<Rightarrow> Inl e | Inr _ \<Rightarrow> Inr (pool_buffers p ! i))"

definition pool_release :: "nat \<Rightarrow> buffer_pool \<Rightarrow> unit result \<times> buffer_pool" where
  "pool_release i p =
     (case pool_check_leased p i of
        Inl e \<Rightarrow> (Inl e, p)
      | Inr _ \<Rightarrow> (Inr (), p\<lparr>pool_in_use := (pool_in_use p)[i := 0],
                           pool_free_indexes := pool_free_indexes p @ [i]\<rparr>))"

section \<open>Invariant\<close>

definition pool_leased :: "buffer_pool \<Rightarrow> nat set" where
  "pool_leased p = {i. i < length (pool_in_use p) \<and> pool_in_use p ! i \<noteq> 0}"

definition pool_inv :: "buffer_pool \<Rightarrow> bool" where
  "pool_inv p \<longleftrightarrow>
     length (pool_in_use p) = length (pool_buffers p) \<and>
     distinct (pool_free_indexes p) \<and>
     set (pool_free_indexes p) = {..<length (pool_buffers p)} - pool_leased p \<and>
     (pool_initialized p \<longleftrightarrow> pool_buffers p \<noteq> [])"

lemma pool_leased_bound: "pool_leased p \<subseteq> {..<length (pool_in_use p)}"
  by (auto simp: pool_leased_def)

lemma finite_pool_leased [simp]: "finite (pool_leased p)"
  using pool_leased_bound finite_subset by blast

lemma pool_inv_empty [simp]: "pool_inv empty_pool"
  by (simp add: pool_inv_def empty_pool_def pool_leased_def)

lemma pool_try_acquire_None:
  "pool_try_acquire p = (Inr None, p') \<longleftrightarrow>
     pool_initialized p \<and> pool_available p = 0 \<and> p' = p"
  by (auto simp: pool_try_acquire_def pool_available_def Let_def)

lemma pool_try_acquire_error:
  "pool_inv p \<Longrightarrow> pool_initialized p \<Longrightarrow> fst (pool_try_acquire p) \<noteq> Inl e"
  using last_in_set [of "pool_free_indexes p"]
  by (auto simp: pool_try_acquire_def pool_inv_def Let_def)

lemma pool_acquired:
  assumes "pool_inv p" and "pool_try_acquire p = (Inr (Some i), p')"
  shows "pool_inv p'" and "i \<notin> pool_leased p" and "pool_leased p' = insert i (pool_leased p)"
    and "pool_buffers p' = pool_buffers p" and "i < length (pool_buffers p)"
    and "pool_initialized p'"
    and "Suc (pool_available p') = pool_available p"
proof -
  let ?fi = "pool_free_indexes p"
  from assms(2) have ne: "?fi \<noteq> []" and i: "i = last ?fi" and il: "i < length (pool_in_use p)"
    and ini: "pool_initialized p"
    and p': "p' = p\<lparr>pool_free_indexes := butlast ?fi, pool_in_use := (pool_in_use p)[i := 1]\<rparr>"
    by (auto simp: pool_try_acquire_def Let_def split: if_splits)
  have fi: "?fi = butlast ?fi @ [i]" using ne i by simp
  have "distinct (butlast ?fi @ [i])" using assms(1) fi by (simp add: pool_inv_def)
  then have d: "distinct (butlast ?fi)" "i \<notin> set (butlast ?fi)" by simp_all
  have s: "set ?fi = insert i (set (butlast ?fi))"
    by (subst fi) simp
  show i_free: "i \<notin> pool_leased p" using assms(1) s by (auto simp: pool_inv_def)
  show leased: "pool_leased p' = insert i (pool_leased p)"
    using il by (auto simp: pool_leased_def p' nth_list_update)
  show "pool_inv p'"
    using assms(1) d s i_free leased by (auto simp: pool_inv_def p')
  show "pool_buffers p' = pool_buffers p" "pool_initialized p'" using ini by (simp_all add: p')
  show "i < length (pool_buffers p)" using il assms(1) by (simp add: pool_inv_def)
  show "Suc (pool_available p') = pool_available p"
    using ne by (simp add: p' pool_available_def)
qed

lemma pool_check_leased_iff:
  "pool_inv p \<Longrightarrow> pool_check_leased p i = Inr () \<longleftrightarrow> i \<in> pool_leased p"
  by (auto simp: pool_check_leased_def pool_inv_def pool_leased_def)

lemma pool_check_leasedI: "pool_inv p \<Longrightarrow> i \<in> pool_leased p \<Longrightarrow> pool_check_leased p i = Inr ()"
  by (simp add: pool_check_leased_iff)

lemma pool_data_leased:
  "pool_inv p \<Longrightarrow> i \<in> pool_leased p \<Longrightarrow> pool_data p i = Inr (pool_buffers p ! i)"
  by (simp add: pool_data_def pool_check_leasedI)

lemma pool_released:
  assumes "pool_inv p" and "i \<in> pool_leased p"
  obtains p' where "pool_release i p = (Inr (), p')" and "pool_inv p'"
    and "pool_leased p' = pool_leased p - {i}" and "pool_buffers p' = pool_buffers p"
    and "pool_available p' = Suc (pool_available p)"
    and "pool_initialized p' = pool_initialized p"
proof
  let ?p' = "p\<lparr>pool_in_use := (pool_in_use p)[i := 0],
    pool_free_indexes := pool_free_indexes p @ [i]\<rparr>"
  have i: "i < length (pool_in_use p)" using assms(2) by (simp add: pool_leased_def)
  show "pool_release i p = (Inr (), ?p')"
    using assms by (simp add: pool_release_def pool_check_leasedI)
  show l: "pool_leased ?p' = pool_leased p - {i}"
    using i by (auto simp: pool_leased_def nth_list_update)
  show "pool_inv ?p'"
    using assms i l by (auto simp: pool_inv_def)
qed (simp_all add: pool_available_def)

lemma pool_release_refused:
  "pool_inv p \<Longrightarrow> i \<notin> pool_leased p \<Longrightarrow> \<exists>e. pool_release i p = (Inl e, p)"
  by (cases "pool_check_leased p i") (auto simp: pool_release_def dest: pool_check_leased_iff)

lemma pool_capacity:
  assumes "pool_inv p"
  shows "pool_available p + card (pool_leased p) = length (pool_buffers p)"
proof -
  have "pool_available p = card (set (pool_free_indexes p))"
    using assms distinct_card [of "pool_free_indexes p"]
    by (simp add: pool_available_def pool_inv_def)
  also have "\<dots> = length (pool_buffers p) - card (pool_leased p)"
    using assms pool_leased_bound [of p] by (simp add: pool_inv_def card_Diff_subset)
  finally show ?thesis
    using assms card_mono [OF _ pool_leased_bound, of p] by (simp add: pool_inv_def)
qed

section \<open>Leases\<close>

text \<open>
  What a worker relies on when it leases buffers to requests. A lease table maps each
  request to the buffer it holds.
\<close>

locale lease_pool =
  fixes acquire :: "'p \<Rightarrow> nat option result \<times> 'p"
    and give_back :: "nat \<Rightarrow> 'p \<Rightarrow> unit result \<times> 'p"
    and leased :: "'p \<Rightarrow> nat set"
    and available :: "'p \<Rightarrow> nat"
    and capacity :: "'p \<Rightarrow> nat"
    and ok :: "'p \<Rightarrow> bool"
  assumes acquire_some: "ok p \<Longrightarrow> acquire p = (Inr (Some i), p') \<Longrightarrow>
      ok p' \<and> i \<notin> leased p \<and> leased p' = insert i (leased p) \<and> capacity p' = capacity p"
    and acquire_none: "ok p \<Longrightarrow> acquire p = (Inr None, p') \<Longrightarrow> p' = p \<and> available p = 0"
    and acquire_total: "ok p \<Longrightarrow> available p \<noteq> 0 \<Longrightarrow> \<exists>i p'. acquire p = (Inr (Some i), p')"
    and acquire_no_error: "ok p \<Longrightarrow> fst (acquire p) \<noteq> Inl e"
    and give_back_ok: "ok p \<Longrightarrow> i \<in> leased p \<Longrightarrow>
      \<exists>p'. give_back i p = (Inr (), p') \<and> ok p' \<and> leased p' = leased p - {i} \<and>
        capacity p' = capacity p"
    and accounting: "ok p \<Longrightarrow> finite (leased p) \<and> available p + card (leased p) = capacity p"
begin

definition table_ok :: "('r \<rightharpoonup> nat) \<Rightarrow> 'p \<Rightarrow> bool" where
  "table_ok holds p \<longleftrightarrow> ok p \<and> inj_on holds (dom holds) \<and> ran holds = leased p"

lemma table_acquire:
  assumes "table_ok holds p" and "acquire p = (Inr (Some i), p')" and "holds r = None"
  shows "table_ok (holds(r \<mapsto> i)) p'" and "capacity p' = capacity p"
proof -
  have a: "ok p' \<and> i \<notin> leased p \<and> leased p' = insert i (leased p) \<and> capacity p' = capacity p"
    using assms(1) acquire_some [OF _ assms(2)] by (simp add: table_ok_def)
  then have fresh: "i \<notin> ran holds" using assms(1) by (simp add: table_ok_def)
  then have "inj_on (holds(r \<mapsto> i)) (dom (holds(r \<mapsto> i)))"
    using assms(1,3) by (auto simp: table_ok_def inj_on_def ran_def)
  then show "table_ok (holds(r \<mapsto> i)) p'"
    using a assms by (simp add: table_ok_def ran_map_upd)
  show "capacity p' = capacity p" using a by simp
qed

lemma table_give_back:
  assumes "table_ok holds p" and "holds r = Some i"
  obtains p' where "give_back i p = (Inr (), p')" and "table_ok (holds(r := None)) p'"
    and "capacity p' = capacity p"
proof -
  have "i \<in> leased p" using assms by (auto simp: table_ok_def ran_def)
  then obtain p' where p': "give_back i p = (Inr (), p')" "ok p'" "leased p' = leased p - {i}"
    "capacity p' = capacity p"
    using give_back_ok [of p i] assms(1) by (auto simp: table_ok_def)
  have inj: "inj_on holds (dom holds)" using assms by (simp add: table_ok_def)
  then have "ran (holds(r := None)) = ran holds - {i}"
    using assms(2) by (auto simp: ran_def inj_on_def dom_def) (metis option.inject)+
  moreover have "inj_on (holds(r := None)) (dom (holds(r := None)))"
    using inj by (auto simp: inj_on_def dom_def)
  ultimately have "table_ok (holds(r := None)) p'"
    using assms p' by (simp add: table_ok_def)
  with p' that show ?thesis by blast
qed

lemma table_count:
  assumes "table_ok holds p"
  shows "finite (dom holds)" and "available p + card (dom holds) = capacity p"
proof -
  have inj: "inj_on (\<lambda>r. the (holds r)) (dom holds)"
    using assms by (auto simp: table_ok_def inj_on_def dom_def)
  have img: "(\<lambda>r. the (holds r)) ` dom holds = leased p"
    using assms by (force simp: table_ok_def ran_def image_def)
  have fin: "finite (leased p)" using assms accounting by (auto simp: table_ok_def)
  with img inj show "finite (dom holds)" by (metis finite_imageD)
  have "card (dom holds) = card (leased p)" using card_image [OF inj] img by simp
  then show "available p + card (dom holds) = capacity p"
    using assms accounting by (auto simp: table_ok_def)
qed

end

definition pool_ok :: "buffer_pool \<Rightarrow> bool" where
  "pool_ok p \<longleftrightarrow> pool_inv p \<and> pool_initialized p"

definition pool_size :: "buffer_pool \<Rightarrow> nat" where
  "pool_size p = length (pool_buffers p)"

interpretation leases: lease_pool pool_try_acquire pool_release pool_leased pool_available
  pool_size pool_ok
proof
  fix p p' i assume "pool_ok p" "pool_try_acquire p = (Inr (Some i), p')"
  then show "pool_ok p' \<and> i \<notin> pool_leased p \<and> pool_leased p' = insert i (pool_leased p) \<and>
      pool_size p' = pool_size p"
    using pool_acquired [of p i p'] by (simp add: pool_ok_def pool_size_def)
next
  fix p p' assume "pool_ok p" "pool_try_acquire p = (Inr None, p')"
  then show "p' = p \<and> pool_available p = 0" by (simp add: pool_try_acquire_None)
next
  fix p assume p: "pool_ok p" "pool_available p \<noteq> 0"
  then have "fst (pool_try_acquire p) \<noteq> Inr None"
    using pool_try_acquire_None [of p "snd (pool_try_acquire p)"] by (auto simp: prod_eq_iff)
  moreover have "fst (pool_try_acquire p) \<noteq> Inl e" for e
    using p pool_try_acquire_error by (simp add: pool_ok_def)
  ultimately show "\<exists>i p'. pool_try_acquire p = (Inr (Some i), p')"
    by (cases "pool_try_acquire p"; cases "fst (pool_try_acquire p)") (auto simp: option.exhaust_sel)
next
  fix p e assume "pool_ok p"
  then show "fst (pool_try_acquire p) \<noteq> Inl e" using pool_try_acquire_error by (simp add: pool_ok_def)
next
  fix p i assume "pool_ok p" "i \<in> pool_leased p"
  then show "\<exists>p'. pool_release i p = (Inr (), p') \<and> pool_ok p' \<and>
      pool_leased p' = pool_leased p - {i} \<and> pool_size p' = pool_size p"
    using pool_released [of p i] by (metis pool_ok_def pool_size_def)
next
  fix p assume "pool_ok p"
  then show "finite (pool_leased p) \<and> pool_available p + card (pool_leased p) = pool_size p"
    by (simp add: pool_ok_def pool_size_def pool_capacity)
qed

section \<open>Allocation and release of the buffers\<close>

text \<open>
  SPDK's allocator, as documented: a buffer it returns was not live and is live from then on,
  a null pointer changes nothing, and freeing a buffer ends its life.
\<close>

definition dma_heap_ok :: "'h zmalloc_fun \<Rightarrow> 'h dma_free_fun \<Rightarrow> ('h \<Rightarrow> dma_ptr set) \<Rightarrow> bool" where
  "dma_heap_ok zmalloc dma_free live \<longleftrightarrow>
     (\<forall>h sz algn. case zmalloc sz algn h of
        (None, h') \<Rightarrow> live h' = live h
      | (Some b, h') \<Rightarrow> b \<notin> live h \<and> live h' = insert b (live h)) \<and>
     (\<forall>h b. live (dma_free b h) = live h - {b})"

lemma live_fold_free:
  "dma_heap_ok zmalloc dma_free live \<Longrightarrow> live (fold dma_free bs h) = live h - set bs"
  by (induction bs arbitrary: h) (auto simp: dma_heap_ok_def)

lemma zmalloc_loop_pool:
  "zmalloc_loop zmalloc sz algn n p h = (p', b, h') \<Longrightarrow>
    \<exists>bs. p' = p\<lparr>pool_buffers := pool_buffers p @ bs\<rparr> \<and> (b \<longrightarrow> length bs = n)"
proof (induction n arbitrary: p h)
  case 0
  then show ?case by (intro exI [of _ "[]"]) simp
next
  case (Suc n)
  show ?case
  proof (cases "zmalloc sz algn h")
    case (Pair r h1)
    show ?thesis
    proof (cases r)
      case None
      with Suc.prems Pair show ?thesis by (intro exI [of _ "[]"]) simp
    next
      case (Some b1)
      with Suc.prems Pair Suc.IH obtain bs where
        "p' = p\<lparr>pool_buffers := pool_buffers p @ [b1]\<rparr>
                 \<lparr>pool_buffers := (pool_buffers p @ [b1]) @ bs\<rparr>" "b \<longrightarrow> length bs = n"
        by fastforce
      then show ?thesis by (intro exI [of _ "b1 # bs"]) simp
    qed
  qed
qed

lemma zmalloc_loop_live:
  assumes "dma_heap_ok zmalloc dma_free live"
    and "zmalloc_loop zmalloc sz algn n p h = (p', b, h')"
    and "distinct (pool_buffers p)" "live h = L \<union> set (pool_buffers p)"
    "L \<inter> set (pool_buffers p) = {}"
  shows "distinct (pool_buffers p') \<and> live h' = L \<union> set (pool_buffers p') \<and>
    L \<inter> set (pool_buffers p') = {}"
  using assms(2-)
proof (induction n arbitrary: p h)
  case (Suc n)
  obtain r h1 where z: "zmalloc sz algn h = (r, h1)" by fastforce
  have "case zmalloc sz algn h of (None, h') \<Rightarrow> live h' = live h
      | (Some b, h') \<Rightarrow> b \<notin> live h \<and> live h' = insert b (live h)"
    by (rule assms(1) [unfolded dma_heap_ok_def, THEN conjunct1, rule_format])
  note ok = this [unfolded z]
  show ?case
  proof (cases r)
    case None
    with Suc.prems z ok show ?thesis by simp
  next
    case (Some b1)
    with z Suc.prems(1) have
      "zmalloc_loop zmalloc sz algn n (p\<lparr>pool_buffers := pool_buffers p @ [b1]\<rparr>) h1 = (p', b, h')"
      by simp
    then show ?thesis
      by (rule Suc.IH) (use Some ok Suc.prems in auto)
  qed
qed simp

lemma rev_upt_pool: "distinct (rev [0..<n])" "set (rev [0..<n]) = {..<n}"
  by auto

text \<open>
  Property C6. Initialising an empty pool either obtains exactly the requested number of
  distinct buffers, all available, or leaves the pool empty and frees every buffer it had
  obtained: no error path leaks DMA memory. Releasing all buffers gives back exactly those.
\<close>

theorem pool_initialize_no_leak:
  assumes "dma_heap_ok zmalloc dma_free live"
  shows "case pool_initialize zmalloc dma_free sz algn cnt empty_pool h of
      (Inr _, p, h') \<Rightarrow>
        pool_ok p \<and> pool_size p = unat cnt \<and> pool_available p = unat cnt \<and>
        distinct (pool_buffers p) \<and> set (pool_buffers p) \<inter> live h = {} \<and>
        live h' = live h \<union> set (pool_buffers p) \<and>
        (case pool_release_all dma_free p h' of (p1, h1) \<Rightarrow> p1 = empty_pool \<and> live h1 = live h)
    | (Inl e, p, h') \<Rightarrow> p = empty_pool \<and> live h' = live h"
proof -
  let ?p1 = "empty_pool\<lparr>pool_buffer_size := sz, pool_buffer_alignment := algn,
    pool_in_use := replicate (unat cnt) 0\<rparr>"
  obtain p2 b h2 where loop: "zmalloc_loop zmalloc sz algn (unat cnt) ?p1 h = (p2, b, h2)"
    by (metis prod_cases3)
  obtain bs where p2: "p2 = ?p1\<lparr>pool_buffers := bs\<rparr>" "b \<longrightarrow> length bs = unat cnt"
    using zmalloc_loop_pool [OF loop] by (auto simp: empty_pool_def)
  have live: "distinct bs" "live h2 = live h \<union> set bs" "live h \<inter> set bs = {}"
    using zmalloc_loop_live [OF assms loop, of "live h"] p2 by (auto simp: empty_pool_def)
  then have freed: "live (fold dma_free bs h2) = live h"
    using live_fold_free [OF assms, of bs h2] by auto
  show ?thesis
  proof (cases "pool_initialize_error sz algn cnt empty_pool")
    case (Some e)
    then show ?thesis by (simp add: pool_initialize_def)
  next
    case None
    then have n: "0 < unat cnt"
      by (auto simp: pool_initialize_error_def unat_eq_iff split: if_splits)
    show ?thesis
    proof (cases b)
      case True
      let ?p3 = "p2\<lparr>pool_free_indexes := rev [0..<unat cnt], pool_initialized := True\<rparr>"
      have "pool_initialize zmalloc dma_free sz algn cnt empty_pool h = (Inr (), ?p3, h2)"
        using None loop True p2(1) by (simp add: pool_initialize_def empty_pool_def Let_def)
      moreover have "pool_leased ?p3 = {}" by (auto simp: pool_leased_def p2(1))
      then have "pool_ok ?p3"
        using True p2 n by (auto simp: pool_ok_def pool_inv_def)
      ultimately show ?thesis
        using live p2 True freed
        by (auto simp: pool_size_def pool_available_def pool_release_all_def)
    next
      case False
      then have "\<exists>e. pool_initialize zmalloc dma_free sz algn cnt empty_pool h
          = (Inl e, empty_pool, fold dma_free bs h2)"
        using None False loop p2(1)
        by (simp add: pool_initialize_def empty_pool_def Let_def pool_release_all_def)
      with freed show ?thesis by auto
    qed
  qed
qed

text \<open>A concrete allocator with room for three buffers: the heap is the list of live buffers.\<close>

definition small_zmalloc :: "nat list zmalloc_fun" where
  "small_zmalloc sz algn h =
     (if length h < 3 then let b = Suc (sum_list h) in (Some b, b # h) else (None, h))"

definition small_free :: "nat list dma_free_fun" where
  "small_free b h = removeAll b h"

lemma small_heap_ok: "dma_heap_ok small_zmalloc small_free set"
proof -
  have "Suc (sum_list h) \<notin> set h" for h :: "nat list"
    using member_le_sum_list [of _ h] by fastforce
  then show ?thesis by (auto simp: dma_heap_ok_def small_zmalloc_def small_free_def Let_def)
qed

theorem pool_initialize_no_leak_witness:
  "(case pool_initialize small_zmalloc small_free 4096 512 2 empty_pool [7] of
      (r, p, h') \<Rightarrow> r = Inr () \<and> pool_ok p \<and> pool_available p = 2 \<and> pool_buffers p = [8, 16]) \<and>
   (case pool_initialize small_zmalloc small_free 4096 512 4 empty_pool [7] of
      (r, p, h') \<Rightarrow> (\<exists>e. r = Inl e) \<and> p = empty_pool \<and> set h' = {7})"
proof -
  have two: "pool_initialize small_zmalloc small_free 4096 512 2 empty_pool [7] =
      (Inr (), \<lparr>pool_buffer_size = 4096, pool_buffer_alignment = 512, pool_buffers = [8, 16],
        pool_in_use = [0, 0], pool_free_indexes = [1, 0], pool_initialized = True\<rparr>, [16, 8, 7])"
    by code_simp
  have four: "(case fst (pool_initialize small_zmalloc small_free 4096 512 4 empty_pool [7]) of
      Inl e \<Rightarrow> True | Inr _ \<Rightarrow> False)"
    by code_simp
  show ?thesis
    using two four
      pool_initialize_no_leak
        [OF small_heap_ok, where sz = 4096 and algn = 512 and cnt = 2 and h = "[7]"]
      pool_initialize_no_leak
        [OF small_heap_ok, where sz = 4096 and algn = 512 and cnt = 4 and h = "[7]"]
    by (auto split: prod.splits sum.splits)
qed

end
