(* ===== verification/Byte_Memory.thy ===== *)
theory Byte_Memory
  imports Spdk_Prelude
begin

text \<open>
  Byte-addressed memory: the caller's address space, the DMA buffers and the device are
  functions from addresses to bytes, read and written in ranges (\<open>std::memcpy\<close>,
  \<open>std::memset\<close> and block transfers).
\<close>

type_synonym bytes = "u8 list"

definition mem_read :: "(nat \<Rightarrow> u8) \<Rightarrow> nat \<Rightarrow> nat \<Rightarrow> bytes" where
  "mem_read m a n = map (\<lambda>i. m (a + i)) [0..<n]"

definition mem_write :: "(nat \<Rightarrow> u8) \<Rightarrow> nat \<Rightarrow> bytes \<Rightarrow> nat \<Rightarrow> u8" where
  "mem_write m a bs = (\<lambda>x. if a \<le> x \<and> x < a + length bs then bs ! (x - a) else m x)"

definition byte_range :: "nat \<Rightarrow> nat \<Rightarrow> nat set" where
  "byte_range a n = {a ..< a + n}"

lemma length_mem_read [simp]: "length (mem_read m a n) = n"
  by (simp add: mem_read_def)

lemma mem_read_nth [simp]: "i < n \<Longrightarrow> mem_read m a n ! i = m (a + i)"
  by (simp add: mem_read_def)

lemma mem_read_eq_iff: "mem_read m a n = bs \<longleftrightarrow> length bs = n \<and> (\<forall>i<n. m (a + i) = bs ! i)"
  by (auto simp: list_eq_iff_nth_eq)

lemma mem_read_write_same [simp]: "mem_read (mem_write m a bs) a (length bs) = bs"
  by (simp add: mem_read_eq_iff mem_write_def)

lemma mem_write_outside: "x \<notin> byte_range a (length bs) \<Longrightarrow> mem_write m a bs x = m x"
  by (auto simp: mem_write_def byte_range_def)

lemma mem_read_cong: "(\<And>x. x \<in> byte_range a n \<Longrightarrow> m x = m' x) \<Longrightarrow> mem_read m a n = mem_read m' a n"
  by (simp add: mem_read_def byte_range_def)

lemma mem_read_write_disjoint:
  "byte_range a n \<inter> byte_range b (length bs) = {} \<Longrightarrow> mem_read (mem_write m b bs) a n = mem_read m a n"
  by (rule mem_read_cong) (auto intro: mem_write_outside)

lemma mem_read_append: "mem_read m a (k + n) = mem_read m a k @ mem_read m (a + k) n"
  by (auto simp: list_eq_iff_nth_eq nth_append)

lemma mem_read_0 [simp]: "mem_read m a 0 = []"
  by (simp add: mem_read_def)

lemma take_mem_read: "k \<le> n \<Longrightarrow> take k (mem_read m a n) = mem_read m a k"
  by (auto simp: list_eq_iff_nth_eq)

lemma drop_mem_read: "drop k (mem_read m a n) = mem_read m (a + k) (n - k)"
  by (auto simp: list_eq_iff_nth_eq ac_simps)

lemma byte_range_0 [simp]: "byte_range a 0 = {}"
  by (simp add: byte_range_def)

text \<open>\<open>memset\<close> with zeros followed by \<open>memcpy\<close> of a prefix.\<close>

lemma zero_then_copy:
  assumes "length bs \<le> n"
  shows "mem_read (mem_write (mem_write m a (replicate n 0)) a bs) a n =
    bs @ replicate (n - length bs) 0"
  using assms by (auto simp: mem_read_eq_iff mem_write_def nth_append)

end
