(* ===== verification/Bdev_Context.thy ===== *)
theory Bdev_Context
  imports Spdk_Runtime Buffer_Pool Byte_Memory
begin

text \<open>
  The state of one \<open>SpdkBdevContext\<close> (\<open>bdev/csrc/spdk/spdk_bdev_context.{h,cpp}\<close>), what
  SPDK holds on its behalf, and the parts of the I/O path that its handlers share.

  A request is named by its position in the table of all requests made, a batch by its
  position in the table of batches, a worker by its index. SPDK and everything else outside
  the class is a state \<open>'d\<close> behind the functions of \<open>spdk_env\<close>: the clock, the return
  codes of the calls, the transfers a completion makes, the order of events. Handlers of
  different workers share only atomic counters, so one handler is one step.
\<close>

section \<open>Requests, workers and batches\<close>

datatype io_operation = Op_read | Op_write

record io_worker =
  wk_index :: nat
  wk_core :: u32
  wk_thread :: spdk_thread
  wk_owns_thread :: bool
  wk_io_channel :: bool
  wk_buffer_pool :: buffer_pool
  wk_dma_pool_allocated_bytes :: u64
  wk_pending_io :: "nat list"
  wk_draining_pending_io :: bool

record io_request =
  rq_worker :: nat
  rq_batch :: nat
  rq_result_index :: nat
  rq_operation :: io_operation
  rq_buffer :: u64
  rq_logical_length :: u64
  rq_byte_offset :: u64
  rq_physical_length :: u64
  rq_trace :: io_trace_context
  rq_block_offset :: u64
  rq_block_count :: u64
  rq_immediate_submit_result :: int
  rq_buffer_index :: "nat option"
  rq_submitted_at :: u64
  rq_buffer_wait_started_at :: "u64 option"
  rq_retry_wait_started_at :: "u64 option"
  rq_worker_queue_wait_ns :: u64
  rq_buffer_pool_wait_ns :: u64
  rq_queue_retry_wait_ns :: u64
  rq_retry_count :: u32
  rq_started :: bool
  rq_completed :: bool

record io_batch =
  bt_remaining :: nat
  bt_results :: "io_result list"

text \<open>The messages SPDK threads exchange: one constructor per callback that is posted.\<close>

datatype spdk_message =
    Msg_open
  | Msg_begin_shutdown
  | Msg_initialize_worker nat
  | Msg_execute_batch "nat list"
  | Msg_shutdown_worker nat
  | Msg_finish_shutdown
  | Msg_retry nat

text \<open>A bdev command SPDK has accepted and not completed.\<close>

record bdev_io =
  bio_request :: nat
  bio_operation :: io_operation
  bio_buffer :: dma_ptr
  bio_block_offset :: u64
  bio_block_count :: u64

section \<open>SPDK and the state\<close>

record 'd spdk_env =
  se_host :: host
  se_now :: "'d \<Rightarrow> u64 \<times> 'd"
  se_send_msg :: "spdk_thread \<Rightarrow> 'd \<Rightarrow> int \<times> 'd"
  se_submit :: "bdev_io \<Rightarrow> 'd \<Rightarrow> int \<times> 'd"
  se_queue_wait :: "nat \<Rightarrow> 'd \<Rightarrow> int \<times> 'd"
  se_complete :: "bdev_io \<Rightarrow> bytes \<Rightarrow> 'd \<Rightarrow> bool \<times> bytes \<times> 'd"
  se_pick :: "nat \<Rightarrow> 'd \<Rightarrow> nat \<times> 'd"

record bdev_context =
  bc_config :: spdk_config
  bc_runtime :: "runtime option"
  bc_structured_events :: bool
  bc_initialization_complete :: bool
  bc_initialization_succeeded :: bool
  bc_closed :: bool
  bc_last_error :: string
  bc_shutdown_requested :: bool
  bc_shutdown_started :: bool
  bc_shutdown_complete :: bool
  bc_bdev_claimed :: bool
  bc_workers_initializing :: nat
  bc_workers_shutting_down :: nat
  bc_shutdown_return_code :: int
  bc_geometry :: storage_geometry
  bc_app_thread :: "spdk_thread option"
  bc_descriptor_open :: bool
  bc_io_workers :: "io_worker list"
  bc_next_io_worker :: u64
  bc_metrics :: io_metrics

record 'd spdk_state = bdev_context +
  st_requests :: "io_request list"
  st_batches :: "io_batch list"
  st_queue :: "spdk_thread \<Rightarrow> spdk_message list"
  st_waiting :: "nat list"
  st_in_flight :: "bdev_io list"
  st_memory :: "nat \<Rightarrow> u8"
  st_dma :: "dma_ptr \<Rightarrow> nat \<Rightarrow> u8"
  st_stderr :: "string list"
  st_world :: 'd

abbreviation req :: "'d spdk_state \<Rightarrow> nat \<Rightarrow> io_request" where
  "req s r \<equiv> st_requests s ! r"

abbreviation wkr :: "'d spdk_state \<Rightarrow> nat \<Rightarrow> io_worker" where
  "wkr s w \<equiv> bc_io_workers s ! w"

definition upd_request :: "nat \<Rightarrow> (io_request \<Rightarrow> io_request) \<Rightarrow> 'd spdk_state \<Rightarrow> 'd spdk_state" where
  "upd_request r f s = s\<lparr>st_requests := (st_requests s)[r := f (req s r)]\<rparr>"

definition upd_worker :: "nat \<Rightarrow> (io_worker \<Rightarrow> io_worker) \<Rightarrow> 'd spdk_state \<Rightarrow> 'd spdk_state" where
  "upd_worker w f s = s\<lparr>bc_io_workers := (bc_io_workers s)[w := f (wkr s w)]\<rparr>"

definition upd_metrics :: "(io_metrics \<Rightarrow> io_metrics) \<Rightarrow> 'd spdk_state \<Rightarrow> 'd spdk_state" where
  "upd_metrics f s = s\<lparr>bc_metrics := f (bc_metrics s)\<rparr>"

definition clock_now :: "'d spdk_env \<Rightarrow> 'd spdk_state \<Rightarrow> u64 \<times> 'd spdk_state" where
  "clock_now env s = (case se_now env (st_world s) of (t, d) \<Rightarrow> (t, s\<lparr>st_world := d\<rparr>))"

definition elapsed_nanoseconds ::
  "'d spdk_env \<Rightarrow> u64 \<Rightarrow> 'd spdk_state \<Rightarrow> u64 \<times> 'd spdk_state" where
  "elapsed_nanoseconds env started_at s =
     (case clock_now env s of (t, s1) \<Rightarrow> (t - started_at, s1))"

text \<open>\<open>spdk_thread_send_msg\<close>: the message is queued on the thread when the code is 0.\<close>

definition thread_send_msg ::
  "'d spdk_env \<Rightarrow> spdk_thread \<Rightarrow> spdk_message \<Rightarrow> 'd spdk_state \<Rightarrow> int \<times> 'd spdk_state" where
  "thread_send_msg env t msg s =
     (case se_send_msg env t (st_world s) of
        (result, d) \<Rightarrow>
          (result,
           if result = 0
           then s\<lparr>st_world := d, st_queue := (st_queue s)(t := st_queue s t @ [msg])\<rparr>
           else s\<lparr>st_world := d\<rparr>))"

section \<open>Validation\<close>

definition validate_item :: "storage_geometry \<Rightarrow> io_batch_item \<Rightarrow> unit result" where
  "validate_item g item =
     (if it_buffer item = 0 then Inl (Invalid_argument ''buffer must not be null'')
      else if it_logical_length item = 0
      then Inl (Invalid_argument ''logical segment length must be nonzero'')
      else if it_physical_length item < it_logical_length item \<or>
              it_physical_length item > io_segment_size g
      then Inl (Invalid_argument
        (''physical segment length must cover logical bytes and not exceed '' @
         ''io_segment_size''))
      else if it_byte_offset item mod page_size g \<noteq> 0 \<or>
              it_physical_length item mod page_size g \<noteq> 0
      then Inl (Invalid_argument
        ''segment offset and physical length must be storage-page aligned'')
      else if it_byte_offset item > usable_capacity_bytes g \<or>
              it_physical_length item > usable_capacity_bytes g - it_byte_offset item
      then Inl (Invalid_argument ''segment lies outside usable bdev capacity'')
      else Inr ())"

text \<open>What validation accepts, in unbounded numbers: no comparison of the code wraps.\<close>

lemma validate_item_iff:
  "validate_item g item = Inr () \<longleftrightarrow>
     it_buffer item \<noteq> 0 \<and> 0 < unat (it_logical_length item) \<and>
     unat (it_logical_length item) \<le> unat (it_physical_length item) \<and>
     unat (it_physical_length item) \<le> unat (io_segment_size g) \<and>
     unat (page_size g) dvd unat (it_byte_offset item) \<and>
     unat (page_size g) dvd unat (it_physical_length item) \<and>
     unat (it_byte_offset item) + unat (it_physical_length item) \<le> unat (usable_capacity_bytes g)"
proof -
  have "it_byte_offset item mod page_size g = 0 \<longleftrightarrow> unat (page_size g) dvd unat (it_byte_offset item)"
    "it_physical_length item mod page_size g = 0 \<longleftrightarrow> unat (page_size g) dvd unat (it_physical_length item)"
    by (simp_all add: unat_arith_simps dvd_eq_mod_eq_0)
  moreover have "(it_byte_offset item \<le> usable_capacity_bytes g \<and>
      it_physical_length item \<le> usable_capacity_bytes g - it_byte_offset item) \<longleftrightarrow>
      unat (it_byte_offset item) + unat (it_physical_length item) \<le> unat (usable_capacity_bytes g)"
    by (cases "it_byte_offset item \<le> usable_capacity_bytes g")
      (auto simp: word_le_nat_alt unat_sub)
  moreover have "it_logical_length item \<noteq> 0 \<longleftrightarrow> 0 < unat (it_logical_length item)"
    by (simp add: unat_gt_0)
  ultimately show ?thesis
    unfolding validate_item_def by (auto simp: word_le_nat_alt word_less_nat_alt not_less not_le)
qed

section \<open>Completion, buffers and diagnostics\<close>

definition complete_request ::
  "nat \<Rightarrow> bool \<Rightarrow> string \<Rightarrow> 'd spdk_state \<Rightarrow> 'd spdk_state" where
  "complete_request r success error s =
     (if rq_completed (req s r) then s
      else
        let s1 = upd_request r (rq_completed_update (\<lambda>_. True)) s;
            s2 = upd_metrics (\<lambda>m. m\<lparr>m_completed := m_completed m + 1\<rparr>) s1;
            s3 = (if success
                  then upd_metrics (\<lambda>m. m\<lparr>m_succeeded := m_succeeded m + 1\<rparr>) s2
                  else upd_metrics (\<lambda>m. m\<lparr>m_failed := m_failed m + 1\<rparr>) s2);
            b = rq_batch (req s r);
            batch = st_batches s ! b
        in s3\<lparr>st_batches := (st_batches s)[b :=
             \<lparr>bt_remaining = bt_remaining batch - 1,
              bt_results = (bt_results batch)[rq_result_index (req s r) :=
                \<lparr>res_success = success, res_error = error\<rparr>]\<rparr>]\<rparr>)"

definition release_buffer :: "nat \<Rightarrow> 'd spdk_state \<Rightarrow> 'd spdk_state" where
  "release_buffer r s =
     (case rq_buffer_index (req s r) of
        None \<Rightarrow> s
      | Some i \<Rightarrow>
          let w = rq_worker (req s r);
              s1 = (case pool_release i (wk_buffer_pool (wkr s w)) of
                      (Inl _, p) \<Rightarrow> s
                    | (Inr _, p) \<Rightarrow>
                        upd_metrics (\<lambda>m. m\<lparr>m_dma_buffer_pool_in_use_bytes :=
                            m_dma_buffer_pool_in_use_bytes m - io_segment_size (bc_geometry s)\<rparr>)
                          (upd_worker w (wk_buffer_pool_update (\<lambda>_. p)) s))
          in upd_request r (rq_buffer_index_update (\<lambda>_. None)) s1)"

text \<open>The JSON record of \<open>emit_io_event\<close>; double quotes are built from their code.\<close>

definition json_field :: "string \<Rightarrow> string \<Rightarrow> string" where
  "json_field name value = [CHR 0x22] @ name @ [CHR 0x22, CHR '':''] @ value"

definition json_text :: "string \<Rightarrow> string" where
  "json_text value = [CHR 0x22] @ value @ [CHR 0x22]"

definition json_u64 :: "'w::len word \<Rightarrow> string" where
  "json_u64 v = nat_to_string (unat v)"

definition io_event_json ::
  "io_request \<Rightarrow> io_worker \<Rightarrow> string \<Rightarrow> bool option \<Rightarrow> string" where
  "io_event_json q wk phase callback_success =
     ''{'' @ json_field ''schema'' (json_text ''lmcache.spdk.io.v3'')
     @ '','' @ json_field ''phase'' (json_text phase)
     @ '','' @ json_field ''operation''
         (json_text (if rq_operation q = Op_read then ''get'' else ''set''))
     @ '','' @ json_field ''future_id'' (json_u64 (tr_future_id (rq_trace q)))
     @ '','' @ json_field ''item_index'' (json_u64 (tr_item_index (rq_trace q)))
     @ '','' @ json_field ''segment_index'' (json_u64 (tr_segment_index (rq_trace q)))
     @ '','' @ json_field ''segment_count'' (json_u64 (tr_segment_count (rq_trace q)))
     @ '','' @ json_field ''first_page'' (json_u64 (tr_first_page (rq_trace q)))
     @ '','' @ json_field ''page_count'' (json_u64 (tr_page_count (rq_trace q)))
     @ '','' @ json_field ''logical_offset'' (json_u64 (tr_logical_offset (rq_trace q)))
     @ '','' @ json_field ''logical_bytes'' (json_u64 (rq_logical_length q))
     @ '','' @ json_field ''physical_bytes'' (json_u64 (rq_physical_length q))
     @ '','' @ json_field ''io_thread_index'' (nat_to_string (wk_index wk))
     @ '','' @ json_field ''spdk_core'' (json_u64 (wk_core wk))
     @ '','' @ json_field ''buffer_index''
         (case rq_buffer_index q of None \<Rightarrow> ''null'' | Some i \<Rightarrow> nat_to_string i)
     @ '','' @ json_field ''block_offset'' (json_u64 (rq_block_offset q))
     @ '','' @ json_field ''block_count'' (json_u64 (rq_block_count q))
     @ '','' @ json_field ''immediate_submit_result''
         (int_to_string (rq_immediate_submit_result q))
     @ '','' @ json_field ''worker_queue_wait_ns'' (json_u64 (rq_worker_queue_wait_ns q))
     @ '','' @ json_field ''buffer_pool_wait_ns'' (json_u64 (rq_buffer_pool_wait_ns q))
     @ '','' @ json_field ''queue_retry_wait_ns'' (json_u64 (rq_queue_retry_wait_ns q))
     @ '','' @ json_field ''queue_retry_count'' (json_u64 (rq_retry_count q))
     @ '','' @ json_field ''buffer_pool_available''
         (nat_to_string (pool_available (wk_buffer_pool wk)))
     @ '','' @ json_field ''callback_success''
         (case callback_success of None \<Rightarrow> ''null'' | Some b \<Rightarrow> if b then ''true'' else ''false'')
     @ ''}''"

definition emit_io_event ::
  "nat \<Rightarrow> string \<Rightarrow> bool option \<Rightarrow> 'd spdk_state \<Rightarrow> 'd spdk_state" where
  "emit_io_event r phase callback_success s =
     (if \<not> bc_structured_events s then s
      else s\<lparr>st_stderr := st_stderr s @
        [''LMCACHE_SPDK_EVENT '' @
         io_event_json (req s r) (wkr s (rq_worker (req s r))) phase callback_success]\<rparr>)"

section \<open>Views of the state\<close>

text \<open>
  The invariants of the I/O path speak about a few columns of the tables. Each helper above
  and each stage of the handlers changes one or two of them; the collection \<open>io_views\<close> says
  which.
\<close>

named_theorems io_views

type_synonym request_key =
  "nat \<times> nat \<times> nat \<times> io_operation \<times> u64 \<times> u64 \<times> u64 \<times> u64 \<times> io_trace_context"

definition request_key :: "io_request \<Rightarrow> request_key" where
  "request_key q = (rq_worker q, rq_batch q, rq_result_index q, rq_operation q, rq_buffer q,
     rq_logical_length q, rq_byte_offset q, rq_physical_length q, rq_trace q)"

definition worker_key :: "io_worker \<Rightarrow> nat \<times> u32 \<times> spdk_thread \<times> bool \<times> bool \<times> u64" where
  "worker_key wk = (wk_index wk, wk_core wk, wk_thread wk, wk_owns_thread wk, wk_io_channel wk,
     wk_dma_pool_allocated_bytes wk)"

definition request_keys :: "'d spdk_state \<Rightarrow> request_key list" where
  "request_keys s = map request_key (st_requests s)"

definition lease_col :: "'d spdk_state \<Rightarrow> nat option list" where
  "lease_col s = map rq_buffer_index (st_requests s)"

definition done_col :: "'d spdk_state \<Rightarrow> bool list" where
  "done_col s = map rq_completed (st_requests s)"

definition worker_keys :: "'d spdk_state \<Rightarrow> (nat \<times> u32 \<times> spdk_thread \<times> bool \<times> bool \<times> u64) list" where
  "worker_keys s = map worker_key (bc_io_workers s)"

definition pool_col :: "'d spdk_state \<Rightarrow> buffer_pool list" where
  "pool_col s = map wk_buffer_pool (bc_io_workers s)"

definition pending_col :: "'d spdk_state \<Rightarrow> nat list list" where
  "pending_col s = map wk_pending_io (bc_io_workers s)"

definition draining_col :: "'d spdk_state \<Rightarrow> bool list" where
  "draining_col s = map wk_draining_pending_io (bc_io_workers s)"

text \<open>What the I/O path never changes.\<close>

definition context_key ::
  "'d spdk_state \<Rightarrow> storage_geometry \<times> bool \<times> bool \<times> bool \<times> bool \<times> bool \<times> string \<times> runtime option \<times>
     spdk_thread option \<times> bool \<times> u64 \<times> bool \<times> bool \<times> nat \<times> nat \<times> spdk_config" where
  "context_key s = (bc_geometry s, bc_structured_events s, bc_closed s, bc_shutdown_requested s,
     bc_initialization_succeeded s, bc_descriptor_open s, bc_last_error s, bc_runtime s,
     bc_app_thread s, bc_shutdown_complete s, bc_next_io_worker s, bc_initialization_complete s,
     bc_shutdown_started s, bc_workers_initializing s, bc_workers_shutting_down s, bc_config s)"

lemma map_update_same [simp]: "(map f xs)[i := f (xs ! i)] = map f xs"
  by (cases "i < length xs") (simp_all add: list_update_beyond list_update_same_conv)

lemmas view_defs = request_keys_def lease_col_def done_col_def worker_keys_def pool_col_def pending_col_def draining_col_def
  context_key_def request_key_def worker_key_def upd_request_def upd_worker_def upd_metrics_def

lemmas column_defs = request_keys_def lease_col_def done_col_def worker_keys_def pool_col_def
  pending_col_def draining_col_def

lemma view_lengths [simp]:
  "length (request_keys s) = length (st_requests s)" "length (lease_col s) = length (st_requests s)"
  "length (done_col s) = length (st_requests s)"
  "length (worker_keys s) = length (bc_io_workers s)" "length (pool_col s) = length (bc_io_workers s)"
  "length (pending_col s) = length (bc_io_workers s)" "length (draining_col s) = length (bc_io_workers s)"
  by (simp_all add: request_keys_def lease_col_def done_col_def worker_keys_def pool_col_def pending_col_def draining_col_def)

lemma upd_metrics_views [io_views]:
  "request_keys (upd_metrics f s) = request_keys s" "lease_col (upd_metrics f s) = lease_col s"
  "done_col (upd_metrics f s) = done_col s" "worker_keys (upd_metrics f s) = worker_keys s"
  "pool_col (upd_metrics f s) = pool_col s" "pending_col (upd_metrics f s) = pending_col s"
  "draining_col (upd_metrics f s) = draining_col s" "context_key (upd_metrics f s) = context_key s"
  "st_batches (upd_metrics f s) = st_batches s" "st_queue (upd_metrics f s) = st_queue s"
  "st_waiting (upd_metrics f s) = st_waiting s" "st_in_flight (upd_metrics f s) = st_in_flight s"
  "st_memory (upd_metrics f s) = st_memory s" "st_dma (upd_metrics f s) = st_dma s"
  "st_world (upd_metrics f s) = st_world s" "st_requests (upd_metrics f s) = st_requests s"
  "bc_io_workers (upd_metrics f s) = bc_io_workers s"
  "bc_metrics (upd_metrics f s) = f (bc_metrics s)"
  by (simp_all add: view_defs)

lemma upd_request_views [io_views]:
  "worker_keys (upd_request r f s) = worker_keys s"
  "pool_col (upd_request r f s) = pool_col s" "pending_col (upd_request r f s) = pending_col s"
  "draining_col (upd_request r f s) = draining_col s" "context_key (upd_request r f s) = context_key s"
  "st_batches (upd_request r f s) = st_batches s" "st_queue (upd_request r f s) = st_queue s"
  "st_waiting (upd_request r f s) = st_waiting s" "st_in_flight (upd_request r f s) = st_in_flight s"
  "st_memory (upd_request r f s) = st_memory s" "st_dma (upd_request r f s) = st_dma s"
  "st_world (upd_request r f s) = st_world s" "bc_metrics (upd_request r f s) = bc_metrics s"
  "bc_io_workers (upd_request r f s) = bc_io_workers s"
  "length (st_requests (upd_request r f s)) = length (st_requests s)"
  "lease_col (upd_request r (rq_buffer_index_update (\<lambda>_. x)) s) = (lease_col s)[r := x]"
  "done_col (upd_request r (rq_completed_update (\<lambda>_. b)) s) = (done_col s)[r := b]"
  by (simp_all add: view_defs map_update)

lemma upd_request_keep [io_views]:
  "(\<And>q. request_key (f q) = request_key q) \<Longrightarrow> request_keys (upd_request r f s) = request_keys s"
  "(\<And>q. rq_buffer_index (f q) = rq_buffer_index q) \<Longrightarrow> lease_col (upd_request r f s) = lease_col s"
  "(\<And>q. rq_completed (f q) = rq_completed q) \<Longrightarrow> done_col (upd_request r f s) = done_col s"
  by (simp_all add: column_defs upd_request_def map_update)

lemma upd_worker_views [io_views]:
  "request_keys (upd_worker w f s) = request_keys s" "lease_col (upd_worker w f s) = lease_col s"
  "done_col (upd_worker w f s) = done_col s" "context_key (upd_worker w f s) = context_key s"
  "st_batches (upd_worker w f s) = st_batches s" "st_queue (upd_worker w f s) = st_queue s"
  "st_waiting (upd_worker w f s) = st_waiting s" "st_in_flight (upd_worker w f s) = st_in_flight s"
  "st_memory (upd_worker w f s) = st_memory s" "st_dma (upd_worker w f s) = st_dma s"
  "st_world (upd_worker w f s) = st_world s" "bc_metrics (upd_worker w f s) = bc_metrics s"
  "st_requests (upd_worker w f s) = st_requests s"
  "length (bc_io_workers (upd_worker w f s)) = length (bc_io_workers s)"
  "pool_col (upd_worker w (wk_buffer_pool_update (\<lambda>_. p)) s) = (pool_col s)[w := p]"
  "pending_col (upd_worker w (\<lambda>wk. wk\<lparr>wk_pending_io := wk_pending_io wk @ [r]\<rparr>) s) =
     (pending_col s)[w := wk_pending_io (wkr s w) @ [r]]"
  "pending_col (upd_worker w (\<lambda>wk. wk\<lparr>wk_pending_io := tl (wk_pending_io wk)\<rparr>) s) =
     (pending_col s)[w := tl (wk_pending_io (wkr s w))]"
  "draining_col (upd_worker w (wk_draining_pending_io_update (\<lambda>_. b)) s) = (draining_col s)[w := b]"
  by (simp_all add: view_defs map_update)

lemma upd_worker_keep [io_views]:
  "(\<And>wk. worker_key (f wk) = worker_key wk) \<Longrightarrow> worker_keys (upd_worker w f s) = worker_keys s"
  "(\<And>wk. wk_buffer_pool (f wk) = wk_buffer_pool wk) \<Longrightarrow> pool_col (upd_worker w f s) = pool_col s"
  "(\<And>wk. wk_pending_io (f wk) = wk_pending_io wk) \<Longrightarrow> pending_col (upd_worker w f s) = pending_col s"
  "(\<And>wk. wk_draining_pending_io (f wk) = wk_draining_pending_io wk) \<Longrightarrow>
     draining_col (upd_worker w f s) = draining_col s"
  by (simp_all add: column_defs upd_worker_def map_update)

lemma column_same [simp]:
  "(request_keys s)[r := request_key (req s r)] = request_keys s"
  "(lease_col s)[r := rq_buffer_index (req s r)] = lease_col s"
  "(done_col s)[r := rq_completed (req s r)] = done_col s"
  "(worker_keys s)[w := worker_key (wkr s w)] = worker_keys s"
  "(pool_col s)[w := wk_buffer_pool (wkr s w)] = pool_col s"
  "(pending_col s)[w := wk_pending_io (wkr s w)] = pending_col s"
  "(draining_col s)[w := wk_draining_pending_io (wkr s w)] = draining_col s"
  by (simp_all add: column_defs)

lemma column_known:
  "rq_buffer_index (req s r) = c \<Longrightarrow> (lease_col s)[r := c] = lease_col s"
  "rq_completed (req s r) = b \<Longrightarrow> (done_col s)[r := b] = done_col s"
  by (erule subst, rule column_same)+

lemma column_nth:
  "r < length (st_requests s) \<Longrightarrow> request_keys s ! r = request_key (req s r)"
  "r < length (st_requests s) \<Longrightarrow> lease_col s ! r = rq_buffer_index (req s r)"
  "r < length (st_requests s) \<Longrightarrow> done_col s ! r = rq_completed (req s r)"
  "w < length (bc_io_workers s) \<Longrightarrow> worker_keys s ! w = worker_key (wkr s w)"
  "w < length (bc_io_workers s) \<Longrightarrow> pool_col s ! w = wk_buffer_pool (wkr s w)"
  "w < length (bc_io_workers s) \<Longrightarrow> pending_col s ! w = wk_pending_io (wkr s w)"
  "w < length (bc_io_workers s) \<Longrightarrow> draining_col s ! w = wk_draining_pending_io (wkr s w)"
  by (simp_all add: column_defs)

lemma request_key_frame [simp]:
  "request_key (rq_block_offset_update a q) = request_key q"
  "request_key (rq_block_count_update a q) = request_key q"
  "request_key (rq_immediate_submit_result_update b q) = request_key q"
  "request_key (rq_buffer_index_update c q) = request_key q"
  "request_key (rq_submitted_at_update a q) = request_key q"
  "request_key (rq_buffer_wait_started_at_update d q) = request_key q"
  "request_key (rq_retry_wait_started_at_update d q) = request_key q"
  "request_key (rq_worker_queue_wait_ns_update a q) = request_key q"
  "request_key (rq_buffer_pool_wait_ns_update a q) = request_key q"
  "request_key (rq_queue_retry_wait_ns_update a q) = request_key q"
  "request_key (rq_retry_count_update e q) = request_key q"
  "request_key (rq_started_update f q) = request_key q"
  "request_key (rq_completed_update f q) = request_key q"
  by (simp_all add: request_key_def)

lemma worker_key_frame [simp]:
  "worker_key (wk_buffer_pool_update a wk) = worker_key wk"
  "worker_key (wk_pending_io_update b wk) = worker_key wk"
  "worker_key (wk_draining_pending_io_update c wk) = worker_key wk"
  by (simp_all add: worker_key_def)

lemma clock_now_frame [io_views]:
  "snd (clock_now env s) = s\<lparr>st_world := snd (se_now env (st_world s))\<rparr>"
  by (simp add: clock_now_def case_prod_unfold)

lemma elapsed_frame [io_views]:
  "snd (elapsed_nanoseconds env t s) = s\<lparr>st_world := snd (se_now env (st_world s))\<rparr>"
  by (simp add: elapsed_nanoseconds_def case_prod_unfold clock_now_frame)

lemma world_views [io_views]:
  "request_keys (st_world_update f s) = request_keys s" "lease_col (st_world_update f s) = lease_col s"
  "done_col (st_world_update f s) = done_col s" "worker_keys (st_world_update f s) = worker_keys s"
  "pool_col (st_world_update f s) = pool_col s" "pending_col (st_world_update f s) = pending_col s"
  "draining_col (st_world_update f s) = draining_col s" "context_key (st_world_update f s) = context_key s"
  by (simp_all add: column_defs context_key_def)

lemma queue_views [io_views]:
  "request_keys (st_queue_update f s) = request_keys s" "lease_col (st_queue_update f s) = lease_col s"
  "done_col (st_queue_update f s) = done_col s" "worker_keys (st_queue_update f s) = worker_keys s"
  "pool_col (st_queue_update f s) = pool_col s" "pending_col (st_queue_update f s) = pending_col s"
  "draining_col (st_queue_update f s) = draining_col s" "context_key (st_queue_update f s) = context_key s"
  by (simp_all add: column_defs context_key_def)

lemma waiting_views [io_views]:
  "request_keys (st_waiting_update f s) = request_keys s" "lease_col (st_waiting_update f s) = lease_col s"
  "done_col (st_waiting_update f s) = done_col s" "worker_keys (st_waiting_update f s) = worker_keys s"
  "pool_col (st_waiting_update f s) = pool_col s" "pending_col (st_waiting_update f s) = pending_col s"
  "draining_col (st_waiting_update f s) = draining_col s" "context_key (st_waiting_update f s) = context_key s"
  by (simp_all add: column_defs context_key_def)

lemma in_flight_views [io_views]:
  "request_keys (st_in_flight_update f s) = request_keys s" "lease_col (st_in_flight_update f s) = lease_col s"
  "done_col (st_in_flight_update f s) = done_col s" "worker_keys (st_in_flight_update f s) = worker_keys s"
  "pool_col (st_in_flight_update f s) = pool_col s" "pending_col (st_in_flight_update f s) = pending_col s"
  "draining_col (st_in_flight_update f s) = draining_col s" "context_key (st_in_flight_update f s) = context_key s"
  by (simp_all add: column_defs context_key_def)

lemma dma_views [io_views]:
  "request_keys (st_dma_update f s) = request_keys s" "lease_col (st_dma_update f s) = lease_col s"
  "done_col (st_dma_update f s) = done_col s" "worker_keys (st_dma_update f s) = worker_keys s"
  "pool_col (st_dma_update f s) = pool_col s" "pending_col (st_dma_update f s) = pending_col s"
  "draining_col (st_dma_update f s) = draining_col s" "context_key (st_dma_update f s) = context_key s"
  by (simp_all add: column_defs context_key_def)

lemma memory_views [io_views]:
  "request_keys (st_memory_update f s) = request_keys s" "lease_col (st_memory_update f s) = lease_col s"
  "done_col (st_memory_update f s) = done_col s" "worker_keys (st_memory_update f s) = worker_keys s"
  "pool_col (st_memory_update f s) = pool_col s" "pending_col (st_memory_update f s) = pending_col s"
  "draining_col (st_memory_update f s) = draining_col s" "context_key (st_memory_update f s) = context_key s"
  by (simp_all add: column_defs context_key_def)

lemma batches_views [io_views]:
  "request_keys (st_batches_update f s) = request_keys s" "lease_col (st_batches_update f s) = lease_col s"
  "done_col (st_batches_update f s) = done_col s" "worker_keys (st_batches_update f s) = worker_keys s"
  "pool_col (st_batches_update f s) = pool_col s" "pending_col (st_batches_update f s) = pending_col s"
  "draining_col (st_batches_update f s) = draining_col s" "context_key (st_batches_update f s) = context_key s"
  by (simp_all add: column_defs context_key_def)

lemma stderr_views [io_views]:
  "request_keys (st_stderr_update f s) = request_keys s" "lease_col (st_stderr_update f s) = lease_col s"
  "done_col (st_stderr_update f s) = done_col s" "worker_keys (st_stderr_update f s) = worker_keys s"
  "pool_col (st_stderr_update f s) = pool_col s" "pending_col (st_stderr_update f s) = pending_col s"
  "draining_col (st_stderr_update f s) = draining_col s" "context_key (st_stderr_update f s) = context_key s"
  by (simp_all add: column_defs context_key_def)

end
