(* ===== verification/Bdev_Io.thy ===== *)
theory Bdev_Io
  imports Bdev_Context
begin

text \<open>
  The I/O path on an SPDK thread (\<open>spdk_bdev_context.cpp\<close>): executing a request, parking it
  when the worker's pool is empty, retrying it when SPDK's queue is full, completing it, and
  draining the worker's FIFO. The handlers run as SPDK events; an event is one message of a
  worker's thread, one wake-up of a waiting request, or one completion.
\<close>

section \<open>Executing a request\<close>

text \<open>Lines 782 to 794: the queueing time, and the time spent waiting for SPDK's queue.\<close>

definition note_start :: "'d spdk_env \<Rightarrow> nat \<Rightarrow> 'd spdk_state \<Rightarrow> 'd spdk_state" where
  "note_start env r s =
     (let s1 =
        (if rq_started (req s r) then s
         else case elapsed_nanoseconds env (rq_submitted_at (req s r)) s of
                (waited, s') \<Rightarrow>
                  upd_metrics (\<lambda>m. m\<lparr>m_worker_queue_wait_ns := m_worker_queue_wait_ns m + waited\<rparr>)
                    (upd_request r (\<lambda>q. q\<lparr>rq_started := True, rq_worker_queue_wait_ns := waited\<rparr>) s'))
      in case rq_retry_wait_started_at (req s1 r) of
           None \<Rightarrow> s1
         | Some t \<Rightarrow>
             (case elapsed_nanoseconds env t s1 of
                (waited, s') \<Rightarrow>
                  upd_metrics (\<lambda>m. m\<lparr>m_queue_retry_wait_ns := m_queue_retry_wait_ns m + waited\<rparr>)
                    (upd_request r (\<lambda>q. q\<lparr>rq_queue_retry_wait_ns := rq_queue_retry_wait_ns q + waited,
                                          rq_retry_wait_started_at := None\<rparr>) s')))"

text \<open>Lines 798 to 807: no buffer is free.\<close>

definition park_request :: "'d spdk_env \<Rightarrow> nat \<Rightarrow> 'd spdk_state \<Rightarrow> 'd spdk_state" where
  "park_request env r s =
     (let s1 =
        (case rq_buffer_wait_started_at (req s r) of
           Some _ \<Rightarrow> s
         | None \<Rightarrow>
             (case clock_now env s of
                (t, s') \<Rightarrow>
                  upd_metrics (\<lambda>m. m\<lparr>m_buffer_pool_starvations := m_buffer_pool_starvations m + 1\<rparr>)
                    (upd_request r (rq_buffer_wait_started_at_update (\<lambda>_. Some t)) s')))
      in upd_worker (rq_worker (req s1 r)) (\<lambda>wk. wk\<lparr>wk_pending_io := wk_pending_io wk @ [r]\<rparr>) s1)"

text \<open>Lines 808 to 824: buffer \<open>i\<close> is leased to the request.\<close>

definition note_lease :: "'d spdk_env \<Rightarrow> nat \<Rightarrow> nat \<Rightarrow> 'd spdk_state \<Rightarrow> 'd spdk_state" where
  "note_lease env r i s =
     (let s1 = upd_request r (rq_buffer_index_update (\<lambda>_. Some i)) s;
          in_use = m_dma_buffer_pool_in_use_bytes (bc_metrics s1)
                     + io_segment_size (bc_geometry s1);
          s2 = upd_metrics (\<lambda>m. m\<lparr>m_dma_buffer_pool_in_use_bytes := in_use,
                 m_dma_buffer_pool_peak_in_use_bytes :=
                   max (m_dma_buffer_pool_peak_in_use_bytes m) in_use\<rparr>) s1
      in case rq_buffer_wait_started_at (req s2 r) of
           None \<Rightarrow> s2
         | Some t \<Rightarrow>
             (case elapsed_nanoseconds env t s2 of
                (waited, s') \<Rightarrow>
                  upd_metrics (\<lambda>m. m\<lparr>m_buffer_pool_wait_ns := m_buffer_pool_wait_ns m + waited\<rparr>)
                    (upd_request r (\<lambda>q. q\<lparr>rq_buffer_pool_wait_ns := rq_buffer_pool_wait_ns q + waited,
                                          rq_buffer_wait_started_at := None\<rparr>) s')))"

text \<open>Lines 826 to 830: a write is staged, zeros first.\<close>

definition stage_write :: "nat \<Rightarrow> dma_ptr \<Rightarrow> 'd spdk_state \<Rightarrow> 'd spdk_state" where
  "stage_write r buf s =
     (let q = req s r
      in if rq_operation q = Op_write
         then s\<lparr>st_dma := (st_dma s)(buf :=
           mem_write (mem_write (st_dma s buf) 0 (replicate (unat (rq_physical_length q)) 0)) 0
             (mem_read (st_memory s) (unat (rq_buffer q)) (unat (rq_logical_length q))))\<rparr>
         else s)"

text \<open>Lines 834 to 846: the command is handed to SPDK, which accepts it when the code is 0.\<close>

definition bdev_io_of :: "storage_geometry \<Rightarrow> nat \<Rightarrow> io_request \<Rightarrow> dma_ptr \<Rightarrow> bdev_io" where
  "bdev_io_of g r q buf =
     \<lparr>bio_request = r, bio_operation = rq_operation q, bio_buffer = buf,
      bio_block_offset = rq_byte_offset q div ucast (block_size g),
      bio_block_count = rq_physical_length q div ucast (block_size g)\<rparr>"

definition submit_blocks ::
  "'d spdk_env \<Rightarrow> nat \<Rightarrow> dma_ptr \<Rightarrow> 'd spdk_state \<Rightarrow> int \<times> 'd spdk_state" where
  "submit_blocks env r buf s =
     (let io = bdev_io_of (bc_geometry s) r (req s r) buf
      in case se_submit env io (st_world s) of
           (rc, d) \<Rightarrow>
             (rc, upd_request r (\<lambda>q. q\<lparr>rq_block_offset := bio_block_offset io,
                                       rq_block_count := bio_block_count io,
                                       rq_immediate_submit_result := rc\<rparr>)
                    (s\<lparr>st_world := d,
                       st_in_flight := st_in_flight s @ (if rc = 0 then [io] else [])\<rparr>)))"

text \<open>
  Lines 849 to 875: SPDK's queue is full (\<open>-ENOMEM\<close>). The result says whether the handler
  goes on to drain the FIFO.
\<close>

definition wait_for_queue :: "'d spdk_env \<Rightarrow> nat \<Rightarrow> 'd spdk_state \<Rightarrow> 'd spdk_state \<times> bool" where
  "wait_for_queue env r s =
     (let s1 = upd_metrics (\<lambda>m. m\<lparr>m_queue_retries := m_queue_retries m + 1\<rparr>)
                 (upd_request r (\<lambda>q. q\<lparr>rq_retry_count := rq_retry_count q + 1\<rparr>)
                    (release_buffer r s))
      in case clock_now env s1 of
           (t, s2) \<Rightarrow>
             let s3 = upd_request r (rq_retry_wait_started_at_update (\<lambda>_. Some t)) s2
             in case se_queue_wait env r (st_world s3) of
                  (wait_result, d) \<Rightarrow>
                    let s4 = s3\<lparr>st_world := d\<rparr>;
                        failed = (\<lambda>s. (complete_request r False
                          (spdk_error (se_host env) ''queueing SPDK bdev I/O wait'' wait_result) s,
                          True))
                    in if wait_result = 0 then (s4\<lparr>st_waiting := st_waiting s4 @ [r]\<rparr>, False)
                       else if wait_result = -22
                       then (case thread_send_msg env (wk_thread (wkr s4 (rq_worker (req s4 r))))
                                    (Msg_retry r) s4 of
                               (sent, s5) \<Rightarrow> if sent = 0 then (s5, False) else failed s5)
                       else failed s4)"

text \<open>Lines 884 to 895: the counters of an accepted command.\<close>

definition count_submitted :: "nat \<Rightarrow> 'd spdk_state \<Rightarrow> 'd spdk_state" where
  "count_submitted r s =
     (let q = req s r
      in upd_metrics (\<lambda>m. m\<lparr>
           m_submitted_logical_bytes := m_submitted_logical_bytes m + rq_logical_length q,
           m_submitted_physical_bytes := m_submitted_physical_bytes m + rq_physical_length q,
           m_submitted_unused_dma_buffer_bytes := m_submitted_unused_dma_buffer_bytes m
             + (io_segment_size (bc_geometry s) - rq_physical_length q),
           m_submitted_write_padding_bytes := m_submitted_write_padding_bytes m
             + (if rq_operation q = Op_write
                then rq_physical_length q - rq_logical_length q else 0)\<rparr>) s)"

text \<open>The exception handler of \<open>execute_io_on_worker\<close>.\<close>

definition fail_execute :: "nat \<Rightarrow> string \<Rightarrow> 'd spdk_state \<Rightarrow> 'd spdk_state \<times> bool" where
  "fail_execute r message s = (complete_request r False message (release_buffer r s), True)"

definition submit_staged ::
  "'d spdk_env \<Rightarrow> nat \<Rightarrow> dma_ptr \<Rightarrow> 'd spdk_state \<Rightarrow> 'd spdk_state \<times> bool" where
  "submit_staged env r buf s =
     (case submit_blocks env r buf (stage_write r buf s) of
        (rc, s0) \<Rightarrow>
          let s1 = emit_io_event r ''submit'' None s0
          in if rc = -12 then wait_for_queue env r s1
             else if rc \<noteq> 0
             then (complete_request r False
                     (spdk_error (se_host env) ''submitting SPDK bdev I/O'' rc) (release_buffer r s1),
                   True)
             else (count_submitted r s1, False))"

text \<open>
  \<open>execute_io_on_worker\<close> on the current thread \<open>cur\<close>, up to its calls of
  \<open>drain_pending_io\<close>: the result says whether it makes one.
\<close>

definition execute_body ::
  "'d spdk_env \<Rightarrow> spdk_thread \<Rightarrow> nat \<Rightarrow> 'd spdk_state \<Rightarrow> 'd spdk_state \<times> bool" where
  "execute_body env cur r s =
     (let w = rq_worker (req s r)
      in if cur \<noteq> wk_thread (wkr s w)
         then fail_execute r ''SPDK I/O executed on the wrong worker thread'' s
         else
           let s1 = note_start env r s
           in case pool_try_acquire (wk_buffer_pool (wkr s1 w)) of
                (acquired, p) \<Rightarrow>
                  let s2 = upd_worker w (wk_buffer_pool_update (\<lambda>_. p)) s1
                  in case acquired of
                       Inl e \<Rightarrow> fail_execute r (what e) s2
                     | Inr None \<Rightarrow> (park_request env r s2, False)
                     | Inr (Some i) \<Rightarrow>
                         let s3 = note_lease env r i s2
                         in case pool_data (wk_buffer_pool (wkr s3 w)) i of
                              Inl e \<Rightarrow> fail_execute r (what e) s3
                            | Inr buf \<Rightarrow> submit_staged env r buf s3)"

section \<open>What each stage changes\<close>

definition io_counts :: "io_metrics \<Rightarrow> u64 \<times> u64 \<times> u64 \<times> u64 \<times> u64" where
  "io_counts m = (m_submitted m, m_completed m, m_succeeded m, m_failed m,
     m_dma_buffer_pool_in_use_bytes m)"

lemma io_counts_frame [simp]:
  "io_counts (m_worker_queue_wait_ns_update f m) = io_counts m"
  "io_counts (m_queue_retry_wait_ns_update f m) = io_counts m"
  "io_counts (m_queue_retries_update f m) = io_counts m"
  "io_counts (m_buffer_pool_starvations_update f m) = io_counts m"
  "io_counts (m_buffer_pool_wait_ns_update f m) = io_counts m"
  "io_counts (m_submitted_logical_bytes_update f m) = io_counts m"
  "io_counts (m_submitted_physical_bytes_update f m) = io_counts m"
  "io_counts (m_submitted_unused_dma_buffer_bytes_update f m) = io_counts m"
  "io_counts (m_submitted_write_padding_bytes_update f m) = io_counts m"
  "io_counts (m_dma_buffer_pool_peak_in_use_bytes_update f m) = io_counts m"
  by (simp_all add: io_counts_def)

lemma note_start_frame [io_views]:
  "request_keys (note_start env r s) = request_keys s"
  "lease_col (note_start env r s) = lease_col s" "done_col (note_start env r s) = done_col s"
  "worker_keys (note_start env r s) = worker_keys s"
  "pool_col (note_start env r s) = pool_col s"
  "pending_col (note_start env r s) = pending_col s"
  "draining_col (note_start env r s) = draining_col s"
  "context_key (note_start env r s) = context_key s"
  "st_batches (note_start env r s) = st_batches s" "st_queue (note_start env r s) = st_queue s"
  "st_waiting (note_start env r s) = st_waiting s"
  "st_in_flight (note_start env r s) = st_in_flight s"
  "st_memory (note_start env r s) = st_memory s" "st_dma (note_start env r s) = st_dma s"
  "io_counts (bc_metrics (note_start env r s)) = io_counts (bc_metrics s)"
  by (simp_all add: note_start_def Let_def io_views case_prod_unfold split: option.split)

lemma park_request_frame [io_views]:
  "request_keys (park_request env r s) = request_keys s"
  "lease_col (park_request env r s) = lease_col s"
  "done_col (park_request env r s) = done_col s"
  "worker_keys (park_request env r s) = worker_keys s"
  "pool_col (park_request env r s) = pool_col s"
  "draining_col (park_request env r s) = draining_col s"
  "context_key (park_request env r s) = context_key s"
  "st_batches (park_request env r s) = st_batches s"
  "st_queue (park_request env r s) = st_queue s"
  "st_waiting (park_request env r s) = st_waiting s"
  "st_in_flight (park_request env r s) = st_in_flight s"
  "st_memory (park_request env r s) = st_memory s" "st_dma (park_request env r s) = st_dma s"
  "io_counts (bc_metrics (park_request env r s)) = io_counts (bc_metrics s)"
  by (simp_all add: park_request_def Let_def io_views case_prod_unfold split: option.split)

lemma note_lease_frame [io_views]:
  "request_keys (note_lease env r i s) = request_keys s"
  "done_col (note_lease env r i s) = done_col s"
  "worker_keys (note_lease env r i s) = worker_keys s"
  "pool_col (note_lease env r i s) = pool_col s"
  "pending_col (note_lease env r i s) = pending_col s"
  "draining_col (note_lease env r i s) = draining_col s"
  "context_key (note_lease env r i s) = context_key s"
  "st_batches (note_lease env r i s) = st_batches s"
  "st_queue (note_lease env r i s) = st_queue s"
  "st_waiting (note_lease env r i s) = st_waiting s"
  "st_in_flight (note_lease env r i s) = st_in_flight s"
  "st_memory (note_lease env r i s) = st_memory s" "st_dma (note_lease env r i s) = st_dma s"
  "lease_col (note_lease env r i s) = (lease_col s)[r := Some i]"
  by (simp_all add: note_lease_def Let_def io_views case_prod_unfold split: option.split)

lemma stage_write_frame [io_views]:
  "request_keys (stage_write r buf s) = request_keys s"
  "lease_col (stage_write r buf s) = lease_col s" "done_col (stage_write r buf s) = done_col s"
  "worker_keys (stage_write r buf s) = worker_keys s"
  "pool_col (stage_write r buf s) = pool_col s"
  "pending_col (stage_write r buf s) = pending_col s"
  "draining_col (stage_write r buf s) = draining_col s"
  "context_key (stage_write r buf s) = context_key s"
  "st_batches (stage_write r buf s) = st_batches s"
  "st_queue (stage_write r buf s) = st_queue s"
  "st_waiting (stage_write r buf s) = st_waiting s"
  "st_in_flight (stage_write r buf s) = st_in_flight s"
  "st_memory (stage_write r buf s) = st_memory s"
  "bc_metrics (stage_write r buf s) = bc_metrics s"
  "st_requests (stage_write r buf s) = st_requests s"
  "st_world (stage_write r buf s) = st_world s"
  by (simp_all add: stage_write_def Let_def io_views case_prod_unfold split: option.split)

lemma submit_blocks_frame [io_views]:
  "request_keys (snd (submit_blocks env r buf s)) = request_keys s"
  "lease_col (snd (submit_blocks env r buf s)) = lease_col s"
  "done_col (snd (submit_blocks env r buf s)) = done_col s"
  "worker_keys (snd (submit_blocks env r buf s)) = worker_keys s"
  "pool_col (snd (submit_blocks env r buf s)) = pool_col s"
  "pending_col (snd (submit_blocks env r buf s)) = pending_col s"
  "draining_col (snd (submit_blocks env r buf s)) = draining_col s"
  "context_key (snd (submit_blocks env r buf s)) = context_key s"
  "st_batches (snd (submit_blocks env r buf s)) = st_batches s"
  "st_queue (snd (submit_blocks env r buf s)) = st_queue s"
  "st_waiting (snd (submit_blocks env r buf s)) = st_waiting s"
  "st_memory (snd (submit_blocks env r buf s)) = st_memory s"
  "st_dma (snd (submit_blocks env r buf s)) = st_dma s"
  "bc_metrics (snd (submit_blocks env r buf s)) = bc_metrics s"
  by (simp_all add: submit_blocks_def Let_def io_views case_prod_unfold split: option.split)

lemma emit_io_event_frame [io_views]:
  "request_keys (emit_io_event r ph cb s) = request_keys s"
  "lease_col (emit_io_event r ph cb s) = lease_col s"
  "done_col (emit_io_event r ph cb s) = done_col s"
  "worker_keys (emit_io_event r ph cb s) = worker_keys s"
  "pool_col (emit_io_event r ph cb s) = pool_col s"
  "pending_col (emit_io_event r ph cb s) = pending_col s"
  "draining_col (emit_io_event r ph cb s) = draining_col s"
  "context_key (emit_io_event r ph cb s) = context_key s"
  "st_batches (emit_io_event r ph cb s) = st_batches s"
  "st_queue (emit_io_event r ph cb s) = st_queue s"
  "st_waiting (emit_io_event r ph cb s) = st_waiting s"
  "st_in_flight (emit_io_event r ph cb s) = st_in_flight s"
  "st_memory (emit_io_event r ph cb s) = st_memory s"
  "st_dma (emit_io_event r ph cb s) = st_dma s"
  "bc_metrics (emit_io_event r ph cb s) = bc_metrics s"
  "st_requests (emit_io_event r ph cb s) = st_requests s"
  "st_world (emit_io_event r ph cb s) = st_world s"
  by (simp_all add: emit_io_event_def Let_def io_views case_prod_unfold split: option.split)

lemma count_submitted_frame [io_views]:
  "request_keys (count_submitted r s) = request_keys s"
  "lease_col (count_submitted r s) = lease_col s" "done_col (count_submitted r s) = done_col s"
  "worker_keys (count_submitted r s) = worker_keys s"
  "pool_col (count_submitted r s) = pool_col s"
  "pending_col (count_submitted r s) = pending_col s"
  "draining_col (count_submitted r s) = draining_col s"
  "context_key (count_submitted r s) = context_key s"
  "st_batches (count_submitted r s) = st_batches s"
  "st_queue (count_submitted r s) = st_queue s"
  "st_waiting (count_submitted r s) = st_waiting s"
  "st_in_flight (count_submitted r s) = st_in_flight s"
  "st_memory (count_submitted r s) = st_memory s" "st_dma (count_submitted r s) = st_dma s"
  "io_counts (bc_metrics (count_submitted r s)) = io_counts (bc_metrics s)"
  by (simp_all add: count_submitted_def Let_def io_views case_prod_unfold split: option.split)

lemma complete_request_frame [io_views]:
  "request_keys (complete_request r ok msg s) = request_keys s"
  "lease_col (complete_request r ok msg s) = lease_col s"
  "worker_keys (complete_request r ok msg s) = worker_keys s"
  "pool_col (complete_request r ok msg s) = pool_col s"
  "pending_col (complete_request r ok msg s) = pending_col s"
  "draining_col (complete_request r ok msg s) = draining_col s"
  "context_key (complete_request r ok msg s) = context_key s"
  "st_queue (complete_request r ok msg s) = st_queue s"
  "st_waiting (complete_request r ok msg s) = st_waiting s"
  "st_in_flight (complete_request r ok msg s) = st_in_flight s"
  "st_memory (complete_request r ok msg s) = st_memory s"
  "st_dma (complete_request r ok msg s) = st_dma s"
  "done_col (complete_request r ok msg s) = (done_col s)[r := True]"
  "st_world (complete_request r ok msg s) = st_world s"
  by (simp_all add: complete_request_def Let_def io_views case_prod_unfold column_known split: option.split if_split)

lemma release_buffer_frame [io_views]:
  "request_keys (release_buffer r s) = request_keys s"
  "done_col (release_buffer r s) = done_col s"
  "worker_keys (release_buffer r s) = worker_keys s"
  "pending_col (release_buffer r s) = pending_col s"
  "draining_col (release_buffer r s) = draining_col s"
  "context_key (release_buffer r s) = context_key s"
  "st_batches (release_buffer r s) = st_batches s" "st_queue (release_buffer r s) = st_queue s"
  "st_waiting (release_buffer r s) = st_waiting s"
  "st_in_flight (release_buffer r s) = st_in_flight s"
  "st_memory (release_buffer r s) = st_memory s" "st_dma (release_buffer r s) = st_dma s"
  "lease_col (release_buffer r s) = (lease_col s)[r := None]"
  "st_world (release_buffer r s) = st_world s"
  by (simp_all add: release_buffer_def Let_def io_views case_prod_unfold column_known split: option.split sum.split)

lemma wait_for_queue_frame [io_views]:
  "request_keys (fst (wait_for_queue env r s)) = request_keys s"
  "worker_keys (fst (wait_for_queue env r s)) = worker_keys s"
  "pending_col (fst (wait_for_queue env r s)) = pending_col s"
  "draining_col (fst (wait_for_queue env r s)) = draining_col s"
  "context_key (fst (wait_for_queue env r s)) = context_key s"
  "st_memory (fst (wait_for_queue env r s)) = st_memory s"
  "st_dma (fst (wait_for_queue env r s)) = st_dma s"
  by (simp_all add: wait_for_queue_def thread_send_msg_def Let_def io_views case_prod_unfold)

lemma fail_execute_frame [io_views]:
  "request_keys (fst (fail_execute r m s)) = request_keys s"
  "worker_keys (fst (fail_execute r m s)) = worker_keys s"
  "pending_col (fst (fail_execute r m s)) = pending_col s"
  "draining_col (fst (fail_execute r m s)) = draining_col s"
  "context_key (fst (fail_execute r m s)) = context_key s"
  "st_queue (fst (fail_execute r m s)) = st_queue s"
  "st_waiting (fst (fail_execute r m s)) = st_waiting s"
  "st_in_flight (fst (fail_execute r m s)) = st_in_flight s"
  "st_memory (fst (fail_execute r m s)) = st_memory s"
  "st_dma (fst (fail_execute r m s)) = st_dma s"
  "lease_col (fst (fail_execute r m s)) = (lease_col s)[r := None]"
  "done_col (fst (fail_execute r m s)) = (done_col s)[r := True]" "snd (fail_execute r m s)"
  by (simp_all add: fail_execute_def io_views)

lemma submit_staged_frame [io_views]:
  "request_keys (fst (submit_staged env r buf s)) = request_keys s"
  "worker_keys (fst (submit_staged env r buf s)) = worker_keys s"
  "pending_col (fst (submit_staged env r buf s)) = pending_col s"
  "draining_col (fst (submit_staged env r buf s)) = draining_col s"
  "context_key (fst (submit_staged env r buf s)) = context_key s"
  "st_memory (fst (submit_staged env r buf s)) = st_memory s"
  by (simp_all add: submit_staged_def Let_def io_views case_prod_unfold)

lemma request_key_eq:
  assumes "request_keys s' = request_keys s" and "r < length (st_requests s)"
  shows "request_key (req s' r) = request_key (req s r)"
proof -
  have "length (st_requests s') = length (st_requests s)"
    using arg_cong [OF assms(1), of length] by simp
  then show ?thesis using assms column_nth(1) by metis
qed

lemma request_key_fields:
  assumes "request_key p = request_key q"
  shows "rq_worker p = rq_worker q" "rq_batch p = rq_batch q"
    "rq_result_index p = rq_result_index q" "rq_operation p = rq_operation q"
    "rq_buffer p = rq_buffer q" "rq_logical_length p = rq_logical_length q"
    "rq_byte_offset p = rq_byte_offset q" "rq_physical_length p = rq_physical_length q"
  using assms by (simp_all add: request_key_def)

lemma length_requests_eq: "request_keys s' = request_keys s \<Longrightarrow> length (st_requests s') = length (st_requests s)"
  using arg_cong [of _ _ length] by (metis view_lengths(1))

lemma length_workers_eq: "worker_keys s' = worker_keys s \<Longrightarrow> length (bc_io_workers s') = length (bc_io_workers s)"
  by (metis view_lengths(4))

lemma upd_request_worker:
  "(\<And>q. rq_worker (f q) = rq_worker q) \<Longrightarrow> rq_worker (req (upd_request r f s) k) = rq_worker (req s k)"
  by (cases "k = r"; cases "r < length (st_requests s)")
    (simp_all add: upd_request_def list_update_beyond)

lemma park_request_pending:
  "pending_col (park_request env r s) =
     (let w = rq_worker (req s r) in (pending_col s)[w := wk_pending_io (wkr s w) @ [r]])"
  by (simp add: park_request_def Let_def io_views case_prod_unfold upd_request_worker
      split: option.split)

lemma execute_body_frame [io_views]:
  "request_keys (fst (execute_body env cur r s)) = request_keys s"
  "worker_keys (fst (execute_body env cur r s)) = worker_keys s"
  "draining_col (fst (execute_body env cur r s)) = draining_col s"
  "context_key (fst (execute_body env cur r s)) = context_key s"
  "st_memory (fst (execute_body env cur r s)) = st_memory s"
  by (simp_all add: execute_body_def Let_def io_views case_prod_unfold split: sum.split option.split)

lemma note_start_worker:
  "rq_worker (req (note_start env r s) k) = rq_worker (req s k)"
  by (simp add: note_start_def Let_def case_prod_unfold upd_request_worker io_views
      split: option.split)

text \<open>A request that is parked was refused by its worker's empty pool.\<close>

lemma execute_body_pending:
  fixes env cur r and s :: "'d spdk_state"
  defines "w \<equiv> rq_worker (req s r)" and "s' \<equiv> fst (execute_body env cur r s)"
  shows "pending_col s' = pending_col s \<or>
    pending_col s' = (pending_col s)[w := wk_pending_io (wkr s w) @ [r]] \<and>
    (w < length (bc_io_workers s) \<longrightarrow> pool_available (pool_col s' ! w) = 0)"
proof (cases "cur \<noteq> wk_thread (wkr s w)")
  case True
  then show ?thesis by (simp add: s'_def w_def execute_body_def io_views)
next
  case False
  let ?s1 = "note_start env r s"
  obtain acq p where a: "pool_try_acquire (wk_buffer_pool (wkr ?s1 w)) = (acq, p)" by fastforce
  let ?s2 = "upd_worker w (wk_buffer_pool_update (\<lambda>_. p)) ?s1"
  have same: "pending_col ?s2 = pending_col s" "request_keys ?s2 = request_keys s"
    by (simp_all add: io_views)
  show ?thesis
  proof (cases "acq = Inr None")
    case True
    have "s' = park_request env r ?s2"
      using False a True by (simp add: s'_def w_def execute_body_def Let_def)
    moreover have "rq_worker (req ?s2 r) = w" by (simp add: w_def io_views note_start_worker)
    moreover have "wk_pending_io (wkr ?s2 w) = wk_pending_io (wkr s w)" if "w < length (bc_io_workers s)"
      using same(1) that by (metis column_nth(6) view_lengths(6))
    moreover have "pool_available p = 0"
      using a True by (simp add: pool_try_acquire_None)
    ultimately show ?thesis
      using same(1) by (cases "w < length (bc_io_workers s)")
        (simp_all add: park_request_pending Let_def io_views list_update_beyond)
  next
    case other: False
    have "pending_col s' = pending_col s"
      using False a other
      by (simp add: s'_def w_def execute_body_def Let_def io_views
          split: sum.split option.split)
    then show ?thesis by simp
  qed
qed

section \<open>Draining\<close>

definition set_draining :: "nat \<Rightarrow> bool \<Rightarrow> 'd spdk_state \<Rightarrow> 'd spdk_state" where
  "set_draining w b = upd_worker w (wk_draining_pending_io_update (\<lambda>_. b))"

definition pop_pending :: "nat \<Rightarrow> 'd spdk_state \<Rightarrow> 'd spdk_state" where
  "pop_pending w = upd_worker w (\<lambda>wk. wk\<lparr>wk_pending_io := tl (wk_pending_io wk)\<rparr>)"

definition drain_ready :: "nat \<Rightarrow> 'd spdk_state \<Rightarrow> bool" where
  "drain_ready w s \<longleftrightarrow> w < length (bc_io_workers s) \<and>
     wk_pending_io (wkr s w) \<noteq> [] \<and> pool_available (wk_buffer_pool (wkr s w)) \<noteq> 0"

text \<open>The loop of \<open>drain_pending_io\<close>, while its flag is set.\<close>

function drain_loop :: "'d spdk_env \<Rightarrow> spdk_thread \<Rightarrow> nat \<Rightarrow> 'd spdk_state \<Rightarrow> 'd spdk_state" where
  "drain_loop env cur w s =
     (if drain_ready w s
      then drain_loop env cur w
             (fst (execute_body env cur (hd (wk_pending_io (wkr s w))) (pop_pending w s)))
      else s)"
  by pat_completeness auto
termination
proof (relation "measure (\<lambda>(env, cur, w, s). if pool_available (wk_buffer_pool (wkr s w)) = 0 then 0
    else Suc (length (wk_pending_io (wkr s w))))")
  fix env :: "'d spdk_env" and cur w and s :: "'d spdk_state"
  assume ready: "drain_ready w s"
  let ?r = "hd (wk_pending_io (wkr s w))" and ?s1 = "pop_pending w s"
  let ?s' = "fst (execute_body env cur ?r ?s1)"
  have w: "w < length (bc_io_workers s)" and ne: "wk_pending_io (wkr s w) \<noteq> []"
    and av: "pool_available (wk_buffer_pool (wkr s w)) \<noteq> 0"
    using ready by (simp_all add: drain_ready_def)
  have len: "length (bc_io_workers ?s1) = length (bc_io_workers s)"
    "length (bc_io_workers ?s') = length (bc_io_workers s)"
    using length_workers_eq [of ?s' ?s1] by (simp_all add: pop_pending_def io_views)
  have p1: "pending_col ?s1 ! w = tl (wk_pending_io (wkr s w))"
    using w by (simp add: pop_pending_def io_views)
  have "pending_col ?s' ! w = pending_col ?s1 ! w \<or> pool_available (pool_col ?s' ! w) = 0"
    using execute_body_pending [of env cur ?r ?s1] w len
    by (cases "rq_worker (req ?s1 ?r) = w") auto
  then have "length (wk_pending_io (wkr ?s' w)) < length (wk_pending_io (wkr s w)) \<or>
      pool_available (wk_buffer_pool (wkr ?s' w)) = 0"
    using p1 ne w len by (auto simp: column_nth)
  then show "((env, cur, w, ?s'), env, cur, w, s) \<in> measure (\<lambda>(env, cur, w, s).
      if pool_available (wk_buffer_pool (wkr s w)) = 0 then 0
      else Suc (length (wk_pending_io (wkr s w))))"
    using av by auto
qed simp

declare drain_loop.simps [simp del]

definition drain_pending_io :: "'d spdk_env \<Rightarrow> spdk_thread \<Rightarrow> nat \<Rightarrow> 'd spdk_state \<Rightarrow> 'd spdk_state" where
  "drain_pending_io env cur w s =
     (if wk_draining_pending_io (wkr s w) then s
      else set_draining w False (drain_loop env cur w (set_draining w True s)))"

definition execute_io_on_worker ::
  "'d spdk_env \<Rightarrow> spdk_thread \<Rightarrow> nat \<Rightarrow> 'd spdk_state \<Rightarrow> 'd spdk_state" where
  "execute_io_on_worker env cur r s =
     (case execute_body env cur r s of
        (s1, drains) \<Rightarrow> if drains then drain_pending_io env cur (rq_worker (req s r)) s1 else s1)"

fun execute_worker_batch ::
  "'d spdk_env \<Rightarrow> spdk_thread \<Rightarrow> nat list \<Rightarrow> 'd spdk_state \<Rightarrow> 'd spdk_state" where
  "execute_worker_batch env cur [] s = s"
| "execute_worker_batch env cur (r # rs) s =
     execute_worker_batch env cur rs (execute_io_on_worker env cur r s)"

section \<open>Completion\<close>

text \<open>
  \<open>complete_io_on_worker\<close>; \<open>spdk_bdev_free_io\<close> has taken the command out of \<open>st_in_flight\<close>.
\<close>

definition complete_io_on_worker ::
  "'d spdk_env \<Rightarrow> spdk_thread \<Rightarrow> nat \<Rightarrow> bool \<Rightarrow> 'd spdk_state \<Rightarrow> 'd spdk_state" where
  "complete_io_on_worker env cur r success s =
     (let w = rq_worker (req s r);
          s1 = emit_io_event r ''callback'' (Some success) s;
          q = req s1 r;
          copied =
            (if success \<and> rq_operation q = Op_read
             then (case pool_data (wk_buffer_pool (wkr s1 w)) (the (rq_buffer_index q)) of
                     Inl e \<Rightarrow> Inl e
                   | Inr buf \<Rightarrow> Inr (s1\<lparr>st_memory := mem_write (st_memory s1) (unat (rq_buffer q))
                       (mem_read (st_dma s1 buf) 0 (unat (rq_logical_length q)))\<rparr>))
             else Inr s1);
          s2 = (case copied of
                  Inr s' \<Rightarrow> complete_request r success
                    (if success then [] else ''SPDK bdev I/O failed'') (release_buffer r s')
                | Inl e \<Rightarrow> complete_request r False (what e) (release_buffer r s1))
      in drain_pending_io env cur w s2)"

end
