(* ===== verification/Bdev_Invariant.thy ===== *)
theory Bdev_Invariant
  imports Bdev_Io "HOL-Library.Multiset"
begin

text \<open>
  The invariant of the I/O path, on the columns of the state. Four parts: every incomplete
  request is in exactly one place (running in a handler, in a message, in a FIFO, waiting for
  SPDK's queue, or in flight); exactly the requests in flight hold buffers; a batch's counter
  is the number of its incomplete requests; the counters agree with the tables. Each part
  has one lemma per move a handler makes.
\<close>

section \<open>Columns of a key\<close>

definition key_worker :: "request_key \<Rightarrow> nat" where "key_worker k = fst k"
definition key_batch :: "request_key \<Rightarrow> nat" where "key_batch k = fst (snd k)"
definition key_index :: "request_key \<Rightarrow> nat" where "key_index k = fst (snd (snd k))"
definition key_operation :: "request_key \<Rightarrow> io_operation" where
  "key_operation k = fst (snd (snd (snd k)))"

definition key_thread :: "nat \<times> u32 \<times> spdk_thread \<times> bool \<times> bool \<times> u64 \<Rightarrow> spdk_thread" where
  "key_thread wk = fst (snd (snd wk))"

lemma key_simps [simp]:
  "key_worker (request_key q) = rq_worker q" "key_batch (request_key q) = rq_batch q"
  "key_index (request_key q) = rq_result_index q"
  "key_operation (request_key q) = rq_operation q" "key_thread (worker_key wk) = wk_thread wk"
  by (simp_all add: key_worker_def key_batch_def key_index_def key_operation_def key_thread_def
      request_key_def worker_key_def)

section \<open>Places\<close>

fun msg_requests :: "spdk_message \<Rightarrow> nat list" where
  "msg_requests (Msg_execute_batch rs) = rs"
| "msg_requests (Msg_retry r) = [r]"
| "msg_requests _ = []"

definition queued :: "spdk_message list \<Rightarrow> nat list" where
  "queued msgs = concat (map msg_requests msgs)"

definition open_list :: "bool list \<Rightarrow> nat list" where
  "open_list dn = filter (\<lambda>r. \<not> dn ! r) [0..<length dn]"

definition worker_places :: "(nat \<times> u32 \<times> spdk_thread \<times> bool \<times> bool \<times> u64) list \<Rightarrow> nat list list \<Rightarrow>
    (spdk_thread \<Rightarrow> spdk_message list) \<Rightarrow> nat \<Rightarrow> nat multiset" where
  "worker_places wks pend q w = mset (queued (q (key_thread (wks ! w)))) + mset (pend ! w)"

definition place_inv :: "nat list \<Rightarrow> request_key list \<Rightarrow>
    (nat \<times> u32 \<times> spdk_thread \<times> bool \<times> bool \<times> u64) list \<Rightarrow> bool list \<Rightarrow> nat list list \<Rightarrow>
    (spdk_thread \<Rightarrow> spdk_message list) \<Rightarrow> nat list \<Rightarrow> bdev_io list \<Rightarrow> bool" where
  "place_inv rs ks wks dn pend q waiting fl \<longleftrightarrow>
     distinct (map key_thread wks) \<and> length dn = length ks \<and> length pend = length wks \<and>
     (\<forall>k\<in>set ks. key_worker k < length wks) \<and>
     mset rs + (\<Sum>w<length wks. worker_places wks pend q w) + mset waiting
       + mset (map bio_request fl) = mset (open_list dn) \<and>
     (\<forall>w<length wks. \<forall>r. r \<in># worker_places wks pend q w \<longrightarrow> key_worker (ks ! r) = w)"

lemma sum_mset_change:
  fixes f g :: "nat \<Rightarrow> 'a multiset"
  assumes "w < n" and "\<And>i. i < n \<Longrightarrow> i \<noteq> w \<Longrightarrow> g i = f i" and "g w = f w + x"
  shows "(\<Sum>i<n. g i) = (\<Sum>i<n. f i) + x"
proof -
  have "(\<Sum>i<n. g i) = g w + (\<Sum>i\<in>{..<n} - {w}. g i)"
    and "(\<Sum>i<n. f i) = f w + (\<Sum>i\<in>{..<n} - {w}. f i)"
    using assms(1) by (auto intro: sum.remove)
  moreover have "(\<Sum>i\<in>{..<n} - {w}. g i) = (\<Sum>i\<in>{..<n} - {w}. f i)"
    using assms(2) by (intro sum.cong) auto
  ultimately show ?thesis using assms(3) by simp
qed

lemma thread_inj:
  "distinct (map key_thread wks) \<Longrightarrow> i < length wks \<Longrightarrow> j < length wks \<Longrightarrow>
     key_thread (wks ! i) = key_thread (wks ! j) \<longleftrightarrow> i = j"
  using nth_eq_iff_index_eq [of "map key_thread wks" i j] by simp

lemma set_open_list: "set (open_list dn) = {r. r < length dn \<and> \<not> dn ! r}"
  by (auto simp: open_list_def)

lemma mset_open_list: "mset (open_list dn) = mset_set {r. r < length dn \<and> \<not> dn ! r}"
  by (metis distinct_filter distinct_upt mset_set_set open_list_def set_open_list)

lemma place_running:
  assumes "place_inv (r # rs) ks wks dn pend q waiting fl"
  shows "r < length ks" and "\<not> dn ! r" and "key_worker (ks ! r) < length wks"
    and "r \<notin> bio_request ` set fl" and "r \<notin> set rs"
proof -
  let ?rest = "mset rs + (\<Sum>w<length wks. worker_places wks pend q w) + mset waiting
    + mset (map bio_request fl)"
  have eq: "mset (open_list dn) = add_mset r ?rest"
    using assms by (simp add: place_inv_def)
  then have "r \<in> set (open_list dn)" by (metis set_mset_mset union_single_eq_member add_mset_add_single union_commute)
  then show "r < length ks" and "\<not> dn ! r"
    using assms by (auto simp: set_open_list place_inv_def)
  then show "key_worker (ks ! r) < length wks" using assms by (simp add: place_inv_def)
  have "count (mset (open_list dn)) r \<le> 1" by (simp add: mset_open_list count_mset_set')
  then have "count ?rest r = 0" unfolding eq by simp
  then have "r \<notin># ?rest" by (simp only: not_in_iff)
  moreover have "set rs \<subseteq> set_mset ?rest" and "bio_request ` set fl \<subseteq> set_mset ?rest" by auto
  ultimately show "r \<notin> bio_request ` set fl" and "r \<notin> set rs" by blast+
qed

text \<open>Requests enter or leave the places of one worker.\<close>

lemma place_enter:
  assumes "place_inv (xs @ rs) ks wks dn pend q waiting fl" and "w < length wks"
    and "length pend' = length wks"
    and "\<And>i. i < length wks \<Longrightarrow> i \<noteq> w \<Longrightarrow> worker_places wks pend' q' i = worker_places wks pend q i"
    and "worker_places wks pend' q' w = worker_places wks pend q w + mset xs"
    and "\<forall>r\<in>set xs. key_worker (ks ! r) = w"
  shows "place_inv rs ks wks dn pend' q' waiting fl"
proof -
  have "(\<Sum>i<length wks. worker_places wks pend' q' i) =
      (\<Sum>i<length wks. worker_places wks pend q i) + mset xs"
    using assms(2,4,5) by (rule sum_mset_change)
  moreover have "key_worker (ks ! r) = i"
    if "i < length wks" "r \<in># worker_places wks pend' q' i" for i r
    using that assms by (cases "i = w") (auto simp: place_inv_def)
  ultimately show ?thesis using assms(1,3) by (simp add: place_inv_def ac_simps)
qed

lemma place_leave:
  assumes "place_inv rs ks wks dn pend q waiting fl" and "w < length wks"
    and "length pend' = length wks"
    and "\<And>i. i < length wks \<Longrightarrow> i \<noteq> w \<Longrightarrow> worker_places wks pend q i = worker_places wks pend' q' i"
    and "worker_places wks pend q w = worker_places wks pend' q' w + mset xs"
  shows "place_inv (xs @ rs) ks wks dn pend' q' waiting fl"
    and "\<forall>r\<in>set xs. key_worker (ks ! r) = w"
proof -
  have "(\<Sum>i<length wks. worker_places wks pend q i) =
      (\<Sum>i<length wks. worker_places wks pend' q' i) + mset xs"
    using assms(2,4,5) by (rule sum_mset_change)
  moreover have places: "key_worker (ks ! r) = i"
    if "i < length wks" "r \<in># worker_places wks pend q i" for i r
    using that assms(1) by (simp add: place_inv_def)
  moreover have "r \<in># worker_places wks pend q i"
    if "i < length wks" "r \<in># worker_places wks pend' q' i" for i r
    using that assms by (cases "i = w") auto
  ultimately show "place_inv (xs @ rs) ks wks dn pend' q' waiting fl"
    using assms(1,3) by (simp add: place_inv_def ac_simps)
  show "\<forall>r\<in>set xs. key_worker (ks ! r) = w"
    using places [OF assms(2)] assms(5) by simp
qed

lemma place_park:
  assumes "place_inv (r # rs) ks wks dn pend q waiting fl" and w: "w = key_worker (ks ! r)"
  shows "place_inv rs ks wks dn (pend[w := pend ! w @ [r]]) q waiting fl"
proof -
  have l: "length (pend[w := pend ! w @ [r]]) = length wks" "length pend = length wks"
    using assms(1) by (simp_all add: place_inv_def)
  have lt: "w < length wks" using place_running(3) [OF assms(1)] w by simp
  have "place_inv ([r] @ rs) ks wks dn pend q waiting fl" using assms(1) by simp
  then show ?thesis
    by (rule place_enter [OF _ lt l(1)]) (use lt l w in \<open>auto simp: worker_places_def\<close>)
qed

lemma place_pop:
  assumes "place_inv rs ks wks dn pend q waiting fl" and "w < length wks" and "pend ! w = r # xs"
  shows "place_inv (r # rs) ks wks dn (pend[w := xs]) q waiting fl" and "key_worker (ks ! r) = w"
proof -
  have *: "length (pend[w := xs]) = length wks" using assms(1) by (simp add: place_inv_def)
  have "place_inv ([r] @ rs) ks wks dn (pend[w := xs]) q waiting fl \<and>
      (\<forall>k\<in>set [r]. key_worker (ks ! k) = w)"
    using assms * by (intro conjI place_leave [OF assms(1,2) *]) (auto simp: worker_places_def)
  then show "place_inv (r # rs) ks wks dn (pend[w := xs]) q waiting fl"
    and "key_worker (ks ! r) = w" by simp_all
qed

lemma place_send:
  assumes "place_inv (msg_requests m @ rs) ks wks dn pend q waiting fl" and "w < length wks"
    and "t = key_thread (wks ! w)" and "\<forall>r\<in>set (msg_requests m). key_worker (ks ! r) = w"
  shows "place_inv rs ks wks dn pend (q(t := q t @ [m])) waiting fl"
proof -
  have d: "distinct (map key_thread wks)" and l: "length pend = length wks"
    using assms(1) by (simp_all add: place_inv_def)
  have other: "key_thread (wks ! i) \<noteq> key_thread (wks ! w)" if "i < length wks" "i \<noteq> w" for i
    using that assms(2,3) thread_inj [OF d] by simp
  show ?thesis
    by (rule place_enter [OF assms(1,2) l _ _ assms(4)])
      (simp_all add: worker_places_def queued_def other assms(3))
qed

lemma place_deliver:
  assumes "place_inv rs ks wks dn pend q waiting fl" and "w < length wks"
    and "t = key_thread (wks ! w)" and "q t = m # ms"
  shows "place_inv (msg_requests m @ rs) ks wks dn pend (q(t := ms)) waiting fl"
    and "\<forall>r\<in>set (msg_requests m). key_worker (ks ! r) = w"
proof -
  have d: "distinct (map key_thread wks)" and l: "length pend = length wks"
    using assms(1) by (simp_all add: place_inv_def)
  have other: "key_thread (wks ! i) \<noteq> key_thread (wks ! w)" if "i < length wks" "i \<noteq> w" for i
    using that assms(2,3) thread_inj [OF d] by simp
  have "worker_places wks pend q i = worker_places wks pend (q(t := ms)) i"
    if "i < length wks" "i \<noteq> w" for i
    using other [OF that] assms(3) by (simp add: worker_places_def)
  moreover have "worker_places wks pend q w =
      worker_places wks pend (q(t := ms)) w + mset (msg_requests m)"
    using assms(3,4) by (simp add: worker_places_def queued_def)
  ultimately show "place_inv (msg_requests m @ rs) ks wks dn pend (q(t := ms)) waiting fl"
    and "\<forall>r\<in>set (msg_requests m). key_worker (ks ! r) = w"
    using place_leave [OF assms(1,2) l] by blast+
qed

lemma place_wait:
  "place_inv (r # rs) ks wks dn pend q waiting fl \<Longrightarrow>
     place_inv rs ks wks dn pend q (waiting @ [r]) fl"
  by (simp add: place_inv_def)

lemma place_accept:
  "place_inv (r # rs) ks wks dn pend q waiting fl \<Longrightarrow> bio_request io = r \<Longrightarrow>
     place_inv rs ks wks dn pend q waiting (fl @ [io])"
  by (simp add: place_inv_def)

definition remove_nth :: "nat \<Rightarrow> 'a list \<Rightarrow> 'a list" where
  "remove_nth k xs = take k xs @ drop (Suc k) xs"

lemma mset_remove_nth: "k < length xs \<Longrightarrow> mset xs = add_mset (xs ! k) (mset (remove_nth k xs))"
  by (metis (no_types, lifting) id_take_nth_drop mset_append mset.simps(2) remove_nth_def
      union_mset_add_mset_right)

lemma map_remove_nth: "map f (remove_nth k xs) = remove_nth k (map f xs)"
  by (simp add: remove_nth_def take_map drop_map)

lemma place_resume:
  assumes "place_inv rs ks wks dn pend q waiting fl" and "k < length waiting"
  shows "place_inv (waiting ! k # rs) ks wks dn pend q (remove_nth k waiting) fl"
  using assms mset_remove_nth [OF assms(2)] by (simp add: place_inv_def)

lemma place_finish:
  assumes "place_inv rs ks wks dn pend q waiting fl" and "k < length fl"
  shows "place_inv (bio_request (fl ! k) # rs) ks wks dn pend q waiting (remove_nth k fl)"
  using assms mset_remove_nth [of k "map bio_request fl"]
  by (simp add: place_inv_def map_remove_nth)

lemma place_done:
  assumes "place_inv (r # rs) ks wks dn pend q waiting fl"
  shows "place_inv rs ks wks (dn[r := True]) pend q waiting fl"
proof -
  have r: "r < length dn" "\<not> dn ! r"
    using place_running [OF assms] assms by (simp_all add: place_inv_def)
  have "{k. k < length dn \<and> \<not> dn ! k} = insert r {k. k < length dn \<and> \<not> (dn[r := True]) ! k}"
    using r by (auto simp: nth_list_update)
  moreover have "r \<notin> {k. k < length dn \<and> \<not> (dn[r := True]) ! k}" using r by simp
  ultimately have "mset (open_list dn) = add_mset r (mset (open_list (dn[r := True])))"
    by (simp add: mset_open_list)
  then show ?thesis using assms by (simp add: place_inv_def)
qed

section \<open>Buffers\<close>

text \<open>
  Exactly the requests in flight and those in \<open>H\<close> hold a buffer of their worker's pool, no
  buffer is held twice, and a command in flight uses the buffer its request holds.
\<close>

definition holds :: "request_key list \<Rightarrow> nat option list \<Rightarrow> nat \<Rightarrow> nat \<rightharpoonup> nat" where
  "holds ks lc w = (\<lambda>r. if r < length ks \<and> key_worker (ks ! r) = w then lc ! r else None)"

definition bio_ok :: "request_key list \<Rightarrow> nat option list \<Rightarrow> buffer_pool list \<Rightarrow> bdev_io \<Rightarrow> bool" where
  "bio_ok ks lc pl io \<longleftrightarrow>
     (let r = bio_request io; p = pl ! key_worker (ks ! r)
      in bio_operation io = key_operation (ks ! r) \<and>
         (\<exists>i. lc ! r = Some i \<and> i < length (pool_buffers p) \<and> bio_buffer io = pool_buffers p ! i))"

definition lease_inv :: "nat set \<Rightarrow> request_key list \<Rightarrow> nat option list \<Rightarrow> buffer_pool list \<Rightarrow>
    bdev_io list \<Rightarrow> bool" where
  "lease_inv H ks lc pl fl \<longleftrightarrow>
     length lc = length ks \<and> (\<forall>k\<in>set ks. key_worker k < length pl) \<and>
     (\<forall>w<length pl. leases.table_ok (holds ks lc w) (pl ! w)) \<and>
     H \<union> bio_request ` set fl = {r. r < length ks \<and> lc ! r \<noteq> None} \<and>
     (\<forall>io\<in>set fl. bio_ok ks lc pl io)"

lemma pool_buffers_acquire [simp]: "pool_buffers (snd (pool_try_acquire p)) = pool_buffers p"
  by (simp add: pool_try_acquire_def Let_def)

lemma pool_buffers_release [simp]: "pool_buffers (snd (pool_release i p)) = pool_buffers p"
  by (simp add: pool_release_def split: sum.split)

lemma holds_update:
  assumes "r < length ks" and "length lc = length ks"
  shows "holds ks (lc[r := x]) w =
    (if w = key_worker (ks ! r) then (holds ks lc w)(r := x) else holds ks lc w)"
  using assms by (auto simp: holds_def fun_eq_iff nth_list_update)

lemma held_update:
  assumes "r < length ks" and "length lc = length ks"
  shows "{k. k < length ks \<and> lc[r := x] ! k \<noteq> None} =
    (if x = None then {k. k < length ks \<and> lc ! k \<noteq> None} - {r}
     else insert r {k. k < length ks \<and> lc ! k \<noteq> None})"
  using assms by (auto simp: nth_list_update)

lemma bio_ok_other:
  assumes "bio_ok ks lc pl io" and "bio_request io \<noteq> r" and "pool_buffers p = pool_buffers (pl ! w)"
  shows "bio_ok ks (lc[r := x]) (pl[w := p]) io"
proof -
  have "pool_buffers (pl[w := p] ! v) = pool_buffers (pl ! v)" for v
    using assms(3) by (cases "w < length pl") (auto simp: nth_list_update list_update_beyond)
  then show ?thesis using assms(1,2) by (simp add: bio_ok_def Let_def)
qed

lemma lease_acquire:
  assumes "lease_inv H ks lc pl fl" and "r < length ks" and "lc ! r = None"
    and "w = key_worker (ks ! r)" and "pool_try_acquire (pl ! w) = (Inr (Some i), p)"
  shows "lease_inv (insert r H) ks (lc[r := Some i]) (pl[w := p]) fl"
    and "pool_data p i = Inr (pool_buffers (pl ! w) ! i)" and "i < length (pool_buffers (pl ! w))"
proof -
  have l: "length lc = length ks" and w: "w < length pl"
    and ok: "leases.table_ok (holds ks lc w) (pl ! w)"
    using assms(1,2,4) by (auto simp: lease_inv_def)
  have "holds ks lc w r = None" using assms(3) by (simp add: holds_def)
  with ok have tab: "leases.table_ok ((holds ks lc w)(r \<mapsto> i)) p"
    by (rule leases.table_acquire(1) [OF _ assms(5)])
  have pb: "pool_buffers p = pool_buffers (pl ! w)"
    using pool_buffers_acquire [of "pl ! w"] by (simp add: assms(5))
  have "i \<in> ran ((holds ks lc w)(r \<mapsto> i))" by (rule ranI [of _ r]) simp
  then have "pool_inv p" and "i \<in> pool_leased p"
    using tab by (simp_all add: leases.table_ok_def pool_ok_def)
  then show "pool_data p i = Inr (pool_buffers (pl ! w) ! i)"
    and "i < length (pool_buffers (pl ! w))"
    using pool_leased_bound [of p] by (auto simp: pool_data_leased pb pool_inv_def)
  have sets: "H \<union> bio_request ` set fl = {r. r < length ks \<and> lc ! r \<noteq> None}"
    using assms(1) by (simp add: lease_inv_def)
  then have "r \<notin> bio_request ` set fl" using assms(3) by blast
  then have "\<forall>io\<in>set fl. bio_ok ks (lc[r := Some i]) (pl[w := p]) io"
    using assms(1) pb by (auto simp: lease_inv_def intro!: bio_ok_other)
  moreover have "insert r H \<union> bio_request ` set fl =
      {k. k < length ks \<and> lc[r := Some i] ! k \<noteq> None}"
    unfolding held_update [OF assms(2) l] using sets by auto
  moreover have "\<forall>v<length pl. leases.table_ok (holds ks (lc[r := Some i]) v) (pl[w := p] ! v)"
    using assms(1,2,4) tab w l by (auto simp: lease_inv_def holds_update nth_list_update)
  ultimately show "lease_inv (insert r H) ks (lc[r := Some i]) (pl[w := p]) fl"
    using assms(1) by (simp add: lease_inv_def)
qed

lemma lease_give_back:
  assumes "lease_inv (insert r H) ks lc pl fl" and "r \<notin> H" and "r \<notin> bio_request ` set fl"
    and "w = key_worker (ks ! r)"
  obtains i p where "lc ! r = Some i" and "pool_release i (pl ! w) = (Inr (), p)"
    and "lease_inv H ks (lc[r := None]) (pl[w := p]) fl"
    and "pool_available p = Suc (pool_available (pl ! w))"
proof -
  have sets: "insert r H \<union> bio_request ` set fl = {r. r < length ks \<and> lc ! r \<noteq> None}"
    and l: "length lc = length ks"
    using assms(1) by (simp_all add: lease_inv_def)
  then have r: "r < length ks" and "lc ! r \<noteq> None" by auto
  then obtain i where i: "lc ! r = Some i" by auto
  have w: "w < length pl" and ok: "leases.table_ok (holds ks lc w) (pl ! w)"
    using assms(1,4) r by (auto simp: lease_inv_def)
  have "holds ks lc w r = Some i" using i r assms(4) by (simp add: holds_def)
  then obtain p where p: "pool_release i (pl ! w) = (Inr (), p)"
    "leases.table_ok ((holds ks lc w)(r := None)) p"
    using leases.table_give_back [OF ok] by metis
  have pb: "pool_buffers p = pool_buffers (pl ! w)"
    using pool_buffers_release [of i "pl ! w"] by (simp add: p)
  have "\<forall>io\<in>set fl. bio_ok ks (lc[r := None]) (pl[w := p]) io"
    using assms(1,3) pb by (auto simp: lease_inv_def intro!: bio_ok_other)
  moreover have "H \<union> bio_request ` set fl = {k. k < length ks \<and> lc[r := None] ! k \<noteq> None}"
    unfolding held_update [OF r l] sets [symmetric] using assms(2,3) by auto
  moreover have "\<forall>v<length pl. leases.table_ok (holds ks (lc[r := None]) v) (pl[w := p] ! v)"
    using assms(1,4) p w l r by (auto simp: lease_inv_def holds_update nth_list_update)
  ultimately have inv: "lease_inv H ks (lc[r := None]) (pl[w := p]) fl"
    using assms(1) by (simp add: lease_inv_def)
  have "pool_available p = Suc (pool_available (pl ! w))"
    using p(1) by (auto simp: pool_release_def pool_available_def split: sum.splits)
  with i p inv that show ?thesis by blast
qed

lemma lease_accept:
  assumes "lease_inv (insert r H) ks lc pl fl" and "bio_request io = r" and "bio_ok ks lc pl io"
  shows "lease_inv H ks lc pl (fl @ [io])"
  using assms by (auto simp: lease_inv_def)

lemma lease_finish:
  assumes "lease_inv H ks lc pl fl" and "k < length fl"
  shows "lease_inv (insert (bio_request (fl ! k)) H) ks lc pl (remove_nth k fl)"
proof -
  have "set fl = insert (fl ! k) (set (remove_nth k fl))"
    using arg_cong [OF mset_remove_nth [OF assms(2)], of set_mset] by simp
  then show ?thesis using assms(1) by (auto simp: lease_inv_def)
qed

section \<open>Batches and counters\<close>

definition batch_inv :: "request_key list \<Rightarrow> bool list \<Rightarrow> io_batch list \<Rightarrow> bool" where
  "batch_inv ks dn bts \<longleftrightarrow>
     length dn = length ks \<and>
     inj_on (\<lambda>r. (key_batch (ks ! r), key_index (ks ! r))) {..<length ks} \<and>
     (\<forall>k\<in>set ks. key_batch k < length bts \<and>
        key_index k < length (bt_results (bts ! key_batch k))) \<and>
     (\<forall>b<length bts. bt_remaining (bts ! b) =
        card {r. r < length ks \<and> key_batch (ks ! r) = b \<and> \<not> dn ! r})"

text \<open>The result of a completed request.\<close>

definition result_at :: "request_key list \<Rightarrow> io_batch list \<Rightarrow> nat \<Rightarrow> io_result" where
  "result_at ks bts r = bt_results (bts ! key_batch (ks ! r)) ! key_index (ks ! r)"

definition complete_batch :: "request_key \<Rightarrow> io_result \<Rightarrow> io_batch list \<Rightarrow> io_batch list" where
  "complete_batch k res bts = bts[key_batch k :=
     \<lparr>bt_remaining = bt_remaining (bts ! key_batch k) - 1,
      bt_results = (bt_results (bts ! key_batch k))[key_index k := res]\<rparr>]"

lemma batch_done:
  assumes "batch_inv ks dn bts" and r: "r < length ks" "\<not> dn ! r"
  shows "batch_inv ks (dn[r := True]) (complete_batch (ks ! r) res bts)"
    and "result_at ks (complete_batch (ks ! r) res bts) r = res"
    and "k < length ks \<Longrightarrow> k \<noteq> r \<Longrightarrow>
      result_at ks (complete_batch (ks ! r) res bts) k = result_at ks bts k"
proof -
  let ?b = "key_batch (ks ! r)" and ?bts = "complete_batch (ks ! r) res bts"
  have b: "?b < length bts" "key_index (ks ! r) < length (bt_results (bts ! ?b))"
    using assms(1) r(1) by (auto simp: batch_inv_def)
  have len: "length dn = length ks" using assms(1) by (simp add: batch_inv_def)
  have same: "length (bt_results (?bts ! i)) = length (bt_results (bts ! i))" for i
    using b(1) by (simp add: complete_batch_def nth_list_update)
  have "bt_remaining (?bts ! i) =
      card {k. k < length ks \<and> key_batch (ks ! k) = i \<and> \<not> dn[r := True] ! k}" if "i < length bts" for i
  proof (cases "i = ?b")
    case True
    have "{k. k < length ks \<and> key_batch (ks ! k) = i \<and> \<not> dn[r := True] ! k} =
        {k. k < length ks \<and> key_batch (ks ! k) = i \<and> \<not> dn ! k} - {r}"
      using r len by (auto simp: nth_list_update)
    moreover have "r \<in> {k. k < length ks \<and> key_batch (ks ! k) = i \<and> \<not> dn ! k}"
      using r True by simp
    ultimately show ?thesis
      using assms(1) b(1) that True by (simp add: batch_inv_def complete_batch_def card_Diff_singleton)
  next
    case False
    have "{k. k < length ks \<and> key_batch (ks ! k) = i \<and> \<not> dn[r := True] ! k} =
        {k. k < length ks \<and> key_batch (ks ! k) = i \<and> \<not> dn ! k}"
      using False len r(1) by (auto simp: nth_list_update)
    then show ?thesis
      using assms(1) that False by (simp add: batch_inv_def complete_batch_def)
  qed
  then show "batch_inv ks (dn[r := True]) ?bts"
    using assms(1) same by (simp add: batch_inv_def complete_batch_def)
  show "result_at ks ?bts r = res"
    using b by (simp add: result_at_def complete_batch_def)
  show "result_at ks ?bts k = result_at ks bts k" if "k < length ks" "k \<noteq> r"
  proof -
    have "(key_batch (ks ! k), key_index (ks ! k)) \<noteq> (?b, key_index (ks ! r))"
      using assms(1) that r(1) by (auto simp: batch_inv_def dest: inj_onD)
    then show ?thesis using b by (auto simp: result_at_def complete_batch_def nth_list_update)
  qed
qed

text \<open>
  The counters, up to the wrap-around of 64 bits: completed requests, successes among them,
  and the bytes of the buffers that are held. \<open>lost\<close> counts requests that were announced by
  a batch which validation then refused.
\<close>

definition count_inv :: "nat \<Rightarrow> u64 \<Rightarrow> request_key list \<Rightarrow> nat option list \<Rightarrow> bool list \<Rightarrow>
    io_batch list \<Rightarrow> u64 \<times> u64 \<times> u64 \<times> u64 \<times> u64 \<Rightarrow> bool" where
  "count_inv lost seg ks lc dn bts counts \<longleftrightarrow>
     counts =
       (of_nat (length ks + lost),
        of_nat (card {r. r < length ks \<and> dn ! r}),
        of_nat (card {r. r < length ks \<and> dn ! r \<and> res_success (result_at ks bts r)}),
        of_nat (card {r. r < length ks \<and> dn ! r \<and> \<not> res_success (result_at ks bts r)}),
        seg * of_nat (card {r. r < length ks \<and> lc ! r \<noteq> None}))"

lemma count_lease:
  assumes "count_inv lost seg ks lc dn bts (a, b, c, d, u)" and "r < length ks"
    and "length lc = length ks" and "lc ! r = None"
  shows "count_inv lost seg ks (lc[r := Some i]) dn bts (a, b, c, d, u + seg)"
proof -
  have "r \<notin> {k. k < length ks \<and> lc ! k \<noteq> None}" using assms(4) by simp
  moreover have "finite {k. k < length ks \<and> lc ! k \<noteq> None}" by simp
  ultimately have "card {k. k < length ks \<and> lc[r := Some i] ! k \<noteq> None} =
      Suc (card {k. k < length ks \<and> lc ! k \<noteq> None})"
    unfolding held_update [OF assms(2,3)] by simp
  then show ?thesis using assms(1) by (simp add: count_inv_def algebra_simps)
qed

lemma count_give_back:
  assumes "count_inv lost seg ks lc dn bts (a, b, c, d, u)" and "r < length ks"
    and "length lc = length ks" and "lc ! r = Some i"
  shows "count_inv lost seg ks (lc[r := None]) dn bts (a, b, c, d, u - seg)"
proof -
  have "r \<in> {k. k < length ks \<and> lc ! k \<noteq> None}" using assms(2,4) by simp
  then have "card {k. k < length ks \<and> lc ! k \<noteq> None} =
      Suc (card {k. k < length ks \<and> lc[r := None] ! k \<noteq> None})"
    unfolding held_update [OF assms(2,3)]
    using card_Suc_Diff1 [of "{k. k < length ks \<and> lc ! k \<noteq> None}" r] by simp
  then show ?thesis using assms(1) by (simp add: count_inv_def algebra_simps)
qed

lemma card_insert_done:
  assumes "r < length ks" and "length dn = length ks" and "\<not> dn ! r"
    and "\<And>k. k < length ks \<Longrightarrow> k \<noteq> r \<Longrightarrow> Q' k = Q k"
  shows "card {k. k < length ks \<and> dn[r := True] ! k \<and> Q' k} =
    card {k. k < length ks \<and> dn ! k \<and> Q k} + (if Q' r then 1 else 0)"
proof -
  have other: "dn[r := True] ! k \<and> Q' k \<longleftrightarrow> dn ! k \<and> Q k" if "k < length ks" "k \<noteq> r" for k
    using that assms(4) by simp
  have at: "dn[r := True] ! r" using assms(1,2) by simp
  have "{k. k < length ks \<and> dn[r := True] ! k \<and> Q' k} =
      {k. k < length ks \<and> dn ! k \<and> Q k} \<union> (if Q' r then {r} else {})"
  proof (intro set_eqI)
    fix k
    show "k \<in> {k. k < length ks \<and> dn[r := True] ! k \<and> Q' k} \<longleftrightarrow>
        k \<in> {k. k < length ks \<and> dn ! k \<and> Q k} \<union> (if Q' r then {r} else {})"
      using other [of k] at assms(1,3) by (cases "k = r"; cases "k < length ks") simp_all
  qed
  then show ?thesis using assms(3) by (cases "Q' r") simp_all
qed

lemma count_done:
  assumes "count_inv lost seg ks lc dn bts (a, b, c, d, u)" and "batch_inv ks dn bts"
    and r: "r < length ks" "\<not> dn ! r"
  shows "count_inv lost seg ks lc (dn[r := True]) (complete_batch (ks ! r) res bts)
    (a, b + 1, if res_success res then c + 1 else c, if res_success res then d else d + 1, u)"
proof -
  let ?bts = "complete_batch (ks ! r) res bts"
  have len: "length dn = length ks" using assms(2) by (simp add: batch_inv_def)
  note at = batch_done(2,3) [OF assms(2) r, where res = res]
  have "card {k. k < length ks \<and> dn[r := True] ! k} = card {k. k < length ks \<and> dn ! k} + 1"
    using card_insert_done [OF r(1) len r(2), of "\<lambda>_. True" "\<lambda>_. True"] by simp
  moreover have "card {k. k < length ks \<and> dn[r := True] ! k \<and> res_success (result_at ks ?bts k)} =
      card {k. k < length ks \<and> dn ! k \<and> res_success (result_at ks bts k)} +
      (if res_success res then 1 else 0)"
    using card_insert_done [OF r(1) len r(2), of "\<lambda>k. res_success (result_at ks ?bts k)"
        "\<lambda>k. res_success (result_at ks bts k)"] at by simp
  moreover have "card {k. k < length ks \<and> dn[r := True] ! k \<and> \<not> res_success (result_at ks ?bts k)} =
      card {k. k < length ks \<and> dn ! k \<and> \<not> res_success (result_at ks bts k)} +
      (if res_success res then 0 else 1)"
    using card_insert_done [OF r(1) len r(2), of "\<lambda>k. \<not> res_success (result_at ks ?bts k)"
        "\<lambda>k. \<not> res_success (result_at ks bts k)"] at by simp
  ultimately show ?thesis using assms(1) by (simp add: count_inv_def)
qed

section \<open>The invariant of a state\<close>

text \<open>
  \<open>rs\<close> are the requests a handler is working on, \<open>H\<close> those among them that hold a buffer.
\<close>

definition io_inv :: "nat \<Rightarrow> nat set \<Rightarrow> nat list \<Rightarrow> 'd spdk_state \<Rightarrow> bool" where
  "io_inv lost H rs s \<longleftrightarrow>
     place_inv rs (request_keys s) (worker_keys s) (done_col s) (pending_col s) (st_queue s)
       (st_waiting s) (st_in_flight s) \<and>
     lease_inv H (request_keys s) (lease_col s) (pool_col s) (st_in_flight s) \<and>
     batch_inv (request_keys s) (done_col s) (st_batches s) \<and>
     count_inv lost (io_segment_size (fst (context_key s))) (request_keys s) (lease_col s)
       (done_col s) (st_batches s) (io_counts (bc_metrics s))"

lemma geometry_key: "fst (context_key s) = bc_geometry s"
  by (simp add: context_key_def)

lemma io_inv_running:
  assumes "io_inv lost H (r # rs) s"
  shows "r < length (st_requests s)" and "\<not> done_col s ! r" and "\<not> rq_completed (req s r)"
    and "rq_worker (req s r) < length (bc_io_workers s)"
    and "r \<notin> bio_request ` set (st_in_flight s)"
    and "request_keys s ! r = request_key (req s r)"
    and "lease_col s ! r = rq_buffer_index (req s r)"
proof -
  have p: "place_inv (r # rs) (request_keys s) (worker_keys s) (done_col s) (pending_col s)
      (st_queue s) (st_waiting s) (st_in_flight s)"
    using assms by (simp add: io_inv_def)
  note run = place_running [OF p]
  show r: "r < length (st_requests s)" using run(1) by simp
  show "request_keys s ! r = request_key (req s r)" "lease_col s ! r = rq_buffer_index (req s r)"
    using r by (simp_all add: column_nth)
  show "\<not> done_col s ! r" by (rule run(2))
  then show "\<not> rq_completed (req s r)" using r by (simp add: column_nth)
  show "rq_worker (req s r) < length (bc_io_workers s)" using run(3) r by (simp add: column_nth)
  show "r \<notin> bio_request ` set (st_in_flight s)" by (rule run(4))
qed

lemma complete_request_batches:
  "st_batches (complete_request r ok msg s) =
     (if rq_completed (req s r) then st_batches s
      else complete_batch (request_key (req s r)) \<lparr>res_success = ok, res_error = msg\<rparr> (st_batches s))"
  by (simp add: complete_request_def Let_def complete_batch_def io_views)

lemma complete_request_counts:
  "\<not> rq_completed (req s r) \<Longrightarrow> io_counts (bc_metrics s) = (a, b, c, d, u) \<Longrightarrow>
     io_counts (bc_metrics (complete_request r ok msg s)) =
       (a, b + 1, if ok then c + 1 else c, if ok then d else d + 1, u)"
  by (simp add: complete_request_def Let_def io_views io_counts_def)

lemma io_inv_done:
  assumes "io_inv lost {} (r # rs) s"
  shows "io_inv lost {} rs (complete_request r ok msg s)"
proof -
  note run = io_inv_running [OF assms]
  have inv: "place_inv (r # rs) (request_keys s) (worker_keys s) (done_col s) (pending_col s)
      (st_queue s) (st_waiting s) (st_in_flight s)"
    "batch_inv (request_keys s) (done_col s) (st_batches s)"
    "count_inv lost (io_segment_size (fst (context_key s))) (request_keys s) (lease_col s)
       (done_col s) (st_batches s) (io_counts (bc_metrics s))"
    using assms by (simp_all add: io_inv_def)
  have r: "r < length (request_keys s)" using run(1) by simp
  let ?res = "\<lparr>res_success = ok, res_error = msg\<rparr>"
  obtain a b c d u where m: "io_counts (bc_metrics s) = (a, b, c, d, u)" by (metis prod_cases5)
  show ?thesis
    using assms place_done [OF inv(1)] batch_done(1) [OF inv(2) r run(2), of ?res]
      count_done [OF inv(3) [unfolded m] inv(2) r run(2), of ?res] run(3,6)
    by (simp add: io_inv_def io_views complete_request_batches complete_request_counts [OF run(3) m])
qed

lemma release_buffer_effect:
  assumes "rq_buffer_index (req s r) = Some i"
    and "pool_release i (wk_buffer_pool (wkr s (rq_worker (req s r)))) = (Inr (), p)"
  shows "pool_col (release_buffer r s) = (pool_col s)[rq_worker (req s r) := p]"
    and "io_counts (bc_metrics s) = (a, b, c, d, u) \<Longrightarrow>
      io_counts (bc_metrics (release_buffer r s)) = (a, b, c, d, u - io_segment_size (bc_geometry s))"
  using assms by (simp_all add: release_buffer_def Let_def io_views io_counts_def)

lemma io_inv_release:
  assumes "io_inv lost (insert r H) (r # rs) s" and "r \<notin> H"
  shows "io_inv lost H (r # rs) (release_buffer r s)"
    and "pool_available (pool_col (release_buffer r s) ! rq_worker (req s r)) =
      Suc (pool_available (pool_col s ! rq_worker (req s r)))"
    and "v \<noteq> rq_worker (req s r) \<Longrightarrow> pool_col (release_buffer r s) ! v = pool_col s ! v"
proof -
  note run = io_inv_running [OF assms(1)]
  let ?w = "rq_worker (req s r)"
  have l: "lease_inv (insert r H) (request_keys s) (lease_col s) (pool_col s) (st_in_flight s)"
    and c: "count_inv lost (io_segment_size (bc_geometry s)) (request_keys s) (lease_col s)
       (done_col s) (st_batches s) (io_counts (bc_metrics s))"
    using assms(1) by (simp_all add: io_inv_def geometry_key)
  obtain i p where ip: "lease_col s ! r = Some i" "pool_release i (pool_col s ! ?w) = (Inr (), p)"
    "lease_inv H (request_keys s) ((lease_col s)[r := None]) ((pool_col s)[?w := p]) (st_in_flight s)"
    "pool_available p = Suc (pool_available (pool_col s ! ?w))"
    using lease_give_back [OF l assms(2) run(5), of ?w] run(6) by (metis key_simps(1))
  have e: "rq_buffer_index (req s r) = Some i" "pool_release i (wk_buffer_pool (wkr s ?w)) = (Inr (), p)"
    using ip run by (simp_all add: column_nth)
  obtain a b c' d u where m: "io_counts (bc_metrics s) = (a, b, c', d, u)" by (metis prod_cases5)
  note eff = release_buffer_effect(1) [OF e] release_buffer_effect(2) [OF e m]
  show "io_inv lost H (r # rs) (release_buffer r s)"
    using assms(1) ip(3) count_give_back [OF c [unfolded m] _ _ ip(1)] run(1)
    by (simp add: io_inv_def io_views eff geometry_key)
  show "pool_available (pool_col (release_buffer r s) ! ?w) =
      Suc (pool_available (pool_col s ! ?w))"
    using ip(4) run(4) by (simp add: eff)
  show "v \<noteq> ?w \<Longrightarrow> pool_col (release_buffer r s) ! v = pool_col s ! v"
    by (simp add: eff)
qed

end
