(* ===== verification/Bdev_Events.thy ===== *)
theory Bdev_Events
  imports Bdev_Invariant
begin

text \<open>
  The handlers of the I/O path keep the invariant, the events that run them, and the
  properties of any sequence of events: every request is completed once, the buffers in use
  are those in flight, no request is left waiting for a buffer while one is free.
\<close>

section \<open>Stages\<close>

lemma io_inv_frame [simp]:
  "io_inv lost H rs (note_start env r s) = io_inv lost H rs s"
  "io_inv lost H rs (stage_write r buf s) = io_inv lost H rs s"
  "io_inv lost H rs (emit_io_event r ph cb s) = io_inv lost H rs s"
  "io_inv lost H rs (count_submitted r s) = io_inv lost H rs s"
  "io_inv lost H rs (s\<lparr>st_world := d\<rparr>) = io_inv lost H rs s"
  "io_inv lost H rs (s\<lparr>st_memory := m\<rparr>) = io_inv lost H rs s"
  "io_inv lost H rs (s\<lparr>st_dma := dm\<rparr>) = io_inv lost H rs s"
  by (simp_all add: io_inv_def io_views)

lemma io_inv_upd_request:
  assumes "\<And>q. request_key (f q) = request_key q" "\<And>q. rq_buffer_index (f q) = rq_buffer_index q"
    "\<And>q. rq_completed (f q) = rq_completed q"
  shows "io_inv lost H rs (upd_request r f s) = io_inv lost H rs s"
  using assms by (simp add: io_inv_def io_views)

lemma io_inv_upd_metrics:
  assumes "\<And>m. io_counts (f m) = io_counts m"
  shows "io_inv lost H rs (upd_metrics f s) = io_inv lost H rs s"
  using assms by (simp add: io_inv_def io_views)

lemma note_lease_counts:
  "io_counts (bc_metrics s) = (a, b, c, d, u) \<Longrightarrow>
     io_counts (bc_metrics (note_lease env r i s)) = (a, b, c, d, u + io_segment_size (bc_geometry s))"
  by (simp add: note_lease_def Let_def io_views case_prod_unfold geometry_key [symmetric]
      split: option.split) (simp add: io_counts_def)

lemma io_inv_lease:
  assumes inv: "io_inv lost {} (r # rs) s" and w: "w = rq_worker (req s r)"
    and acq: "pool_try_acquire (pool_col s ! w) = (Inr (Some i), p)"
  shows "io_inv lost {r} (r # rs) (note_lease env r i (upd_worker w (wk_buffer_pool_update (\<lambda>_. p)) s))"
    and "pool_data p i = Inr (pool_buffers (pool_col s ! w) ! i)"
    and "i < length (pool_buffers (pool_col s ! w))"
proof -
  note run = io_inv_running [OF inv]
  have l: "lease_inv {} (request_keys s) (lease_col s) (pool_col s) (st_in_flight s)"
    and c: "count_inv lost (io_segment_size (bc_geometry s)) (request_keys s) (lease_col s)
       (done_col s) (st_batches s) (io_counts (bc_metrics s))"
    using inv by (simp_all add: io_inv_def geometry_key)
  have r: "r < length (request_keys s)" and kw: "w = key_worker (request_keys s ! r)"
    using run w by simp_all
  have free: "lease_col s ! r = None"
    using l run(1,5) by (auto simp: lease_inv_def)
  note la = lease_acquire [OF l r free kw acq]
  show "pool_data p i = Inr (pool_buffers (pool_col s ! w) ! i)"
    and "i < length (pool_buffers (pool_col s ! w))" by (rule la(2,3))+
  let ?s1 = "upd_worker w (wk_buffer_pool_update (\<lambda>_. p)) s"
  have g: "bc_geometry ?s1 = bc_geometry s" by (simp add: upd_worker_def)
  obtain a b c' d u where m: "io_counts (bc_metrics s) = (a, b, c', d, u)" by (metis prod_cases5)
  show "io_inv lost {r} (r # rs) (note_lease env r i ?s1)"
    using inv la(1) count_lease [OF c [unfolded m] r _ free, of i]
      note_lease_counts [of ?s1, unfolded io_views, OF m]
    by (simp add: io_inv_def io_views geometry_key g)
qed

lemma io_inv_waiting:
  "io_inv lost {} (r # rs) s \<Longrightarrow> io_inv lost {} rs (s\<lparr>st_waiting := st_waiting s @ [r]\<rparr>)"
  by (simp add: io_inv_def io_views place_wait)

lemma io_inv_send:
  assumes "io_inv lost {} (msg_requests m @ rs) s" and "w < length (bc_io_workers s)"
    and "t = wk_thread (wkr s w)" and "\<forall>r\<in>set (msg_requests m). rq_worker (req s r) = w"
    and "\<forall>r\<in>set (msg_requests m). r < length (st_requests s)"
  shows "io_inv lost {} rs (s\<lparr>st_queue := (st_queue s)(t := st_queue s t @ [m])\<rparr>)"
proof -
  have "t = key_thread (worker_keys s ! w)" using assms(2,3) by (simp add: column_nth)
  moreover have "\<forall>r\<in>set (msg_requests m). key_worker (request_keys s ! r) = w"
    using assms(4,5) by (simp add: column_nth)
  ultimately show ?thesis
    using assms(1,2) place_send [of m rs "request_keys s" "worker_keys s" "done_col s"
        "pending_col s" "st_queue s" "st_waiting s" "st_in_flight s" w t]
    by (simp add: io_inv_def io_views)
qed

lemma thread_send_msg_inv:
  assumes "io_inv lost {} (msg_requests m @ rs) s" and "w < length (bc_io_workers s)"
    and "t = wk_thread (wkr s w)" and "\<forall>r\<in>set (msg_requests m). rq_worker (req s r) = w"
    and "\<forall>r\<in>set (msg_requests m). r < length (st_requests s)"
    and sent: "thread_send_msg env t m s = (code, s')"
  shows "if code = 0 then io_inv lost {} rs s' else io_inv lost {} (msg_requests m @ rs) s'"
    and "pool_col s' = pool_col s" "pending_col s' = pending_col s" "request_keys s' = request_keys s"
    "done_col s' = done_col s" "worker_keys s' = worker_keys s" "st_batches s' = st_batches s"
proof -
  obtain d where d: "se_send_msg env t (st_world s) = (code, d)"
    using sent by (auto simp: thread_send_msg_def split: prod.splits)
  let ?s1 = "s\<lparr>st_world := d\<rparr>"
  have s': "s' = (if code = 0
      then ?s1\<lparr>st_queue := (st_queue ?s1)(t := st_queue ?s1 t @ [m])\<rparr> else ?s1)"
    using sent by (auto simp: thread_send_msg_def d)
  have "io_inv lost {} (msg_requests m @ rs) ?s1" using assms(1) by simp
  from io_inv_send [OF this, of w t] assms(2-5)
  have "io_inv lost {} rs (?s1\<lparr>st_queue := (st_queue ?s1)(t := st_queue ?s1 t @ [m])\<rparr>)" by simp
  with assms(1)
  show "if code = 0 then io_inv lost {} rs s' else io_inv lost {} (msg_requests m @ rs) s'"
    by (simp add: s')
  show "pool_col s' = pool_col s" "pending_col s' = pending_col s" "request_keys s' = request_keys s"
    "done_col s' = done_col s" "worker_keys s' = worker_keys s" "st_batches s' = st_batches s"
    by (simp_all add: s' io_views)
qed

lemma io_inv_park:
  assumes "io_inv lost {} (r # rs) s"
  shows "io_inv lost {} rs (park_request env r s)"
proof -
  note run = io_inv_running [OF assms]
  have "place_inv rs (request_keys s) (worker_keys s) (done_col s)
      ((pending_col s)[rq_worker (req s r) := pending_col s ! rq_worker (req s r) @ [r]])
      (st_queue s) (st_waiting s) (st_in_flight s)"
    using assms run(6) by (intro place_park [of r]) (simp_all add: io_inv_def)
  then show ?thesis
    using assms run(4)
    by (simp add: io_inv_def io_views park_request_pending Let_def column_nth)
qed

lemma submit_blocks_effect:
  assumes "se_submit env (bdev_io_of (bc_geometry s) r (req s r) buf) (st_world s) = (rc, d)"
  shows "st_in_flight (snd (submit_blocks env r buf s)) =
      st_in_flight s @ (if rc = 0 then [bdev_io_of (bc_geometry s) r (req s r) buf] else [])"
    and "fst (submit_blocks env r buf s) = rc"
    and "st_world (snd (submit_blocks env r buf s)) = d"
  using assms by (simp_all add: submit_blocks_def Let_def io_views)

lemma io_inv_submit:
  assumes inv: "io_inv lost {r} (r # rs) s"
    and buf: "rq_buffer_index (req s r) = Some i" "pool_col s ! rq_worker (req s r) = p"
      "i < length (pool_buffers p)" "buf = pool_buffers p ! i"
    and sub: "se_submit env (bdev_io_of (bc_geometry s) r (req s r) buf) (st_world s) = (rc, d)"
  shows "if rc = 0 then io_inv lost {} rs (snd (submit_blocks env r buf s))
    else io_inv lost {r} (r # rs) (snd (submit_blocks env r buf s))"
proof -
  note run = io_inv_running [OF inv] and eff = submit_blocks_effect [OF sub]
  show ?thesis
  proof (cases "rc = 0")
    case False
    then show ?thesis using inv by (simp add: io_inv_def io_views eff)
  next
    case True
    let ?io = "bdev_io_of (bc_geometry s) r (req s r) buf"
    have ok: "bio_ok (request_keys s) (lease_col s) (pool_col s) ?io"
      using run buf by (simp add: bio_ok_def Let_def bdev_io_of_def)
    have "lease_inv {} (request_keys s) (lease_col s) (pool_col s) (st_in_flight s @ [?io])"
      using inv ok by (intro lease_accept [of r]) (simp_all add: io_inv_def bdev_io_of_def)
    moreover have "place_inv rs (request_keys s) (worker_keys s) (done_col s) (pending_col s)
        (st_queue s) (st_waiting s) (st_in_flight s @ [?io])"
      using inv by (intro place_accept [of r]) (simp_all add: io_inv_def bdev_io_of_def)
    ultimately show ?thesis using inv True by (simp add: io_inv_def io_views eff)
  qed
qed

section \<open>Handlers\<close>

text \<open>
  A worker is quiet when nothing waits in its FIFO or no buffer is free: then there is nothing
  to drain. A handler of worker \<open>w\<close> leaves the pools and FIFOs of the others alone.
\<close>

definition quiet :: "'d spdk_state \<Rightarrow> nat \<Rightarrow> bool" where
  "quiet s w \<longleftrightarrow> pending_col s ! w = [] \<or> pool_available (pool_col s ! w) = 0"

text \<open>What is done stays done, with the result it was given.\<close>

definition kept :: "'d spdk_state \<Rightarrow> 'd spdk_state \<Rightarrow> bool" where
  "kept s s' \<longleftrightarrow> request_keys s' = request_keys s \<and>
     map (\<lambda>b. length (bt_results b)) (st_batches s') = map (\<lambda>b. length (bt_results b)) (st_batches s) \<and>
     (\<forall>r<length (st_requests s). done_col s ! r \<longrightarrow> done_col s' ! r \<and>
        result_at (request_keys s) (st_batches s') r = result_at (request_keys s) (st_batches s) r)"

lemma kept_refl [io_views]: "request_keys s' = request_keys s \<Longrightarrow> done_col s' = done_col s \<Longrightarrow>
    st_batches s' = st_batches s \<Longrightarrow> kept s s'"
  by (simp add: kept_def)

lemma kept_trans: "kept s s' \<Longrightarrow> kept s' s'' \<Longrightarrow> kept s s''"
  by (auto simp: kept_def dest: length_requests_eq)

lemma kept_done:
  assumes "io_inv lost {} (r # rs) s"
  shows "kept s (complete_request r ok msg s)"
proof -
  note run = io_inv_running [OF assms]
  have b: "batch_inv (request_keys s) (done_col s) (st_batches s)"
    using assms by (simp add: io_inv_def)
  have r: "r < length (request_keys s)" using run(1) by simp
  have "done_col (complete_request r ok msg s) ! k \<and>
      result_at (request_keys s) (st_batches (complete_request r ok msg s)) k =
      result_at (request_keys s) (st_batches s) k"
    if "k < length (st_requests s)" "done_col s ! k" for k
    using that batch_done(3) [OF b r run(2), of k] run
    by (auto simp: io_views complete_request_batches nth_list_update)
  moreover have "map (\<lambda>b. length (bt_results b)) (complete_batch k res bts) =
      map (\<lambda>b. length (bt_results b)) bts" for k res bts
    by (simp add: complete_batch_def map_update list_update_same_conv list_update_beyond
        linorder_not_less split: if_splits)
      (metis (no_types, lifting) linorder_not_less list_update_beyond list_update_id map_update)
  ultimately show ?thesis by (simp add: kept_def io_views complete_request_batches)
qed

definition others_same :: "nat \<Rightarrow> 'd spdk_state \<Rightarrow> 'd spdk_state \<Rightarrow> bool" where
  "others_same w s s' \<longleftrightarrow> kept s s' \<and>
     (\<forall>v. v \<noteq> w \<longrightarrow> pool_col s' ! v = pool_col s ! v \<and> pending_col s' ! v = pending_col s ! v)"

lemma others_same_trans: "others_same w s s' \<Longrightarrow> others_same w s' s'' \<Longrightarrow> others_same w s s''"
  unfolding others_same_def using kept_trans by metis

lemma others_same_refl [simp]: "others_same w s s"
  by (simp add: others_same_def kept_refl)

lemma release_and_complete:
  assumes "io_inv lost {r} (r # rs) s"
  shows "io_inv lost {} rs (complete_request r ok msg (release_buffer r s))"
    and "others_same (rq_worker (req s r)) s (complete_request r ok msg (release_buffer r s))"
proof -
  have inv: "io_inv lost (insert r {}) (r # rs) s" using assms by simp
  show "io_inv lost {} rs (complete_request r ok msg (release_buffer r s))"
    by (rule io_inv_done [OF io_inv_release(1) [OF inv]]) simp
  show "others_same (rq_worker (req s r)) s (complete_request r ok msg (release_buffer r s))"
    using io_inv_release(3) [OF inv] kept_trans [OF _ kept_done [OF io_inv_release(1) [OF inv]]]
    by (simp add: others_same_def io_views kept_refl)
qed

lemma wait_for_queue_inv:
  assumes "io_inv lost {r} (r # rs) s"
  shows "io_inv lost {} rs (fst (wait_for_queue env r s))"
    and "others_same (rq_worker (req s r)) s (fst (wait_for_queue env r s))"
proof -
  have inv: "io_inv lost (insert r {}) (r # rs) s" using assms by simp
  note run = io_inv_running [OF assms]
  let ?s1 = "upd_metrics (\<lambda>m. m\<lparr>m_queue_retries := m_queue_retries m + 1\<rparr>)
    (upd_request r (\<lambda>q. q\<lparr>rq_retry_count := rq_retry_count q + 1\<rparr>) (release_buffer r s))"
  obtain t s2 where now: "clock_now env ?s1 = (t, s2)" by fastforce
  let ?s3 = "upd_request r (rq_retry_wait_started_at_update (\<lambda>_. Some t)) s2"
  obtain wr d where qw: "se_queue_wait env r (st_world ?s3) = (wr, d)" by fastforce
  let ?s4 = "?s3\<lparr>st_world := d\<rparr>"
  have s2: "s2 = ?s1\<lparr>st_world := snd (se_now env (st_world ?s1))\<rparr>"
    using clock_now_frame [of env ?s1] by (simp add: now)
  have i4: "io_inv lost {} (r # rs) ?s4"
    using io_inv_release(1) [OF inv] by (simp add: s2 io_inv_upd_request io_inv_upd_metrics)
  have p4: "pool_col ?s4 = pool_col (release_buffer r s)" "pending_col ?s4 = pending_col s"
    and k4: "request_keys ?s4 = request_keys s"
    by (simp_all add: s2 io_views)
  have o4: "others_same (rq_worker (req s r)) s ?s4"
    using io_inv_release(3) [OF inv] p4 by (simp add: others_same_def s2 io_views)
  let ?w = "rq_worker (req ?s4 r)" and ?t = "wk_thread (wkr ?s4 (rq_worker (req ?s4 r)))"
  obtain sent s5 where send: "thread_send_msg env ?t (Msg_retry r) ?s4 = (sent, s5)" by fastforce
  note run4 = io_inv_running [OF i4]
  have i5: "if sent = 0 then io_inv lost {} rs s5 else io_inv lost {} (r # rs) s5"
    and p5: "pool_col s5 = pool_col ?s4" "pending_col s5 = pending_col ?s4"
      "request_keys s5 = request_keys ?s4" "done_col s5 = done_col ?s4" "st_batches s5 = st_batches ?s4"
    using thread_send_msg_inv [of lost "Msg_retry r" rs ?s4 ?w ?t, OF _ run4(4) refl _ _ send]
      i4 run4(1) by (cases "sent = 0"; simp)+
  let ?fail = "\<lambda>s. complete_request r False
    (spdk_error (se_host env) ''queueing SPDK bdev I/O wait'' wr) s"
  have res: "fst (wait_for_queue env r s) =
      (if wr = 0 then ?s4\<lparr>st_waiting := st_waiting ?s4 @ [r]\<rparr>
       else if wr = -22 then (if sent = 0 then s5 else ?fail s5) else ?fail ?s4)"
    using send by (simp add: wait_for_queue_def Let_def now qw)
  show "io_inv lost {} rs (fst (wait_for_queue env r s))"
    unfolding res using i4 i5 io_inv_waiting [OF i4] by (auto intro: io_inv_done)
  have "pool_col (fst (wait_for_queue env r s)) = pool_col ?s4"
    unfolding res by (simp add: io_views p5)
  moreover have "kept ?s4 s5" using p5 by (intro kept_refl)
  then have "kept ?s4 (fst (wait_for_queue env r s))"
    unfolding res using kept_done [OF i4] kept_trans [of ?s4 s5] kept_done [of lost r rs s5] i5
    by (auto intro: kept_refl simp: io_views)
  then have "kept s (fst (wait_for_queue env r s))"
    using o4 kept_trans unfolding others_same_def by blast
  ultimately show "others_same (rq_worker (req s r)) s (fst (wait_for_queue env r s))"
    using o4 by (simp add: others_same_def io_views p4(2))
qed

lemma submit_staged_inv:
  assumes inv: "io_inv lost {r} (r # rs) s"
    and buf: "rq_buffer_index (req s r) = Some i" "pool_col s ! rq_worker (req s r) = p"
      "i < length (pool_buffers p)" "buf = pool_buffers p ! i"
  shows "io_inv lost {} rs (fst (submit_staged env r buf s))"
    and "others_same (rq_worker (req s r)) s (fst (submit_staged env r buf s))"
proof -
  note run = io_inv_running [OF inv]
  let ?s0 = "stage_write r buf s"
  have r0: "req ?s0 r = req s r" "bc_geometry ?s0 = bc_geometry s" "st_requests ?s0 = st_requests s"
    by (simp_all add: stage_write_def Let_def)
  obtain rc d where sub:
    "se_submit env (bdev_io_of (bc_geometry ?s0) r (req ?s0 r) buf) (st_world ?s0) = (rc, d)"
    by fastforce
  let ?s1 = "snd (submit_blocks env r buf ?s0)"
  let ?s2 = "emit_io_event r ''submit'' None ?s1"
  have i0: "io_inv lost {r} (r # rs) ?s0" using inv by simp
  have i1: "if rc = 0 then io_inv lost {} rs ?s1 else io_inv lost {r} (r # rs) ?s1"
    by (rule io_inv_submit [OF i0 _ _ _ _ sub]) (use buf r0 in \<open>simp_all add: io_views\<close>)
  then have i2: "if rc = 0 then io_inv lost {} rs ?s2 else io_inv lost {r} (r # rs) ?s2" by simp
  have rc: "fst (submit_blocks env r buf ?s0) = rc" by (rule submit_blocks_effect(2) [OF sub])
  have k2: "request_keys ?s2 = request_keys s" "pool_col ?s2 = pool_col s"
    "pending_col ?s2 = pending_col s" by (simp_all add: io_views)
  have w2: "rq_worker (req ?s2 r) = rq_worker (req s r)"
    using request_key_eq [OF k2(1) run(1)] by (simp add: request_key_def)
  have o2: "others_same (rq_worker (req s r)) s ?s2" by (simp add: others_same_def io_views)
  let ?msg = "spdk_error (se_host env) ''submitting SPDK bdev I/O'' rc"
  have res: "fst (submit_staged env r buf s) =
      (if rc = -12 then fst (wait_for_queue env r ?s2)
       else if rc \<noteq> 0 then complete_request r False ?msg (release_buffer r ?s2)
       else count_submitted r ?s2)"
    by (simp add: submit_staged_def Let_def rc case_prod_unfold)
  consider "rc = 0" | "rc = -12" | "rc \<noteq> 0" "rc \<noteq> -12" by blast
  then show "io_inv lost {} rs (fst (submit_staged env r buf s))"
    using i2 by cases (simp_all add: res wait_for_queue_inv release_and_complete)
  consider "rc = 0" | "rc = -12" | "rc \<noteq> 0" "rc \<noteq> -12" by blast
  then show "others_same (rq_worker (req s r)) s (fst (submit_staged env r buf s))"
  proof cases
    case 1
    then have "fst (submit_staged env r buf s) = count_submitted r ?s2" by (simp add: res)
    then show ?thesis using o2 by (simp add: others_same_def io_views)
  next
    case 2
    then have "io_inv lost {r} (r # rs) ?s2" using i2 by simp
    from wait_for_queue_inv(2) [OF this] 2 o2 show ?thesis
      unfolding res w2 by (auto intro: others_same_trans)
  next
    case 3
    then have "io_inv lost {r} (r # rs) ?s2" using i2 by simp
    from release_and_complete(2) [OF this] 3 o2 show ?thesis
      unfolding res w2 by (auto intro: others_same_trans)
  qed
qed

lemma execute_body_inv:
  fixes env and s :: "'d spdk_state"
  assumes inv: "io_inv lost {} (r # rs) s" and cur: "cur = wk_thread (wkr s (rq_worker (req s r)))"
  shows "io_inv lost {} rs (fst (execute_body env cur r s))"
    and "others_same (rq_worker (req s r)) s (fst (execute_body env cur r s))"
    and "\<not> snd (execute_body env cur r s) \<Longrightarrow> quiet s (rq_worker (req s r)) \<Longrightarrow>
      quiet (fst (execute_body env cur r s)) (rq_worker (req s r))"
proof -
  note run = io_inv_running [OF inv]
  let ?w = "rq_worker (req s r)"
  let ?s1 = "note_start env r s"
  have pools1: "pool_col ?s1 = pool_col s" by (simp add: io_views)
  have len1: "length (bc_io_workers ?s1) = length (bc_io_workers s)"
    by (rule length_workers_eq) (simp add: io_views)
  have pw: "wk_buffer_pool (wkr ?s1 ?w) = pool_col s ! ?w"
    using run(4) pools1 len1 by (metis column_nth(5))
  obtain acq p where acq: "pool_try_acquire (pool_col s ! ?w) = (acq, p)" by fastforce
  let ?s2 = "upd_worker ?w (wk_buffer_pool_update (\<lambda>_. p)) ?s1"
  have ok: "pool_inv (pool_col s ! ?w)" "pool_initialized (pool_col s ! ?w)"
    using inv run(4) by (auto simp: io_inv_def lease_inv_def leases.table_ok_def pool_ok_def)
  have body: "execute_body env cur r s =
      (case acq of Inl e \<Rightarrow> fail_execute r (what e) ?s2
       | Inr None \<Rightarrow> (park_request env r ?s2, False)
       | Inr (Some i) \<Rightarrow>
           let s3 = note_lease env r i ?s2
           in case pool_data (wk_buffer_pool (wkr s3 ?w)) i of
                Inl e \<Rightarrow> fail_execute r (what e) s3
              | Inr buf \<Rightarrow> submit_staged env r buf s3)"
    using cur by (simp add: execute_body_def Let_def pw acq)
  have "acq \<noteq> Inl e" for e using pool_try_acquire_error [OF ok] acq by (metis fst_conv)
  then obtain a where a: "acq = Inr a" by (cases acq) auto
  have "io_inv lost {} rs (fst (execute_body env cur r s)) \<and>
    others_same ?w s (fst (execute_body env cur r s)) \<and>
    (\<not> snd (execute_body env cur r s) \<longrightarrow> quiet s ?w \<longrightarrow> quiet (fst (execute_body env cur r s)) ?w)"
  proof (cases a)
    case None
    have p: "p = pool_col s ! ?w" "pool_available p = 0"
      using acq a None by (simp_all add: pool_try_acquire_None)
    have same: "pool_col ?s2 = pool_col s" "pending_col ?s2 = pending_col s"
      by (simp_all add: io_views p)
    have i2: "io_inv lost {} (r # rs) ?s2"
      using inv p by (simp add: io_inv_def io_views)
    have w2: "rq_worker (req ?s2 r) = ?w" by (simp add: io_views note_start_worker)
    have "quiet (park_request env r ?s2) ?w"
      using p same run(4) by (simp add: quiet_def io_views)
    moreover have "others_same ?w s (park_request env r ?s2)"
      using same by (simp add: others_same_def io_views park_request_pending Let_def w2 note_start_worker)
    ultimately show ?thesis using io_inv_park [OF i2] by (simp add: body a None)
  next
    case (Some i)
    have i1: "io_inv lost {} (r # rs) ?s1" using inv by simp
    have w1: "?w = rq_worker (req ?s1 r)" by (simp add: note_start_worker)
    have acq1: "pool_try_acquire (pool_col ?s1 ! ?w) = (Inr (Some i), p)"
      using acq a Some by (simp add: pools1)
    let ?s3 = "note_lease env r i ?s2"
    note lease = io_inv_lease(1) [OF i1 w1 acq1, where env = env] io_inv_lease(2,3) [OF i1 w1 acq1]
    have k3: "request_keys ?s3 = request_keys s" "pool_col ?s3 = (pool_col s)[?w := p]"
      "pending_col ?s3 = pending_col s" "lease_col ?s3 = (lease_col s)[r := Some i]"
      "worker_keys ?s3 = worker_keys s"
      by (simp_all add: io_views)
    have w3: "rq_worker (req ?s3 r) = ?w"
      using request_key_eq [OF k3(1) run(1)] by (simp add: request_key_def)
    have len3: "length (bc_io_workers ?s3) = length (bc_io_workers s)"
      by (rule length_workers_eq [OF k3(5)])
    have p3: "wk_buffer_pool (wkr ?s3 ?w) = p" "pool_col ?s3 ! ?w = p"
      using run(4) k3(2) len3 by (metis column_nth(5) length_workers_eq nth_list_update_eq view_lengths(5))+
    have l3: "rq_buffer_index (req ?s3 r) = Some i"
      using k3(4) run(1) length_requests_eq [OF k3(1)]
      by (metis column_nth(2) nth_list_update_eq view_lengths(2))
    let ?buf = "pool_buffers (pool_col s ! ?w) ! i"
    have pb: "pool_buffers p = pool_buffers (pool_col s ! ?w)"
      using pool_buffers_acquire [of "pool_col s ! ?w"] by (simp add: acq)
    have b: "execute_body env cur r s = submit_staged env r ?buf ?s3"
      using lease(2) by (simp add: body a Some Let_def p3 pools1)
    note sub = submit_staged_inv [OF lease(1) l3, of p ?buf env]
    have i4: "io_inv lost {} rs (fst (submit_staged env r ?buf ?s3))"
      and o4: "others_same ?w ?s3 (fst (submit_staged env r ?buf ?s3))"
      using sub lease(3) by (simp_all add: w3 p3 pb pools1)
    have "others_same ?w s ?s3" by (simp add: others_same_def io_views)
    then have o: "others_same ?w s (fst (submit_staged env r ?buf ?s3))"
      using o4 by (rule others_same_trans)
    have "pool_available (pool_col s ! ?w) \<noteq> 0"
      using acq a Some by (auto simp: pool_try_acquire_def pool_available_def Let_def split: if_splits)
    then have "quiet s ?w \<Longrightarrow> pending_col s ! ?w = []" by (simp add: quiet_def)
    then have "quiet s ?w \<Longrightarrow> quiet (fst (submit_staged env r ?buf ?s3)) ?w"
      by (simp add: quiet_def io_views)
    with i4 o show ?thesis by (simp add: b)
  qed
  then show "io_inv lost {} rs (fst (execute_body env cur r s))"
    and "others_same ?w s (fst (execute_body env cur r s))"
    and "\<not> snd (execute_body env cur r s) \<Longrightarrow> quiet s ?w \<Longrightarrow>
      quiet (fst (execute_body env cur r s)) ?w" by simp_all
qed

text \<open>What a handler of worker \<open>w\<close> guarantees from the state it starts in.\<close>

definition handled :: "nat \<Rightarrow> 'd spdk_state \<Rightarrow> 'd spdk_state \<Rightarrow> bool" where
  "handled w s s' \<longleftrightarrow>
     others_same w s s' \<and> request_keys s' = request_keys s \<and> worker_keys s' = worker_keys s \<and>
     draining_col s' = draining_col s \<and> context_key s' = context_key s"

lemma handled_trans: "handled w s s' \<Longrightarrow> handled w s' s'' \<Longrightarrow> handled w s s''"
  unfolding handled_def using others_same_trans by metis

lemma handled_thread:
  assumes "handled w s s'" and "v < length (bc_io_workers s)"
  shows "wk_thread (wkr s' v) = wk_thread (wkr s v)"
    and "length (bc_io_workers s') = length (bc_io_workers s)"
proof -
  show l: "length (bc_io_workers s') = length (bc_io_workers s)"
    using assms(1) by (auto simp: handled_def intro: length_workers_eq)
  have "worker_keys s' ! v = worker_keys s ! v" using assms(1) by (simp add: handled_def)
  then show "wk_thread (wkr s' v) = wk_thread (wkr s v)"
    using assms(2) l by (simp add: column_nth worker_key_def)
qed

lemma handled_body:
  assumes "io_inv lost {} (r # rs) s" and "cur = wk_thread (wkr s (rq_worker (req s r)))"
  shows "handled (rq_worker (req s r)) s (fst (execute_body env cur r s))"
  using execute_body_inv(2) [OF assms] by (simp add: handled_def io_views)

lemma pop_pending_inv:
  assumes "io_inv lost {} rs s" and "drain_ready w s"
  shows "io_inv lost {} (hd (wk_pending_io (wkr s w)) # rs) (pop_pending w s)"
    and "rq_worker (req (pop_pending w s) (hd (wk_pending_io (wkr s w)))) = w"
    and "handled w s (pop_pending w s)"
proof -
  let ?r = "hd (wk_pending_io (wkr s w))"
  have w: "w < length (bc_io_workers s)" and p: "pending_col s ! w = ?r # tl (wk_pending_io (wkr s w))"
    using assms(2) by (simp_all add: drain_ready_def column_nth)
  have pl: "place_inv rs (request_keys s) (worker_keys s) (done_col s) (pending_col s)
      (st_queue s) (st_waiting s) (st_in_flight s)"
    using assms(1) by (simp add: io_inv_def)
  have wl: "w < length (worker_keys s)" using w by simp
  note pop = place_pop [OF pl wl p]
  show inv: "io_inv lost {} (?r # rs) (pop_pending w s)"
    using assms(1) pop(1) by (simp add: io_inv_def pop_pending_def io_views)
  have "request_keys (pop_pending w s) = request_keys s" by (simp add: pop_pending_def io_views)
  then show "rq_worker (req (pop_pending w s) ?r) = w"
    using pop(2) io_inv_running(6) [OF inv] by simp
  show "handled w s (pop_pending w s)"
    by (simp add: handled_def others_same_def pop_pending_def io_views)
qed

lemma drain_loop_inv:
  assumes "io_inv lost {} rs s" and "cur = wk_thread (wkr s w)" and "w < length (bc_io_workers s)"
  shows "io_inv lost {} rs (drain_loop env cur w s) \<and> handled w s (drain_loop env cur w s) \<and>
    quiet (drain_loop env cur w s) w"
  using assms
proof (induction env cur w s rule: drain_loop.induct)
  case (1 env cur w s)
  show ?case
  proof (cases "drain_ready w s")
    case False
    then have "quiet s w" using "1.prems"(3) by (simp add: drain_ready_def quiet_def column_nth)
    with False "1.prems"(1) show ?thesis
      by (simp add: drain_loop.simps handled_def)
  next
    case True
    let ?r = "hd (wk_pending_io (wkr s w))" and ?s1 = "pop_pending w s"
    let ?s2 = "fst (execute_body env cur ?r ?s1)"
    note pop = pop_pending_inv [OF "1.prems"(1) True]
    have cur: "cur = wk_thread (wkr ?s1 (rq_worker (req ?s1 ?r)))"
      using handled_thread(1) [OF pop(3) "1.prems"(3)] "1.prems"(2) by (simp add: pop(2))
    have h: "handled w s ?s2"
      using handled_trans [OF pop(3)] handled_body [OF pop(1) cur, of env] by (simp add: pop(2))
    have "io_inv lost {} rs (drain_loop env cur w ?s2) \<and> handled w ?s2 (drain_loop env cur w ?s2) \<and>
        quiet (drain_loop env cur w ?s2) w"
      using "1.IH" [OF True execute_body_inv(1) [OF pop(1) cur]] handled_thread [OF h "1.prems"(3)]
        "1.prems"(2,3) by simp
    moreover have "drain_loop env cur w s = drain_loop env cur w ?s2"
      using True by (subst drain_loop.simps) simp
    ultimately show ?thesis using handled_trans [OF h] by simp
  qed
qed

lemma set_draining_views:
  "io_inv lost H rs (set_draining w b s) = io_inv lost H rs s"
  "quiet (set_draining w b s) v = quiet s v"
  "worker_keys (set_draining w b s) = worker_keys s" "request_keys (set_draining w b s) = request_keys s"
  "pool_col (set_draining w b s) = pool_col s" "pending_col (set_draining w b s) = pending_col s"
  "draining_col (set_draining w b s) = (draining_col s)[w := b]"
  "context_key (set_draining w b s) = context_key s"
  "done_col (set_draining w b s) = done_col s" "st_batches (set_draining w b s) = st_batches s"
  "kept s (set_draining w b s)"
  by (simp_all add: set_draining_def io_inv_def quiet_def io_views)

lemma drain_pending_io_inv:
  assumes "io_inv lost {} rs s" and "cur = wk_thread (wkr s w)" and w: "w < length (bc_io_workers s)"
    and "\<not> draining_col s ! w"
  shows "io_inv lost {} rs (drain_pending_io env cur w s)"
    and "handled w s (drain_pending_io env cur w s)"
    and "quiet (drain_pending_io env cur w s) w"
proof -
  let ?s1 = "set_draining w True s" and ?s2 = "drain_loop env cur w (set_draining w True s)"
  have "wk_thread (wkr ?s1 w) = wk_thread (wkr s w)"
    using w by (simp add: set_draining_def upd_worker_def)
  moreover have "length (bc_io_workers ?s1) = length (bc_io_workers s)"
    by (simp add: set_draining_def io_views)
  ultimately have l: "io_inv lost {} rs ?s2" "handled w ?s1 ?s2" "quiet ?s2 w"
    using drain_loop_inv [of lost rs ?s1 cur w env] assms(1-3) by (simp_all add: set_draining_views)
  have d: "drain_pending_io env cur w s = set_draining w False ?s2"
    using assms(4) w by (simp add: drain_pending_io_def column_nth)
  show "io_inv lost {} rs (drain_pending_io env cur w s)" "quiet (drain_pending_io env cur w s) w"
    using l by (simp_all add: d set_draining_views)
  have "(draining_col s)[w := False] = draining_col s"
    using assms(4) w by (metis (full_types) list_update_id)
  moreover have "kept ?s1 ?s2" using l(2) by (simp add: handled_def others_same_def)
  from kept_trans [OF kept_trans [OF set_draining_views(11) this] set_draining_views(11)]
  have "kept s (set_draining w False ?s2)" .
  ultimately show "handled w s (drain_pending_io env cur w s)"
    using l(2) by (simp add: handled_def others_same_def d set_draining_views)
qed

lemma execute_io_inv:
  assumes inv: "io_inv lost {} (r # rs) s" and w: "w = rq_worker (req s r)"
    and cur: "cur = wk_thread (wkr s w)" and "quiet s w" and "\<not> draining_col s ! w"
  shows "io_inv lost {} rs (execute_io_on_worker env cur r s)"
    and "handled w s (execute_io_on_worker env cur r s)"
    and "quiet (execute_io_on_worker env cur r s) w"
proof -
  let ?s1 = "fst (execute_body env cur r s)"
  note run = io_inv_running [OF inv]
  have cur': "cur = wk_thread (wkr s (rq_worker (req s r)))" using cur w by simp
  note body = execute_body_inv [OF inv cur', of env]
  have h: "handled w s ?s1" using handled_body [OF inv cur'] by (simp add: w)
  have wl: "w < length (bc_io_workers s)" using run(4) by (simp add: w)
  have "io_inv lost {} rs (execute_io_on_worker env cur r s) \<and>
    handled w s (execute_io_on_worker env cur r s) \<and> quiet (execute_io_on_worker env cur r s) w"
  proof (cases "snd (execute_body env cur r s)")
    case False
    then have "execute_io_on_worker env cur r s = ?s1"
      by (simp add: execute_io_on_worker_def case_prod_unfold)
    with body h False assms(4) show ?thesis by (simp add: w)
  next
    case True
    then have "execute_io_on_worker env cur r s = drain_pending_io env cur w ?s1"
      by (simp add: execute_io_on_worker_def case_prod_unfold w)
    moreover have "cur = wk_thread (wkr ?s1 w)" using handled_thread(1) [OF h wl] cur by simp
    moreover have "\<not> draining_col ?s1 ! w" using h assms(5) by (simp add: handled_def)
    ultimately show ?thesis
      using drain_pending_io_inv [OF body(1), of cur w env] handled_thread(2) [OF h wl] wl
        handled_trans [OF h] by simp
  qed
  then show "io_inv lost {} rs (execute_io_on_worker env cur r s)"
    and "handled w s (execute_io_on_worker env cur r s)"
    and "quiet (execute_io_on_worker env cur r s) w" by simp_all
qed

lemma request_worker_handled:
  assumes "handled w s s'" and "r < length (st_requests s)"
  shows "rq_worker (req s' r) = rq_worker (req s r)"
  using request_key_eq [of s' s r] assms by (simp add: handled_def request_key_def)

lemma execute_worker_batch_inv:
  assumes "io_inv lost {} (xs @ rs) s" and "\<forall>r\<in>set xs. rq_worker (req s r) = w"
    and "cur = wk_thread (wkr s w)" and "quiet s w" and "\<not> draining_col s ! w"
    and "w < length (bc_io_workers s)" and "\<forall>r\<in>set xs. r < length (st_requests s)"
  shows "io_inv lost {} rs (execute_worker_batch env cur xs s) \<and>
    handled w s (execute_worker_batch env cur xs s) \<and> quiet (execute_worker_batch env cur xs s) w"
  using assms
proof (induction xs arbitrary: s)
  case Nil
  then show ?case by (simp add: handled_def)
next
  case (Cons r xs)
  let ?s1 = "execute_io_on_worker env cur r s"
  have "io_inv lost {} (r # (xs @ rs)) s" and wr: "w = rq_worker (req s r)"
    using Cons.prems(1,2) by simp_all
  note ex = execute_io_inv [OF this Cons.prems(3-5), of env]
  have ws: "\<forall>k\<in>set xs. rq_worker (req ?s1 k) = w"
    using Cons.prems(2,7) request_worker_handled [OF ex(2)] by simp
  have "length (st_requests ?s1) = length (st_requests s)"
    using ex(2) by (auto simp: handled_def intro: length_requests_eq)
  then have "io_inv lost {} rs (execute_worker_batch env cur xs ?s1) \<and>
    handled w ?s1 (execute_worker_batch env cur xs ?s1) \<and>
    quiet (execute_worker_batch env cur xs ?s1) w"
    using Cons.prems(3,5-7) ex ws handled_thread [OF ex(2) Cons.prems(6)]
    by (intro Cons.IH) (auto simp: handled_def)
  with handled_trans [OF ex(2)] show ?case by simp
qed

lemma complete_io_shape:
  "\<exists>ok msg m. complete_io_on_worker env cur r success s =
     drain_pending_io env cur (rq_worker (req s r)) (complete_request r ok msg (release_buffer r
       ((emit_io_event r ''callback'' (Some success) s)\<lparr>st_memory := m\<rparr>)))"
proof -
  let ?s1 = "emit_io_event r ''callback'' (Some success) s"
  let ?d = "pool_data (wk_buffer_pool (wkr ?s1 (rq_worker (req s r)))) (the (rq_buffer_index (req ?s1 r)))"
  have same: "?s1\<lparr>st_memory := st_memory ?s1\<rparr> = ?s1" by simp
  show ?thesis
  proof (cases "success \<and> rq_operation (req ?s1 r) = Op_read")
    case True
    then have success and read: "rq_operation (req ?s1 r) = Op_read" by (rule conjunct1, rule conjunct2)
    show ?thesis
    proof (cases ?d)
      case (Inl e)
      with \<open>success\<close> read show ?thesis
        by (intro exI [of _ False] exI [of _ "what e"] exI [of _ "st_memory ?s1"])
          (simp only: same, simp add: complete_io_on_worker_def Let_def)
    next
      case (Inr buf)
      with \<open>success\<close> read show ?thesis
        by (intro exI [of _ success] exI [of _ "[]"] exI)
          (simp add: complete_io_on_worker_def Let_def)
    qed
  next
    case False
    then have "complete_io_on_worker env cur r success s = drain_pending_io env cur
        (rq_worker (req s r)) (complete_request r success
          (if success then [] else ''SPDK bdev I/O failed'') (release_buffer r ?s1))"
      by (auto simp: complete_io_on_worker_def Let_def)
    then show ?thesis using same by metis
  qed
qed

lemma complete_io_inv:
  assumes inv: "io_inv lost {r} (r # rs) s" and w: "w = rq_worker (req s r)"
    and cur: "cur = wk_thread (wkr s w)" and "\<not> draining_col s ! w"
  shows "io_inv lost {} rs (complete_io_on_worker env cur r success s)"
    and "handled w s (complete_io_on_worker env cur r success s)"
    and "quiet (complete_io_on_worker env cur r success s) w"
    and "done_col (complete_io_on_worker env cur r success s) ! r"
proof -
  note run = io_inv_running [OF inv]
  let ?s1 = "emit_io_event r ''callback'' (Some success) s"
  have k1: "rq_worker (req ?s1 r) = w" by (simp add: io_views w)
  have wl: "w < length (bc_io_workers s)" using run(4) by (simp add: w)
  obtain ok msg m where s2: "complete_io_on_worker env cur r success s =
      drain_pending_io env cur w
        (complete_request r ok msg (release_buffer r (?s1\<lparr>st_memory := m\<rparr>)))"
    using complete_io_shape [of env cur r success s] unfolding w by blast
  let ?t = "?s1\<lparr>st_memory := m\<rparr>"
  let ?s3 = "complete_request r ok msg (release_buffer r ?t)"
  have it: "io_inv lost {r} (r # rs) ?t" using inv by simp
  have wt: "rq_worker (req ?t r) = w" using k1 by simp
  note rc = release_and_complete [OF it, where ok = ok and msg = msg]
  have "kept s ?t" by (simp add: io_views)
  moreover have "kept ?t ?s3" using rc(2) by (simp add: others_same_def)
  ultimately have "kept s ?s3" by (rule kept_trans)
  then have h: "handled w s ?s3"
    using rc(2) unfolding wt by (simp add: handled_def others_same_def io_views)
  have "\<not> draining_col ?s3 ! w" using assms(4) by (simp add: io_views)
  moreover have "cur = wk_thread (wkr ?s3 w)" using handled_thread(1) [OF h wl] cur by simp
  ultimately have d: "io_inv lost {} rs (drain_pending_io env cur w ?s3)"
    "handled w ?s3 (drain_pending_io env cur w ?s3)" "quiet (drain_pending_io env cur w ?s3) w"
    using drain_pending_io_inv [OF rc(1), of cur w env] handled_thread(2) [OF h wl] wl by simp_all
  show "io_inv lost {} rs (complete_io_on_worker env cur r success s)"
    "quiet (complete_io_on_worker env cur r success s) w"
    using d by (simp_all add: s2)
  show "handled w s (complete_io_on_worker env cur r success s)"
    using handled_trans [OF h d(2)] by (simp add: s2)
  have "request_keys ?s3 = request_keys s" using h by (simp add: handled_def)
  from length_requests_eq [OF this] have "r < length (st_requests ?s3)" using run(1) by simp
  moreover have "done_col ?s3 ! r" using run(1) by (simp add: io_views)
  moreover have "kept ?s3 (drain_pending_io env cur w ?s3)"
    using d(2) by (simp add: handled_def others_same_def)
  ultimately show "done_col (complete_io_on_worker env cur r success s) ! r"
    unfolding s2 kept_def by blast
qed

section \<open>Events\<close>

text \<open>
  The next message of a worker's thread, the wake-up of a request that waits for SPDK's queue,
  or the completion of a command: SPDK reports success or failure, and a read has filled the
  buffer. Messages of the lifecycle are not handled here.
\<close>

datatype io_event = Ev_deliver nat | Ev_resume nat | Ev_complete nat

definition bio_length :: "storage_geometry \<Rightarrow> bdev_io \<Rightarrow> nat" where
  "bio_length g io = unat (bio_block_count io) * unat (block_size g)"

definition deliver_message ::
  "'d spdk_env \<Rightarrow> nat \<Rightarrow> 'd spdk_state \<Rightarrow> 'd spdk_state option" where
  "deliver_message env w s =
     (let t = wk_thread (wkr s w)
      in case st_queue s t of
           [] \<Rightarrow> None
         | msg # rest \<Rightarrow>
             let s1 = s\<lparr>st_queue := (st_queue s)(t := rest)\<rparr>
             in case msg of
                  Msg_execute_batch rs \<Rightarrow> Some (execute_worker_batch env t rs s1)
                | Msg_retry r \<Rightarrow> Some (execute_io_on_worker env t r s1)
                | _ \<Rightarrow> None)"

definition resume_request ::
  "'d spdk_env \<Rightarrow> nat \<Rightarrow> 'd spdk_state \<Rightarrow> 'd spdk_state" where
  "resume_request env k s =
     (let r = st_waiting s ! k;
          s1 = s\<lparr>st_waiting := remove_nth k (st_waiting s)\<rparr>
      in execute_io_on_worker env (wk_thread (wkr s (rq_worker (req s r)))) r s1)"

definition complete_bdev_io ::
  "'d spdk_env \<Rightarrow> nat \<Rightarrow> 'd spdk_state \<Rightarrow> 'd spdk_state" where
  "complete_bdev_io env k s =
     (let io = st_in_flight s ! k;
          r = bio_request io;
          content = mem_read (st_dma s (bio_buffer io)) 0 (bio_length (bc_geometry s) io)
      in case se_complete env io content (st_world s) of
           (success, data, d) \<Rightarrow>
             let s1 = s\<lparr>st_world := d, st_in_flight := remove_nth k (st_in_flight s)\<rparr>;
                 s2 = (if bio_operation io = Op_read
                       then s1\<lparr>st_dma := (st_dma s1)(bio_buffer io :=
                              mem_write (st_dma s1 (bio_buffer io)) 0 data)\<rparr>
                       else s1)
             in complete_io_on_worker env (wk_thread (wkr s2 (rq_worker (req s2 r)))) r success s2)"

fun handle_event :: "'d spdk_env \<Rightarrow> io_event \<Rightarrow> 'd spdk_state \<Rightarrow> 'd spdk_state option" where
  "handle_event env (Ev_deliver w) s =
     (if w < length (bc_io_workers s) then deliver_message env w s else None)"
| "handle_event env (Ev_resume k) s =
     (if k < length (st_waiting s) then Some (resume_request env k s) else None)"
| "handle_event env (Ev_complete k) s =
     (if k < length (st_in_flight s) then Some (complete_bdev_io env k s) else None)"

definition sys_inv :: "nat \<Rightarrow> 'd spdk_state \<Rightarrow> bool" where
  "sys_inv lost s \<longleftrightarrow> io_inv lost {} [] s \<and>
     (\<forall>w<length (bc_io_workers s). quiet s w \<and> \<not> draining_col s ! w)"

lemma sys_inv_handled:
  assumes "sys_inv lost s" and "handled w s' s''" and "io_inv lost {} [] s''" and "quiet s'' w"
    and "pool_col s' = pool_col s" "pending_col s' = pending_col s" "draining_col s' = draining_col s"
  shows "sys_inv lost s''"
proof -
  have "length (bc_io_workers s'') = length (bc_io_workers s)"
    using assms(2,7) by (metis handled_def view_lengths(7))
  moreover have "quiet s'' v \<and> \<not> draining_col s'' ! v" if "v < length (bc_io_workers s)" for v
    using assms that by (cases "v = w") (auto simp: sys_inv_def handled_def others_same_def quiet_def)
  ultimately show ?thesis using assms(3) by (simp add: sys_inv_def)
qed

lemma sys_inv_deliver:
  assumes "sys_inv lost s" and w: "w < length (bc_io_workers s)"
    and "deliver_message env w s = Some s'"
  shows "sys_inv lost s'"
    and "handled w s s'"
proof -
  let ?t = "wk_thread (wkr s w)"
  obtain msg rest where q: "st_queue s ?t = msg # rest"
    using assms(3) by (auto simp: deliver_message_def Let_def split: list.splits)
  let ?s1 = "s\<lparr>st_queue := (st_queue s)(?t := rest)\<rparr>"
  have inv: "io_inv lost {} [] s" and quiet: "quiet s w" and dr: "\<not> draining_col s ! w"
    using assms(1) w by (simp_all add: sys_inv_def)
  have pl: "place_inv [] (request_keys s) (worker_keys s) (done_col s) (pending_col s)
      (st_queue s) (st_waiting s) (st_in_flight s)"
    using inv by (simp add: io_inv_def)
  have wl: "w < length (worker_keys s)" using w by simp
  have tk: "?t = key_thread (worker_keys s ! w)" using w by (simp add: column_nth)
  note del = place_deliver [OF pl wl tk q]
  have i1: "io_inv lost {} (msg_requests msg @ []) ?s1"
    using inv del(1) by (simp add: io_inv_def io_views)
  have bound: "\<forall>r\<in>set (msg_requests msg). r < length (st_requests s)"
  proof
    fix r assume "r \<in> set (msg_requests msg)"
    then obtain as bs where "msg_requests msg = as @ r # bs" by (meson split_list)
    then have "place_inv (r # as @ bs) (request_keys s) (worker_keys s) (done_col s) (pending_col s)
        ((st_queue s)(?t := rest)) (st_waiting s) (st_in_flight s)"
      using del(1) by (simp add: place_inv_def ac_simps)
    then show "r < length (st_requests s)" by (metis place_running(1) view_lengths(1))
  qed
  have ws: "\<forall>r\<in>set (msg_requests msg). rq_worker (req ?s1 r) = w"
    using del(2) bound by (simp add: column_nth)
  have views: "pool_col ?s1 = pool_col s" "pending_col ?s1 = pending_col s"
    "draining_col ?s1 = draining_col s" by (simp_all add: io_views)
  have q1: "quiet ?s1 w" using quiet by (simp add: quiet_def views)
  have dr1: "\<not> draining_col ?s1 ! w" using dr by (simp add: views)
  have h1: "handled w s ?s1" by (simp add: handled_def others_same_def io_views)
  have "io_inv lost {} [] s' \<and> handled w ?s1 s' \<and> quiet s' w"
  proof (cases msg)
    case (Msg_execute_batch rs)
    then have "s' = execute_worker_batch env ?t rs ?s1"
      using assms(3) q by (simp add: deliver_message_def Let_def)
    then show ?thesis
      using execute_worker_batch_inv [of lost rs "[]" ?s1 w ?t env] i1 ws bound q1 dr1 w
      by (simp add: Msg_execute_batch)
  next
    case (Msg_retry r)
    then have s': "s' = execute_io_on_worker env ?t r ?s1"
      using assms(3) q by (simp add: deliver_message_def Let_def)
    have "w = rq_worker (req ?s1 r)" and "io_inv lost {} [r] ?s1"
      using ws i1 by (simp_all add: Msg_retry)
    then show ?thesis
      using execute_io_inv [of lost r "[]" ?s1 w ?t env, OF _ _ _ q1 dr1] by (simp add: s')
  qed (use assms(3) q in \<open>simp_all add: deliver_message_def Let_def\<close>)
  then show "sys_inv lost s'" and "handled w s s'"
    using sys_inv_handled [OF assms(1) _ _ _ views] handled_trans [OF h1] by blast+
qed

lemma sys_inv_resume:
  assumes "sys_inv lost s" and k: "k < length (st_waiting s)"
  shows "sys_inv lost (resume_request env k s)"
    and "\<exists>w<length (bc_io_workers s). handled w s (resume_request env k s)"
proof -
  let ?r = "st_waiting s ! k" and ?s1 = "s\<lparr>st_waiting := remove_nth k (st_waiting s)\<rparr>"
  let ?w = "rq_worker (req s ?r)"
  have i1: "io_inv lost {} [?r] ?s1"
    using assms(1) place_resume [OF _ k] by (simp add: sys_inv_def io_inv_def io_views)
  have wl: "?w < length (bc_io_workers s)" using io_inv_running(4) [OF i1] by simp
  have views: "pool_col ?s1 = pool_col s" "pending_col ?s1 = pending_col s"
    "draining_col ?s1 = draining_col s" by (simp_all add: io_views)
  have "quiet ?s1 ?w" "\<not> draining_col ?s1 ! ?w"
    using assms(1) wl by (simp_all add: sys_inv_def quiet_def views)
  then have "io_inv lost {} [] (resume_request env k s)" "handled ?w ?s1 (resume_request env k s)"
    "quiet (resume_request env k s) ?w"
    using execute_io_inv [OF i1, of ?w "wk_thread (wkr s ?w)" env]
    by (simp_all add: resume_request_def Let_def)
  moreover have "handled ?w s ?s1" by (simp add: handled_def others_same_def io_views)
  ultimately show "sys_inv lost (resume_request env k s)"
    and "\<exists>w<length (bc_io_workers s). handled w s (resume_request env k s)"
    using sys_inv_handled [OF assms(1) _ _ _ views] handled_trans wl by blast+
qed

lemma sys_inv_complete:
  assumes "sys_inv lost s" and k: "k < length (st_in_flight s)"
  shows "sys_inv lost (complete_bdev_io env k s)"
    and "\<exists>w<length (bc_io_workers s). handled w s (complete_bdev_io env k s)"
    and "done_col (complete_bdev_io env k s) ! bio_request (st_in_flight s ! k)"
    and "\<not> done_col s ! bio_request (st_in_flight s ! k)"
    and "bio_request (st_in_flight s ! k) < length (st_requests s)"
proof -
  let ?io = "st_in_flight s ! k"
  let ?r = "bio_request ?io"
  obtain ok data d where c: "se_complete env ?io
      (mem_read (st_dma s (bio_buffer ?io)) 0 (bio_length (bc_geometry s) ?io)) (st_world s) =
      (ok, data, d)" by (metis prod_cases3)
  let ?s1 = "s\<lparr>st_world := d, st_in_flight := remove_nth k (st_in_flight s)\<rparr>"
  let ?s2 = "if bio_operation ?io = Op_read
    then ?s1\<lparr>st_dma := (st_dma ?s1)(bio_buffer ?io := mem_write (st_dma ?s1 (bio_buffer ?io)) 0 data)\<rparr>
    else ?s1"
  let ?w = "rq_worker (req s ?r)"
  have inv: "io_inv lost {} [] s" using assms(1) by (simp add: sys_inv_def)
  have i1: "io_inv lost {?r} [?r] ?s1"
    using inv place_finish [OF _ k] lease_finish [OF _ k] by (simp add: io_inv_def io_views)
  then have i2: "io_inv lost {?r} [?r] ?s2" by simp
  have views: "pool_col ?s2 = pool_col s" "pending_col ?s2 = pending_col s"
    "draining_col ?s2 = draining_col s" by (simp_all add: io_views)
  have same: "req ?s2 = req s" "wkr ?s2 = wkr s" by simp_all
  have wl: "?w < length (bc_io_workers s)" using io_inv_running(4) [OF i1] by simp
  have dr: "\<not> draining_col ?s2 ! ?w" using assms(1) wl by (simp add: sys_inv_def views)
  have eq: "complete_bdev_io env k s = complete_io_on_worker env (wk_thread (wkr s ?w)) ?r ok ?s2"
    by (simp add: complete_bdev_io_def Let_def c)
  have "io_inv lost {} [] (complete_bdev_io env k s)" "handled ?w ?s2 (complete_bdev_io env k s)"
    "quiet (complete_bdev_io env k s) ?w" "done_col (complete_bdev_io env k s) ! ?r"
    unfolding eq using complete_io_inv [OF i2 _ _ dr, of "wk_thread (wkr s ?w)" env ok] same
    by simp_all
  moreover have "handled ?w s ?s2" by (simp add: handled_def others_same_def io_views)
  ultimately show "sys_inv lost (complete_bdev_io env k s)"
    and "\<exists>w<length (bc_io_workers s). handled w s (complete_bdev_io env k s)"
    and "done_col (complete_bdev_io env k s) ! ?r"
    using sys_inv_handled [OF assms(1) _ _ _ views] handled_trans wl by blast+
  show "\<not> done_col s ! ?r" "?r < length (st_requests s)"
    using io_inv_running(1,2) [OF i1] by (simp_all add: io_views)
qed

lemma sys_inv_event:
  "sys_inv lost s \<Longrightarrow> handle_event env e s = Some s' \<Longrightarrow> sys_inv lost s'"
  by (cases e) (auto simp: sys_inv_deliver sys_inv_resume sys_inv_complete split: if_splits)

lemma handled_event:
  "sys_inv lost s \<Longrightarrow> handle_event env e s = Some s' \<Longrightarrow> \<exists>w<length (bc_io_workers s). handled w s s'"
  by (cases e) (auto simp: sys_inv_resume sys_inv_complete split: if_splits dest: sys_inv_deliver(2))

end
