(* ===== verification/Bdev_Batch.thy ===== *)
theory Bdev_Batch
  imports Bdev_Events
begin

text \<open>
  Submitting a batch and waiting for it (\<open>submit_batch_and_wait\<close> and what it calls in
  \<open>spdk_bdev_context.cpp\<close>), and why the wait ends: in every state a batch can be in, some
  event is possible, and every event makes progress as long as SPDK's queue is not full for ever.
\<close>

section \<open>Submission\<close>

text \<open>\<open>send_message\<close> of the context: the lifecycle check, then the runtime's own.\<close>

definition context_send_message ::
  "'d spdk_env \<Rightarrow> spdk_thread option \<Rightarrow> spdk_message \<Rightarrow> 'd spdk_state \<Rightarrow> unit result \<times> 'd spdk_state" where
  "context_send_message env thread msg s =
     (let detail = (if bc_last_error s = [] then [] else '': '' @ bc_last_error s);
          unavailable = Inl (Runtime_error (''SPDK runtime is not available'' @ detail))
      in case thread of
           None \<Rightarrow> (Inl (Invalid_argument ''SPDK thread and callback must not be null''), s)
         | Some t \<Rightarrow>
             (case bc_runtime s of
                None \<Rightarrow> (unavailable, s)
              | Some rt \<Rightarrow>
                  if bc_closed s \<or> bc_shutdown_requested s then (unavailable, s)
                  else if \<not> runtime_is_available rt
                  then (runtime_send_message (se_host env) (Some t) 0 rt, s)
                  else (case thread_send_msg env t msg s of
                          (code, s1) \<Rightarrow> (runtime_send_message (se_host env) (Some t) code rt, s1))))"

text \<open>
  The loop over the items: each is validated, then its request is made. \<open>b\<close> is the batch,
  \<open>first\<close> the first worker, \<open>i\<close> the index of the next item.
\<close>

definition new_request ::
  "nat \<Rightarrow> nat \<Rightarrow> nat \<Rightarrow> io_operation \<Rightarrow> io_batch_item \<Rightarrow> u64 \<Rightarrow> io_request" where
  "new_request w b i operation item now =
     \<lparr>rq_worker = w, rq_batch = b, rq_result_index = i, rq_operation = operation,
      rq_buffer = it_buffer item, rq_logical_length = it_logical_length item,
      rq_byte_offset = it_byte_offset item, rq_physical_length = it_physical_length item,
      rq_trace = it_trace item, rq_block_offset = 0, rq_block_count = 0,
      rq_immediate_submit_result = 0, rq_buffer_index = None, rq_submitted_at = now,
      rq_buffer_wait_started_at = None, rq_retry_wait_started_at = None,
      rq_worker_queue_wait_ns = 0, rq_buffer_pool_wait_ns = 0, rq_queue_retry_wait_ns = 0,
      rq_retry_count = 0, rq_started = False, rq_completed = False\<rparr>"

fun make_requests ::
  "'d spdk_env \<Rightarrow> u64 \<Rightarrow> u64 \<Rightarrow> nat \<Rightarrow> nat \<Rightarrow> io_operation \<Rightarrow> io_batch_item list \<Rightarrow> 'd spdk_state \<Rightarrow>
     io_request list result \<times> 'd spdk_state" where
  "make_requests env first worker_count b i operation [] s = (Inr [], s)"
| "make_requests env first worker_count b i operation (item # items) s =
     (case validate_item (bc_geometry s) item of
        Inl e \<Rightarrow> (Inl e, s)
      | Inr _ \<Rightarrow>
          (case clock_now env s of
             (now, s1) \<Rightarrow>
               let w = unat ((first + of_nat i) mod worker_count);
                   request = new_request w b i operation item now;
                   s2 = upd_metrics (\<lambda>m. m\<lparr>m_submitted := m_submitted m + 1\<rparr>) s1
               in case make_requests env first worker_count b (Suc i) operation items s2 of
                    (Inl e, s3) \<Rightarrow> (Inl e, s3)
                  | (Inr requests, s3) \<Rightarrow> (Inr (request # requests), s3)))"

text \<open>The dispatch of one worker: its requests of the batch, in order.\<close>

definition dispatch_of :: "nat \<Rightarrow> io_request list \<Rightarrow> nat \<Rightarrow> nat list" where
  "dispatch_of base requests w =
     map ((+) base) (filter (\<lambda>i. rq_worker (requests ! i) = w) [0..<length requests])"

fun complete_all :: "nat list \<Rightarrow> string \<Rightarrow> 'd spdk_state \<Rightarrow> 'd spdk_state" where
  "complete_all [] error s = s"
| "complete_all (r # rs) error s = complete_all rs error (complete_request r False error s)"

text \<open>The loop over the dispatches, from worker \<open>w\<close> on, \<open>n\<close> of them.\<close>

fun send_dispatches ::
  "'d spdk_env \<Rightarrow> (nat \<Rightarrow> nat list) \<Rightarrow> nat list \<Rightarrow> 'd spdk_state \<Rightarrow> 'd spdk_state" where
  "send_dispatches env dispatch [] s = s"
| "send_dispatches env dispatch (w # ws) s =
     send_dispatches env dispatch ws
       (if dispatch w = [] then s
        else case context_send_message env (Some (wk_thread (wkr s w)))
                    (Msg_execute_batch (dispatch w)) s of
               (Inr _, s1) \<Rightarrow> s1
             | (Inl e, s1) \<Rightarrow> complete_all (dispatch w) (what e) s1)"

definition submit_batch ::
  "'d spdk_env \<Rightarrow> io_operation \<Rightarrow> io_batch_item list \<Rightarrow> 'd spdk_state \<Rightarrow> nat result \<times> 'd spdk_state" where
  "submit_batch env operation items s =
     (if bc_closed s \<or> bc_shutdown_requested s \<or> \<not> bc_initialization_succeeded s
      then (Inl (Runtime_error (''SPDK runtime is not available'' @
             (if bc_last_error s = [] then [] else '': '' @ bc_last_error s))), s)
      else if bc_io_workers s = []
      then (Inl (Runtime_error ''SPDK runtime has no I/O workers''), s)
      else
        let worker_count = length (bc_io_workers s);
            first = bc_next_io_worker s mod of_nat worker_count;
            s1 = s\<lparr>bc_next_io_worker := bc_next_io_worker s + 1\<rparr>;
            b = length (st_batches s)
        in case make_requests env first (of_nat worker_count) b 0 operation items s1 of
             (Inl e, s2) \<Rightarrow> (Inl e, s2)
           | (Inr requests, s2) \<Rightarrow>
               let base = length (st_requests s2);
                   s3 = s2\<lparr>st_requests := st_requests s2 @ requests,
                           st_batches := st_batches s2 @
                             [\<lparr>bt_remaining = length items,
                               bt_results = replicate (length items) empty_result\<rparr>]\<rparr>
               in (Inr b, send_dispatches env (dispatch_of base requests) [0..<worker_count] s3))"

section \<open>Waiting\<close>

definition is_io_message :: "spdk_message \<Rightarrow> bool" where
  "is_io_message msg \<longleftrightarrow> (case msg of Msg_execute_batch _ \<Rightarrow> True | Msg_retry _ \<Rightarrow> True | _ \<Rightarrow> False)"

definition enabled_events :: "'d spdk_state \<Rightarrow> io_event list" where
  "enabled_events s =
     map Ev_deliver (filter (\<lambda>w. case st_queue s (wk_thread (wkr s w)) of
         [] \<Rightarrow> False | msg # _ \<Rightarrow> is_io_message msg) [0..<length (bc_io_workers s)]) @
     map Ev_resume [0..<length (st_waiting s)] @
     map Ev_complete [0..<length (st_in_flight s)]"

text \<open>
  Waiting for batch \<open>b\<close>: events happen, in an order SPDK chooses, until the batch has no
  request left. A wait without any possible event does not return.
\<close>

partial_function (option) wait_for_batch ::
  "'d spdk_env \<Rightarrow> nat \<Rightarrow> 'd spdk_state \<Rightarrow> 'd spdk_state option" where
  "wait_for_batch env b s =
     (if bt_remaining (st_batches s ! b) = 0 then Some s
      else if enabled_events s = [] then None
      else case se_pick env (length (enabled_events s)) (st_world s) of
             (k, d) \<Rightarrow>
               (case handle_event env (enabled_events s ! (k mod length (enabled_events s)))
                       (s\<lparr>st_world := d\<rparr>) of
                  None \<Rightarrow> None
                | Some s' \<Rightarrow> wait_for_batch env b s'))"

definition submit_batch_and_wait ::
  "'d spdk_env \<Rightarrow> io_operation \<Rightarrow> io_batch_item list \<Rightarrow> 'd spdk_state \<Rightarrow>
     (io_result list result \<times> 'd spdk_state) option" where
  "submit_batch_and_wait env operation items s =
     (if items = [] then Some (Inr [], s)
      else case submit_batch env operation items s of
             (Inl e, s1) \<Rightarrow> Some (Inl e, s1)
           | (Inr b, s1) \<Rightarrow>
               (case wait_for_batch env b s1 of
                  None \<Rightarrow> None
                | Some s2 \<Rightarrow> Some (Inr (bt_results (st_batches s2 ! b)), s2)))"

definition read_batch :: "'d spdk_env \<Rightarrow> io_batch_item list \<Rightarrow> 'd spdk_state \<Rightarrow>
    (io_result list result \<times> 'd spdk_state) option" where
  "read_batch env = submit_batch_and_wait env Op_read"

definition write_batch :: "'d spdk_env \<Rightarrow> io_batch_item list \<Rightarrow> 'd spdk_state \<Rightarrow>
    (io_result list result \<times> 'd spdk_state) option" where
  "write_batch env = submit_batch_and_wait env Op_write"

section \<open>Messages\<close>

definition only_retries :: "(spdk_thread \<Rightarrow> spdk_message list) \<Rightarrow> (spdk_thread \<Rightarrow> spdk_message list) \<Rightarrow> bool" where
  "only_retries q q' \<longleftrightarrow> (\<forall>t. \<exists>rs. q' t = q t @ map Msg_retry rs)"

lemma only_retries_refl [simp]: "only_retries q q"
  unfolding only_retries_def by (metis append_Nil2 list.map(1))

lemma only_retries_trans: "only_retries p q \<Longrightarrow> only_retries q r \<Longrightarrow> only_retries p r"
  unfolding only_retries_def by (metis append.assoc map_append)

text \<open>Handlers post nothing but retries.\<close>

lemma wait_for_queue_retries: "only_retries (st_queue s) (st_queue (fst (wait_for_queue env r s)))"
proof -
  have sent: "only_retries q (q(t := q t @ [Msg_retry r]))" for q t
    unfolding only_retries_def
  proof
    fix x
    show "\<exists>rs. (q(t := q t @ [Msg_retry r])) x = q x @ map Msg_retry rs"
      by (cases "x = t") (auto intro: exI [of _ "[r]"] exI [of _ "[]"])
  qed
  show ?thesis
    by (auto simp: wait_for_queue_def thread_send_msg_def Let_def io_views case_prod_unfold sent)
qed

lemma submit_staged_retries: "only_retries (st_queue s) (st_queue (fst (submit_staged env r buf s)))"
  using wait_for_queue_retries [of "emit_io_event r ''submit'' None (snd (submit_blocks env r buf (stage_write r buf s)))" env r]
  by (simp add: submit_staged_def Let_def case_prod_unfold io_views)

lemma execute_body_retries: "only_retries (st_queue s) (st_queue (fst (execute_body env cur r s)))"
proof -
  let ?s1 = "note_start env r s" and ?w = "rq_worker (req s r)"
  obtain acq p where acq: "pool_try_acquire (wk_buffer_pool (wkr ?s1 ?w)) = (acq, p)" by fastforce
  have "only_retries (st_queue s) (st_queue (fst (submit_staged env r buf
      (note_lease env r i (upd_worker ?w (wk_buffer_pool_update (\<lambda>_. p)) ?s1)))))" for buf i
    using submit_staged_retries [of "note_lease env r i (upd_worker ?w (wk_buffer_pool_update (\<lambda>_. p)) ?s1)"]
    by (simp add: io_views)
  then show ?thesis
    by (simp add: execute_body_def Let_def acq fail_execute_def io_views split: sum.split option.split)
qed

lemma drain_loop_retries: "only_retries (st_queue s) (st_queue (drain_loop env cur w s))"
proof (induction env cur w s rule: drain_loop.induct)
  case (1 env cur w s)
  show ?case
  proof (cases "drain_ready w s")
    case True
    have "only_retries (st_queue s)
        (st_queue (fst (execute_body env cur (hd (wk_pending_io (wkr s w))) (pop_pending w s))))"
      using execute_body_retries [of "pop_pending w s"] by (simp add: pop_pending_def io_views)
    from only_retries_trans [OF this "1.IH" [OF True]] show ?thesis
      using True by (subst drain_loop.simps) simp
  qed (simp add: drain_loop.simps)
qed

lemma drain_pending_io_retries: "only_retries (st_queue s) (st_queue (drain_pending_io env cur w s))"
  using drain_loop_retries [of "set_draining w True s"]
  by (simp add: drain_pending_io_def set_draining_def io_views)

lemma execute_io_retries: "only_retries (st_queue s) (st_queue (execute_io_on_worker env cur r s))"
  using execute_body_retries [of s env cur r]
    only_retries_trans [OF execute_body_retries [of s env cur r] drain_pending_io_retries [of _ env cur "rq_worker (req s r)"]]
  by (simp add: execute_io_on_worker_def case_prod_unfold)

lemma execute_worker_batch_retries:
  "only_retries (st_queue s) (st_queue (execute_worker_batch env cur rs s))"
  by (induction rs arbitrary: s) (auto intro: only_retries_trans execute_io_retries)

lemma complete_io_retries: "only_retries (st_queue s) (st_queue (complete_io_on_worker env cur r ok s))"
proof -
  obtain ok' msg m where c: "complete_io_on_worker env cur r ok s =
     drain_pending_io env cur (rq_worker (req s r)) (complete_request r ok' msg (release_buffer r
       ((emit_io_event r ''callback'' (Some ok) s)\<lparr>st_memory := m\<rparr>)))"
    using complete_io_shape by blast
  show ?thesis unfolding c
    using drain_pending_io_retries [of "complete_request r ok' msg (release_buffer r
       ((emit_io_event r ''callback'' (Some ok) s)\<lparr>st_memory := m\<rparr>))"]
    by (simp add: io_views)
qed

lemma event_retries:
  assumes "handle_event env e s = Some s'"
  shows "\<exists>q. only_retries q (st_queue s') \<and> (\<forall>t. set (q t) \<subseteq> set (st_queue s t))"
proof (cases e)
  case (Ev_deliver w)
  then have d: "deliver_message env w s = Some s'" using assms by (simp split: if_splits)
  let ?t = "wk_thread (wkr s w)"
  obtain msg rest where q: "st_queue s ?t = msg # rest"
    using d by (auto simp: deliver_message_def Let_def split: list.splits)
  let ?q = "(st_queue s)(?t := rest)"
  have "only_retries ?q (st_queue s')"
    using d q execute_worker_batch_retries [of "s\<lparr>st_queue := ?q\<rparr>" env ?t]
      execute_io_retries [of "s\<lparr>st_queue := ?q\<rparr>" env ?t]
    by (auto simp: deliver_message_def Let_def split: spdk_message.splits)
  then show ?thesis using q by (auto intro!: exI [of _ ?q] split: if_splits)
next
  case (Ev_resume k)
  then show ?thesis
    using assms execute_io_retries [of "s\<lparr>st_waiting := remove_nth k (st_waiting s)\<rparr>" env]
    by (auto simp: resume_request_def Let_def split: if_splits intro!: exI [of _ "st_queue s"])
next
  case (Ev_complete k)
  then have s': "s' = complete_bdev_io env k s" using assms by (simp split: if_splits)
  obtain cur r ok d fl dma where "complete_bdev_io env k s = complete_io_on_worker env cur r ok
      (s\<lparr>st_world := d, st_in_flight := fl, st_dma := dma\<rparr>)"
  proof -
    let ?io = "st_in_flight s ! k"
    obtain ok data d where c: "se_complete env ?io
        (mem_read (st_dma s (bio_buffer ?io)) 0 (bio_length (bc_geometry s) ?io)) (st_world s) =
        (ok, data, d)" by (metis prod_cases3)
    show ?thesis
      by (rule that [where cur = "wk_thread (wkr s (rq_worker (req s (bio_request ?io))))"
            and r = "bio_request ?io" and ok = ok and d = d
            and fl = "remove_nth k (st_in_flight s)" and dma = "if bio_operation ?io = Op_read
              then (st_dma s)(bio_buffer ?io := mem_write (st_dma s (bio_buffer ?io)) 0 data) else st_dma s"])
        (simp add: complete_bdev_io_def Let_def c)
  qed
  then show ?thesis
    using complete_io_retries [of "s\<lparr>st_world := d, st_in_flight := fl, st_dma := dma\<rparr>" env cur r ok]
    by (auto simp: s' intro!: exI [of _ "st_queue s"])
qed

section \<open>What a batch leaves alone\<close>

lemma drain_loop_context: "context_key (drain_loop env cur w s) = context_key s"
proof (induction env cur w s rule: drain_loop.induct)
  case (1 env cur w s)
  then show ?case by (subst drain_loop.simps) (simp add: io_views pop_pending_def)
qed

lemma execute_io_context: "context_key (execute_io_on_worker env cur r s) = context_key s"
  by (simp add: execute_io_on_worker_def drain_pending_io_def set_draining_def io_views
      drain_loop_context case_prod_unfold)

lemma execute_worker_batch_context: "context_key (execute_worker_batch env cur rs s) = context_key s"
  by (induction rs arbitrary: s) (simp_all add: execute_io_context)

lemma complete_io_context: "context_key (complete_io_on_worker env cur r ok s) = context_key s"
proof -
  obtain ok' msg m where c: "complete_io_on_worker env cur r ok s =
     drain_pending_io env cur (rq_worker (req s r)) (complete_request r ok' msg (release_buffer r
       ((emit_io_event r ''callback'' (Some ok) s)\<lparr>st_memory := m\<rparr>)))"
    using complete_io_shape by blast
  show ?thesis unfolding c
    by (simp add: drain_pending_io_def set_draining_def io_views drain_loop_context)
qed

lemma event_context: "handle_event env e s = Some s' \<Longrightarrow> context_key s' = context_key s"
  by (cases e) (auto simp: deliver_message_def resume_request_def complete_bdev_io_def Let_def
      execute_io_context execute_worker_batch_context complete_io_context io_views case_prod_unfold
      split: if_splits list.splits spdk_message.splits)

lemma wait_for_batch_context:
  assumes w: "wait_for_batch env b s = Some s'"
  shows "context_key s' = context_key s"
proof (rule wait_for_batch.raw_induct [OF _ w])
  fix rec :: "'a spdk_env \<Rightarrow> nat \<Rightarrow> 'a spdk_state \<Rightarrow> 'a spdk_state option" and env b s s'
  assume IH: "\<And>env b s s'. rec env b s = Some s' \<Longrightarrow> context_key s' = context_key s"
    and eq: "(if bt_remaining (st_batches s ! b) = 0 then Some s
      else if enabled_events s = [] then None
      else case se_pick env (length (enabled_events s)) (st_world s) of
             (k, d) \<Rightarrow>
               (case handle_event env (enabled_events s ! (k mod length (enabled_events s)))
                       (s\<lparr>st_world := d\<rparr>) of
                  None \<Rightarrow> None
                | Some s' \<Rightarrow> rec env b s')) = Some s'"
  show "context_key s' = context_key s"
  proof (cases "bt_remaining (st_batches s ! b) = 0 \<or> enabled_events s = []")
    case False
    obtain k d where k: "se_pick env (length (enabled_events s)) (st_world s) = (k, d)" by fastforce
    obtain s1 where s1: "handle_event env (enabled_events s ! (k mod length (enabled_events s)))
        (s\<lparr>st_world := d\<rparr>) = Some s1" and r: "rec env b s1 = Some s'"
      using eq False k by (auto split: option.splits)
    show ?thesis using IH [OF r] event_context [OF s1] by (simp add: io_views)
  qed (use eq in \<open>auto split: if_splits\<close>)
qed

lemma make_requests_geometry:
  "make_requests env first n b i operation items s = (r, s') \<Longrightarrow> bc_geometry s' = bc_geometry s"
proof (induction items arbitrary: i s r)
  case (Cons item items)
  then show ?case
    by (fastforce simp: clock_now_def upd_metrics_def Let_def split: sum.splits prod.splits)
qed simp

lemma complete_all_geometry: "bc_geometry (complete_all rs error s) = bc_geometry s"
  by (induction rs arbitrary: s)
    (simp_all add: complete_request_def upd_request_def upd_metrics_def Let_def)

lemma context_send_geometry: "bc_geometry (snd (context_send_message env t msg s)) = bc_geometry s"
  by (simp add: context_send_message_def thread_send_msg_def Let_def case_prod_unfold
      split: option.split)

lemma send_dispatches_geometry: "bc_geometry (send_dispatches env dispatch ws s) = bc_geometry s"
proof (induction ws arbitrary: s)
  case (Cons w ws)
  obtain r s1 where c: "context_send_message env (Some (wk_thread (wkr s w)))
      (Msg_execute_batch (dispatch w)) s = (r, s1)" by fastforce
  have "bc_geometry s1 = bc_geometry s"
    using context_send_geometry [of env "Some (wk_thread (wkr s w))" "Msg_execute_batch (dispatch w)" s]
    by (simp add: c)
  then show ?case using Cons by (cases r) (simp_all add: c complete_all_geometry)
qed simp

lemma submit_batch_geometry:
  assumes "submit_batch env operation items s = (r, s')"
  shows "bc_geometry s' = bc_geometry s"
proof -
  let ?n = "of_nat (length (bc_io_workers s)) :: u64"
  obtain q s2 where m: "make_requests env (bc_next_io_worker s mod ?n) ?n (length (st_batches s)) 0
      operation items (s\<lparr>bc_next_io_worker := bc_next_io_worker s + 1\<rparr>) = (q, s2)" by fastforce
  have "bc_geometry s2 = bc_geometry s" using make_requests_geometry [OF m] by simp
  then show ?thesis
    using assms by (cases q) (auto simp: submit_batch_def Let_def m send_dispatches_geometry split: if_splits)
qed

lemma batch_geometry:
  assumes "submit_batch_and_wait env operation items s = Some (r, s')"
  shows "bc_geometry s' = bc_geometry s"
proof (cases "items = []")
  case False
  obtain q s1 where sub: "submit_batch env operation items s = (q, s1)" by fastforce
  note g1 = submit_batch_geometry [OF sub]
  show ?thesis
  proof (cases q)
    case (Inl e)
    then show ?thesis using assms False sub g1 by (simp add: submit_batch_and_wait_def)
  next
    case (Inr b)
    then have "wait_for_batch env b s1 = Some s'"
      using assms False sub by (simp add: submit_batch_and_wait_def split: option.splits)
    from wait_for_batch_context [OF this] show ?thesis using g1 by (metis geometry_key)
  qed
qed (use assms in \<open>simp add: submit_batch_and_wait_def\<close>)

section \<open>Progress\<close>

text \<open>
  SPDK's queue is not full for ever: a measure of its state never grows, and shrinks whenever a
  command is refused with \<open>-ENOMEM\<close>.
\<close>

definition patient :: "'d spdk_env \<Rightarrow> ('d \<Rightarrow> nat) \<Rightarrow> bool" where
  "patient env pat \<longleftrightarrow>
     (\<forall>d. pat (snd (se_now env d)) \<le> pat d) \<and>
     (\<forall>t d. pat (snd (se_send_msg env t d)) \<le> pat d) \<and>
     (\<forall>r d. pat (snd (se_queue_wait env r d)) \<le> pat d) \<and>
     (\<forall>io content d. pat (snd (snd (se_complete env io content d))) \<le> pat d) \<and>
     (\<forall>n d. pat (snd (se_pick env n d)) \<le> pat d) \<and>
     (\<forall>io d. pat (snd (se_submit env io d)) \<le> pat d) \<and>
     (\<forall>io d. fst (se_submit env io d) = -12 \<longrightarrow> pat (snd (se_submit env io d)) < pat d)"

definition weak_progress :: "('d \<Rightarrow> nat) \<Rightarrow> 'd spdk_state \<Rightarrow> 'd spdk_state \<Rightarrow> bool" where
  "weak_progress pat s s' \<longleftrightarrow>
     pat (st_world s') \<le> pat (st_world s) \<and> only_retries (st_queue s) (st_queue s')"

definition progress :: "('d \<Rightarrow> nat) \<Rightarrow> 'd spdk_state \<Rightarrow> 'd spdk_state \<Rightarrow> bool" where
  "progress pat s s' \<longleftrightarrow> weak_progress pat s s' \<and>
     (pat (st_world s') = pat (st_world s) \<longrightarrow>
        st_queue s' = st_queue s \<and> st_waiting s' = st_waiting s)"

lemma weak_progress_trans: "weak_progress pat s s' \<Longrightarrow> weak_progress pat s' s'' \<Longrightarrow> weak_progress pat s s''"
  unfolding weak_progress_def using only_retries_trans by (metis le_trans)

lemma progress_trans: "progress pat s s' \<Longrightarrow> progress pat s' s'' \<Longrightarrow> progress pat s s''"
  unfolding progress_def weak_progress_def using only_retries_trans by (metis le_antisym le_trans)

lemma progress_same:
  "pat (st_world s') \<le> pat (st_world s) \<Longrightarrow> st_queue s' = st_queue s \<Longrightarrow> st_waiting s' = st_waiting s \<Longrightarrow>
     progress pat s s'"
  by (simp add: progress_def weak_progress_def)

lemma progress_less:
  "weak_progress pat s s' \<Longrightarrow> pat (st_world s') < pat (st_world s) \<Longrightarrow> progress pat s s'"
  by (simp add: progress_def)

lemma clock_patient: "patient env pat \<Longrightarrow> pat (snd (se_now env d)) \<le> pat d"
  by (simp add: patient_def)

lemma stage_progress:
  assumes "patient env pat"
  shows "progress pat s (note_start env r s)" and "progress pat s (park_request env r s)"
    and "progress pat s (note_lease env r i s)" and "progress pat s (stage_write r buf s)"
    and "progress pat s (emit_io_event r ph cb s)" and "progress pat s (count_submitted r s)"
    and "progress pat s (complete_request r ok msg s)" and "progress pat s (release_buffer r s)"
    and "progress pat s (upd_worker w f s)" and "progress pat s (set_draining w b s)"
    and "progress pat s (pop_pending w s)" and "progress pat s (s\<lparr>st_memory := m\<rparr>)"
proof -
  note le = clock_patient [OF assms]
  have "pat (st_world (note_start env r s)) \<le> pat (st_world s)"
    using le by (auto simp: note_start_def Let_def io_views case_prod_unfold split: option.split
        intro: le_trans)
  then show "progress pat s (note_start env r s)" by (rule progress_same) (simp_all add: io_views)
  have "pat (st_world (park_request env r s)) \<le> pat (st_world s)"
    using le by (auto simp: park_request_def Let_def io_views case_prod_unfold split: option.split)
  then show "progress pat s (park_request env r s)" by (rule progress_same) (simp_all add: io_views)
  have "pat (st_world (note_lease env r i s)) \<le> pat (st_world s)"
    using le by (auto simp: note_lease_def Let_def io_views case_prod_unfold split: option.split)
  then show "progress pat s (note_lease env r i s)" by (rule progress_same) (simp_all add: io_views)
qed (simp_all add: progress_same io_views count_submitted_def Let_def set_draining_def pop_pending_def)

lemma wait_for_queue_progress:
  assumes "patient env pat"
  shows "weak_progress pat s (fst (wait_for_queue env r s))"
proof -
  have le: "pat (snd (se_now env d)) \<le> pat d" "pat (snd (se_queue_wait env r d)) \<le> pat d"
    "pat (snd (se_send_msg env t d)) \<le> pat d" for d t
    using assms by (simp_all add: patient_def)
  have "pat (st_world (fst (wait_for_queue env r s))) \<le> pat (st_world s)"
    by (auto simp: wait_for_queue_def thread_send_msg_def Let_def io_views case_prod_unfold
        intro: le_trans [OF le(2)] le_trans [OF le(3)] le_trans [OF le(2) le(1)]
        le_trans [OF le(3) le_trans [OF le(2) le(1)]])
  then show ?thesis by (simp add: weak_progress_def wait_for_queue_retries)
qed

lemma submit_staged_progress:
  assumes "patient env pat"
  shows "progress pat s (fst (submit_staged env r buf s))"
proof -
  let ?s0 = "stage_write r buf s"
  let ?io = "bdev_io_of (bc_geometry ?s0) r (req ?s0 r) buf"
  let ?s1 = "snd (submit_blocks env r buf ?s0)"
  let ?s2 = "emit_io_event r ''submit'' None ?s1"
  obtain rc d where sub: "se_submit env ?io (st_world ?s0) = (rc, d)" by fastforce
  note eff = submit_blocks_effect [OF sub]
  have pd: "pat d \<le> pat (st_world ?s0)" "rc = -12 \<Longrightarrow> pat d < pat (st_world ?s0)"
    using assms sub unfolding patient_def by (metis fst_conv snd_conv)+
  have w2: "st_world ?s2 = d" using eff(3) by (simp add: io_views)
  have s2: "progress pat s ?s2"
    using pd(1) w2 by (intro progress_same) (simp_all add: io_views)
  have rc: "fst (submit_blocks env r buf ?s0) = rc" by (rule eff(2))
  show ?thesis
  proof (cases "rc = -12")
    case False
    let ?msg = "spdk_error (se_host env) ''submitting SPDK bdev I/O'' rc"
    have "progress pat s (count_submitted r ?s2)"
      by (rule progress_trans [OF s2 stage_progress(6) [OF assms]])
    moreover have "progress pat s (complete_request r False ?msg (release_buffer r ?s2))"
      by (rule progress_trans [OF progress_trans [OF s2 stage_progress(8) [OF assms]]
            stage_progress(7) [OF assms]])
    ultimately show ?thesis using False by (simp add: submit_staged_def Let_def rc case_prod_unfold)
  next
    case True
    have res: "fst (submit_staged env r buf s) = fst (wait_for_queue env r ?s2)"
      using True by (simp add: submit_staged_def Let_def rc case_prod_unfold)
    have lt: "pat (st_world ?s2) < pat (st_world s)" using pd(2) True w2 by (simp add: io_views)
    have w: "weak_progress pat ?s2 (fst (wait_for_queue env r ?s2))"
      by (rule wait_for_queue_progress [OF assms])
    have "weak_progress pat s (fst (wait_for_queue env r ?s2))"
      using s2 w by (auto simp: progress_def intro: weak_progress_trans)
    moreover have "pat (st_world (fst (wait_for_queue env r ?s2))) < pat (st_world s)"
      using lt w by (simp add: weak_progress_def)
    ultimately show ?thesis unfolding res by (rule progress_less)
  qed
qed

lemma execute_body_progress:
  assumes "patient env pat"
  shows "progress pat s (fst (execute_body env cur r s))"
proof -
  note st = stage_progress [OF assms] and sub = submit_staged_progress [OF assms]
  let ?s1 = "note_start env r s" and ?w = "rq_worker (req s r)"
  obtain acq p where acq: "pool_try_acquire (wk_buffer_pool (wkr ?s1 ?w)) = (acq, p)" by fastforce
  let ?s2 = "upd_worker ?w (wk_buffer_pool_update (\<lambda>_. p)) ?s1"
  have s2: "progress pat s ?s2" by (rule progress_trans [OF st(1) st(9)])
  have fail: "progress pat s (fst (fail_execute r m s'))" if "progress pat s s'" for m s'
    using progress_trans [OF progress_trans [OF that st(8)] st(7)] by (simp add: fail_execute_def)
  have s3: "progress pat s (note_lease env r i ?s2)" for i by (rule progress_trans [OF s2 st(3)])
  show ?thesis
    using fail [OF progress_same] fail [OF s2] progress_trans [OF s2 st(2)] fail [OF s3]
      progress_trans [OF s3 sub]
    by (auto simp: execute_body_def Let_def acq progress_same split: sum.split option.split)
qed

lemma drain_loop_progress:
  assumes "patient env pat"
  shows "progress pat s (drain_loop env cur w s)"
  using assms
proof (induction env cur w s rule: drain_loop.induct)
  case (1 env cur w s)
  show ?case
  proof (cases "drain_ready w s")
    case True
    have "progress pat s (drain_loop env cur w
        (fst (execute_body env cur (hd (wk_pending_io (wkr s w))) (pop_pending w s))))"
      by (rule progress_trans [OF progress_trans [OF stage_progress(11) [OF "1.prems"]
            execute_body_progress [OF "1.prems"]] "1.IH" [OF True "1.prems"]])
    then show ?thesis using True by (subst drain_loop.simps) simp
  next
    case False
    then show ?thesis by (subst drain_loop.simps) (simp add: progress_same)
  qed
qed

lemma drain_pending_io_progress:
  assumes "patient env pat"
  shows "progress pat s (drain_pending_io env cur w s)"
proof -
  let ?s1 = "set_draining w True s"
  have "progress pat s (set_draining w False (drain_loop env cur w ?s1))"
    by (rule progress_trans [OF progress_trans [OF stage_progress(10) [OF assms]
            drain_loop_progress [OF assms]] stage_progress(10) [OF assms]])
  then show ?thesis by (simp add: drain_pending_io_def progress_same)
qed

lemma execute_io_progress:
  assumes "patient env pat"
  shows "progress pat s (execute_io_on_worker env cur r s)"
proof (cases "execute_body env cur r s")
  case (Pair s1 b)
  then have "progress pat s s1" using execute_body_progress [OF assms, of s cur r] by simp
  then show ?thesis
    using Pair progress_trans [OF _ drain_pending_io_progress [OF assms]]
    by (simp add: execute_io_on_worker_def)
qed

lemma execute_worker_batch_progress:
  "patient env pat \<Longrightarrow> progress pat s (execute_worker_batch env cur rs s)"
  by (induction rs arbitrary: s)
    (auto simp: progress_same intro: progress_trans execute_io_progress)

lemma complete_io_progress:
  assumes "patient env pat"
  shows "progress pat s (complete_io_on_worker env cur r success s)"
proof -
  note st = stage_progress [OF assms]
  obtain ok msg m where c: "complete_io_on_worker env cur r success s =
     drain_pending_io env cur (rq_worker (req s r)) (complete_request r ok msg (release_buffer r
       ((emit_io_event r ''callback'' (Some success) s)\<lparr>st_memory := m\<rparr>)))"
    using complete_io_shape by blast
  show ?thesis unfolding c
    by (rule progress_trans [OF progress_trans [OF progress_trans [OF progress_trans [OF st(5) st(12)]
            st(8)] st(7)] drain_pending_io_progress [OF assms]])
qed

section \<open>The wait ends\<close>

text \<open>
  Between events the threads of the workers only hold messages of the I/O path, and there is
  no room for a deadlock: an incomplete request is in a message, waits for SPDK, is in flight,
  or waits for a buffer that a request in flight holds.
\<close>

definition batch_sys_inv :: "nat \<Rightarrow> 'd spdk_state \<Rightarrow> bool" where
  "batch_sys_inv lost s \<longleftrightarrow> sys_inv lost s \<and>
     (\<forall>w<length (bc_io_workers s). \<forall>msg\<in>set (st_queue s (wk_thread (wkr s w))). is_io_message msg)"

lemma event_progress:
  assumes p: "patient env pat" and ev: "handle_event env e s = Some s'"
  shows "pat (st_world s') \<le> pat (st_world s)"
    and "\<exists>q. only_retries q (st_queue s') \<and> (\<forall>t. set (q t) \<subseteq> set (st_queue s t)) \<and>
      (pat (st_world s') = pat (st_world s) \<longrightarrow> st_queue s' = q \<and>
        (case e of
           Ev_deliver w \<Rightarrow> st_waiting s' = st_waiting s \<and> w < length (bc_io_workers s) \<and>
             (\<exists>m. st_queue s (wk_thread (wkr s w)) = m # q (wk_thread (wkr s w))) \<and>
             (\<forall>t. t \<noteq> wk_thread (wkr s w) \<longrightarrow> q t = st_queue s t)
         | Ev_resume k \<Rightarrow> q = st_queue s \<and> k < length (st_waiting s) \<and>
             st_waiting s' = remove_nth k (st_waiting s)
         | Ev_complete k \<Rightarrow> q = st_queue s \<and> st_waiting s' = st_waiting s))"
proof -
  have "pat (st_world s') \<le> pat (st_world s) \<and> (\<exists>q. only_retries q (st_queue s') \<and>
      (\<forall>t. set (q t) \<subseteq> set (st_queue s t)) \<and>
      (pat (st_world s') = pat (st_world s) \<longrightarrow> st_queue s' = q \<and>
        (case e of
           Ev_deliver w \<Rightarrow> st_waiting s' = st_waiting s \<and> w < length (bc_io_workers s) \<and>
             (\<exists>m. st_queue s (wk_thread (wkr s w)) = m # q (wk_thread (wkr s w))) \<and>
             (\<forall>t. t \<noteq> wk_thread (wkr s w) \<longrightarrow> q t = st_queue s t)
         | Ev_resume k \<Rightarrow> q = st_queue s \<and> k < length (st_waiting s) \<and>
             st_waiting s' = remove_nth k (st_waiting s)
         | Ev_complete k \<Rightarrow> q = st_queue s \<and> st_waiting s' = st_waiting s)))"
  proof (cases e)
    case (Ev_deliver w)
    then have w: "w < length (bc_io_workers s)" and d: "deliver_message env w s = Some s'"
      using ev by (simp_all split: if_splits)
    let ?t = "wk_thread (wkr s w)"
    obtain msg rest where q: "st_queue s ?t = msg # rest"
      using d by (auto simp: deliver_message_def Let_def split: list.splits)
    let ?q = "(st_queue s)(?t := rest)"
    let ?s1 = "s\<lparr>st_queue := ?q\<rparr>"
    have "progress pat ?s1 s'"
      using d q execute_worker_batch_progress [OF p] execute_io_progress [OF p]
      by (auto simp: deliver_message_def Let_def split: spdk_message.splits)
    then show ?thesis using w q
      by (auto simp: Ev_deliver progress_def weak_progress_def intro!: exI [of _ ?q]
          split: if_splits)
  next
    case (Ev_resume k)
    let ?s1 = "s\<lparr>st_waiting := remove_nth k (st_waiting s)\<rparr>"
    have "progress pat ?s1 s'" and "k < length (st_waiting s)"
      using ev Ev_resume execute_io_progress [OF p]
      by (auto simp: resume_request_def Let_def split: if_splits)
    then show ?thesis
      by (auto simp: Ev_resume progress_def weak_progress_def intro!: exI [of _ "st_queue s"])
  next
    case (Ev_complete k)
    let ?io = "st_in_flight s ! k"
    obtain ok data d where c: "se_complete env ?io
        (mem_read (st_dma s (bio_buffer ?io)) 0 (bio_length (bc_geometry s) ?io)) (st_world s) =
        (ok, data, d)" by (metis prod_cases3)
    let ?s1 = "s\<lparr>st_world := d, st_in_flight := remove_nth k (st_in_flight s)\<rparr>"
    let ?s2 = "if bio_operation ?io = Op_read
      then ?s1\<lparr>st_dma := (st_dma ?s1)(bio_buffer ?io := mem_write (st_dma ?s1 (bio_buffer ?io)) 0 data)\<rparr>
      else ?s1"
    have "pat d \<le> pat (st_world s)"
      using p c unfolding patient_def by (metis snd_conv)
    then have "progress pat s ?s2" by (intro progress_same) simp_all
    moreover have "progress pat ?s2 s'"
      using ev Ev_complete c complete_io_progress [OF p]
      by (auto simp: complete_bdev_io_def Let_def split: if_splits)
    ultimately have "progress pat s s'" by (rule progress_trans)
    then show ?thesis
      by (auto simp: Ev_complete progress_def weak_progress_def intro!: exI [of _ "st_queue s"])
  qed
  then show "pat (st_world s') \<le> pat (st_world s)"
    and "\<exists>q. only_retries q (st_queue s') \<and> (\<forall>t. set (q t) \<subseteq> set (st_queue s t)) \<and>
      (pat (st_world s') = pat (st_world s) \<longrightarrow> st_queue s' = q \<and>
        (case e of
           Ev_deliver w \<Rightarrow> st_waiting s' = st_waiting s \<and> w < length (bc_io_workers s) \<and>
             (\<exists>m. st_queue s (wk_thread (wkr s w)) = m # q (wk_thread (wkr s w))) \<and>
             (\<forall>t. t \<noteq> wk_thread (wkr s w) \<longrightarrow> q t = st_queue s t)
         | Ev_resume k \<Rightarrow> q = st_queue s \<and> k < length (st_waiting s) \<and>
             st_waiting s' = remove_nth k (st_waiting s)
         | Ev_complete k \<Rightarrow> q = st_queue s \<and> st_waiting s' = st_waiting s))" by blast+
qed

text \<open>The measure of an event: SPDK's patience, the incomplete requests, the messages.\<close>

definition message_count :: "'d spdk_state \<Rightarrow> nat" where
  "message_count s = (\<Sum>w<length (bc_io_workers s). length (st_queue s (wk_thread (wkr s w)))) +
     length (st_waiting s)"

definition open_count :: "'d spdk_state \<Rightarrow> nat" where
  "open_count s = card {r. r < length (st_requests s) \<and> \<not> done_col s ! r}"

lemma kept_open: "kept s s' \<Longrightarrow>
    {r. r < length (st_requests s') \<and> \<not> done_col s' ! r} \<subseteq> {r. r < length (st_requests s) \<and> \<not> done_col s ! r}"
  by (auto simp: kept_def dest: length_requests_eq)

lemma open_count_le: "kept s s' \<Longrightarrow> open_count s' \<le> open_count s"
  unfolding open_count_def by (intro card_mono kept_open) auto

lemma open_count_less:
  assumes "kept s s'" and "r < length (st_requests s)" "\<not> done_col s ! r" "done_col s' ! r"
  shows "open_count s' < open_count s"
  unfolding open_count_def
  using kept_open [OF assms(1)] assms(2-4) by (intro psubset_card_mono) auto

lemma handled_kept: "handled w s s' \<Longrightarrow> kept s s'"
  by (simp add: handled_def others_same_def)

lemma event_decreases:
  assumes inv: "sys_inv lost s" and p: "patient env pat" and ev: "handle_event env e s = Some s'"
  shows "((pat (st_world s'), open_count s', message_count s'),
      (pat (st_world s), open_count s, message_count s)) \<in> less_than <*lex*> less_than <*lex*> less_than"
proof -
  obtain v where v: "v < length (bc_io_workers s)" and h: "handled v s s'"
    using handled_event [OF inv ev] by blast
  have le: "open_count s' \<le> open_count s" by (rule open_count_le [OF handled_kept [OF h]])
  have len: "length (bc_io_workers s') = length (bc_io_workers s)"
    and thr: "\<And>i. i < length (bc_io_workers s) \<Longrightarrow> wk_thread (wkr s' i) = wk_thread (wkr s i)"
    using handled_thread [OF h] v by blast+
  have d: "distinct (map key_thread (worker_keys s))"
    using inv by (simp add: sys_inv_def io_inv_def place_inv_def)
  have inj: "wk_thread (wkr s i) = wk_thread (wkr s j) \<longleftrightarrow> i = j"
    if "i < length (bc_io_workers s)" "j < length (bc_io_workers s)" for i j
    using thread_inj [OF d, of i j] that by (simp add: column_nth)
  note prog = event_progress [OF p ev]
  show ?thesis
  proof (cases "pat (st_world s') = pat (st_world s)")
    case False
    with prog(1) show ?thesis by simp
  next
    case same: True
    show ?thesis
    proof (cases e)
      case (Ev_complete k)
      then have k: "k < length (st_in_flight s)" and s': "s' = complete_bdev_io env k s"
        using ev by (simp_all split: if_splits)
      have "open_count s' < open_count s"
        unfolding s'
        by (rule open_count_less [OF handled_kept [OF h [unfolded s']]
              sys_inv_complete(5) [OF inv k] sys_inv_complete(4) [OF inv k] sys_inv_complete(3) [OF inv k]])
      with same show ?thesis by simp
    next
      case (Ev_resume k)
      then have "st_queue s' = st_queue s" "k < length (st_waiting s)"
        "st_waiting s' = remove_nth k (st_waiting s)"
        using prog(2) same by auto
      then have "message_count s' < message_count s"
        by (simp add: message_count_def len thr remove_nth_def)
      with same le show ?thesis by auto
    next
      case (Ev_deliver w)
      then obtain q m where q: "st_queue s' = q" "st_waiting s' = st_waiting s"
        "w < length (bc_io_workers s)" "st_queue s (wk_thread (wkr s w)) = m # q (wk_thread (wkr s w))"
        "\<forall>t. t \<noteq> wk_thread (wkr s w) \<longrightarrow> q t = st_queue s t"
        using prog(2) same by auto
      let ?f = "\<lambda>s i. length (st_queue s (wk_thread (wkr s i)))"
      have "(\<Sum>i<length (bc_io_workers s). ?f s' i) = (\<Sum>i<length (bc_io_workers s). length (q (wk_thread (wkr s i))))"
        using q(1) thr by simp
      also have "\<dots> < (\<Sum>i<length (bc_io_workers s). ?f s i)"
      proof (rule sum_strict_mono_ex1)
        show "\<forall>i\<in>{..<length (bc_io_workers s)}. length (q (wk_thread (wkr s i))) \<le> ?f s i"
          using q(3-5) inj by (metis le_SucI length_Cons order_refl)
        show "\<exists>i\<in>{..<length (bc_io_workers s)}. length (q (wk_thread (wkr s i))) < ?f s i"
          using q(3,4) by (intro bexI [of _ w]) simp_all
      qed simp
      finally have "message_count s' < message_count s"
        using q(2) by (simp add: message_count_def len)
      with same le show ?thesis by auto
    qed
  qed
qed

lemma batch_sys_inv_event:
  assumes "batch_sys_inv lost s" and ev: "handle_event env e s = Some s'"
  shows "batch_sys_inv lost s'" and "kept s s'"
proof -
  have inv: "sys_inv lost s" using assms(1) by (simp add: batch_sys_inv_def)
  obtain v where v: "v < length (bc_io_workers s)" and h: "handled v s s'"
    using handled_event [OF inv ev] by blast
  show "kept s s'" by (rule handled_kept [OF h])
  have len: "length (bc_io_workers s') = length (bc_io_workers s)"
    and thr: "\<And>i. i < length (bc_io_workers s) \<Longrightarrow> wk_thread (wkr s' i) = wk_thread (wkr s i)"
    using handled_thread [OF h] v by blast+
  obtain q where q: "only_retries q (st_queue s')" "\<forall>t. set (q t) \<subseteq> set (st_queue s t)"
    using event_retries [OF ev] by blast
  have "is_io_message msg"
    if "w < length (bc_io_workers s)" "msg \<in> set (st_queue s' (wk_thread (wkr s w)))" for w msg
  proof -
    obtain rs where "st_queue s' (wk_thread (wkr s w)) = q (wk_thread (wkr s w)) @ map Msg_retry rs"
      using q(1) by (auto simp: only_retries_def)
    then have "msg \<in> set (st_queue s (wk_thread (wkr s w))) \<or> msg \<in> Msg_retry ` set rs"
      using that(2) q(2) by auto
    then show ?thesis
      using assms(1) that(1) by (auto simp: batch_sys_inv_def is_io_message_def)
  qed
  then show "batch_sys_inv lost s'"
    using sys_inv_event [OF inv ev] by (simp add: batch_sys_inv_def len thr)
qed

text \<open>No deadlock: while a request is incomplete, an event is possible.\<close>

lemma open_request_place:
  assumes inv: "sys_inv lost s" and r: "r < length (st_requests s)" "\<not> done_col s ! r"
  obtains w where "w < length (bc_io_workers s)" "st_queue s (wk_thread (wkr s w)) \<noteq> []"
  | w where "w < length (bc_io_workers s)" "pending_col s ! w \<noteq> []"
  | "st_waiting s \<noteq> []" | "st_in_flight s \<noteq> []"
proof -
  let ?sum = "\<Sum>w<length (worker_keys s). worker_places (worker_keys s) (pending_col s) (st_queue s) w"
  have "mset (open_list (done_col s)) =
      ?sum + mset (st_waiting s) + mset (map bio_request (st_in_flight s))"
    using inv by (simp add: sys_inv_def io_inv_def place_inv_def)
  moreover have "r \<in># mset (open_list (done_col s))" using r by (simp add: set_open_list)
  ultimately consider "r \<in># ?sum" | "st_waiting s \<noteq> []" | "st_in_flight s \<noteq> []"
    by (metis (no_types, lifting) empty_iff list.map(1) list.set(1) set_mset_mset union_iff)
  then show ?thesis
  proof cases
    case 1
    then obtain w where w: "w < length (worker_keys s)"
      "r \<in># worker_places (worker_keys s) (pending_col s) (st_queue s) w"
      by (auto simp: set_mset_sum)
    then have "st_queue s (wk_thread (wkr s w)) \<noteq> [] \<or> pending_col s ! w \<noteq> []"
      by (auto simp: worker_places_def column_nth queued_def)
    with w(1) that(1,2) [of w] show ?thesis by auto
  qed (use that in blast)+
qed

lemma event_possible:
  assumes "batch_sys_inv lost s" and r: "r < length (st_requests s)" "\<not> done_col s ! r"
  shows "enabled_events s \<noteq> []"
proof -
  have inv: "sys_inv lost s" using assms(1) by (simp add: batch_sys_inv_def)
  show ?thesis
  proof (rule open_request_place [OF inv r])
    fix w assume w: "w < length (bc_io_workers s)" "st_queue s (wk_thread (wkr s w)) \<noteq> []"
    then obtain msg rest where "st_queue s (wk_thread (wkr s w)) = msg # rest" by (cases "st_queue s (wk_thread (wkr s w))") auto
    moreover from this have "is_io_message msg" using assms(1) w(1) by (simp add: batch_sys_inv_def)
    ultimately have "Ev_deliver w \<in> set (enabled_events s)"
      using w(1) by (simp add: enabled_events_def)
    then show ?thesis by auto
  next
    fix w assume w: "w < length (bc_io_workers s)" "pending_col s ! w \<noteq> []"
    then have none: "pool_available (pool_col s ! w) = 0"
      using inv by (auto simp: sys_inv_def quiet_def)
    have l: "lease_inv {} (request_keys s) (lease_col s) (pool_col s) (st_in_flight s)"
      using inv by (simp add: sys_inv_def io_inv_def)
    then have ok: "leases.table_ok (holds (request_keys s) (lease_col s) w) (pool_col s ! w)"
      using w(1) by (simp add: lease_inv_def)
    then have "pool_inv (pool_col s ! w)" "pool_initialized (pool_col s ! w)"
      by (simp_all add: leases.table_ok_def pool_ok_def)
    then have "pool_size (pool_col s ! w) \<noteq> 0"
      unfolding pool_size_def pool_inv_def by (metis length_0_conv)
    then have "card (dom (holds (request_keys s) (lease_col s) w)) \<noteq> 0"
      using leases.table_count(2) [OF ok] none by simp
    then obtain k where "k \<in> dom (holds (request_keys s) (lease_col s) w)"
      by (metis card.empty ex_in_conv)
    then have "k \<in> {r. r < length (request_keys s) \<and> lease_col s ! r \<noteq> None}"
      by (auto simp: holds_def split: if_splits)
    then have "k \<in> bio_request ` set (st_in_flight s)" using l by (auto simp: lease_inv_def)
    then show ?thesis by (auto simp: enabled_events_def)
  qed (simp_all add: enabled_events_def)
qed

lemma enabled_handled:
  assumes "e \<in> set (enabled_events s)"
  obtains s' where "handle_event env e (s\<lparr>st_world := d\<rparr>) = Some s'"
proof (cases e)
  case (Ev_deliver w)
  then have w: "w < length (bc_io_workers s)"
    and head: "case st_queue s (wk_thread (wkr s w)) of [] \<Rightarrow> False | msg # _ \<Rightarrow> is_io_message msg"
    using assms by (auto simp: enabled_events_def)
  then obtain msg rest where q: "st_queue s (wk_thread (wkr s w)) = msg # rest" "is_io_message msg"
    by (cases "st_queue s (wk_thread (wkr s w))") auto
  then have "\<exists>s'. deliver_message env w (s\<lparr>st_world := d\<rparr>) = Some s'"
    by (cases msg) (simp_all add: deliver_message_def Let_def is_io_message_def)
  with that w show ?thesis by (auto simp: Ev_deliver)
next
  case (Ev_resume k)
  with assms that show ?thesis by (auto simp: enabled_events_def)
next
  case (Ev_complete k)
  with assms that show ?thesis by (auto simp: enabled_events_def)
qed

lemma batch_sys_inv_world: "batch_sys_inv lost (s\<lparr>st_world := d\<rparr>) = batch_sys_inv lost s"
  by (simp add: batch_sys_inv_def sys_inv_def quiet_def io_views)

lemma wait_returns:
  assumes "batch_sys_inv lost s" and "patient env pat" and "b < length (st_batches s)"
  shows "\<exists>s'. wait_for_batch env b s = Some s' \<and> batch_sys_inv lost s' \<and> kept s s' \<and>
    bt_remaining (st_batches s' ! b) = 0"
  using assms(1,3)
proof (induction "(pat (st_world s), open_count s, message_count s)" arbitrary: s
    rule: wf_induct [OF wf_lex_prod [OF wf_less_than wf_lex_prod [OF wf_less_than wf_less_than]], consumes 0])
  case (1 s)
  show ?case
  proof (cases "bt_remaining (st_batches s ! b) = 0")
    case True
    then show ?thesis using 1 by (subst wait_for_batch.simps) (simp add: kept_refl)
  next
    case False
    have inv: "sys_inv lost s" using "1.prems"(1) by (simp add: batch_sys_inv_def)
    then have "batch_inv (request_keys s) (done_col s) (st_batches s)"
      by (simp add: sys_inv_def io_inv_def)
    then have "card {r. r < length (request_keys s) \<and> key_batch (request_keys s ! r) = b \<and>
        \<not> done_col s ! r} \<noteq> 0"
      using False "1.prems"(2) by (simp add: batch_inv_def)
    then obtain r where r: "r < length (st_requests s)" "\<not> done_col s ! r"
      by (metis (no_types, lifting) card.empty empty_Collect_eq view_lengths(1))
    let ?es = "enabled_events s"
    have ne: "?es \<noteq> []" by (rule event_possible [OF "1.prems"(1) r])
    obtain k d where k: "se_pick env (length ?es) (st_world s) = (k, d)" by fastforce
    let ?s0 = "s\<lparr>st_world := d\<rparr>" and ?e = "?es ! (k mod length ?es)"
    have "?e \<in> set ?es" using ne by simp
    then obtain s1 where s1: "handle_event env ?e ?s0 = Some s1" by (rule enabled_handled)
    have i0: "batch_sys_inv lost ?s0" using "1.prems"(1) by (simp add: batch_sys_inv_world)
    note step = batch_sys_inv_event [OF i0 s1]
    have sk: "kept s s1" using kept_trans [OF _ step(2), of s] by (simp add: io_views)
    have "length (st_batches s1) = length (st_batches s)"
      using sk unfolding kept_def by (metis length_map)
    then have b: "b < length (st_batches s1)" using "1.prems"(2) by simp
    have "pat d \<le> pat (st_world s)" using assms(2) k unfolding patient_def by (metis snd_conv)
    moreover have "open_count ?s0 = open_count s" "message_count ?s0 = message_count s"
      by (simp_all add: open_count_def message_count_def io_views)
    moreover have "sys_inv lost ?s0" using i0 by (simp add: batch_sys_inv_def)
    note event_decreases [OF this assms(2) s1]
    ultimately have "((pat (st_world s1), open_count s1, message_count s1),
        (pat (st_world s), open_count s, message_count s)) \<in> less_than <*lex*> less_than <*lex*> less_than"
      by auto
    with "1.hyps" step(1) b obtain s' where "wait_for_batch env b s1 = Some s'"
      "batch_sys_inv lost s'" "kept s1 s'" "bt_remaining (st_batches s' ! b) = 0" by blast
    moreover have "wait_for_batch env b s = wait_for_batch env b s1"
      using False ne k s1 by (subst wait_for_batch.simps) simp
    ultimately show ?thesis using kept_trans [OF sk] by metis
  qed
qed

end
