(* ===== verification/Bdev_System.thy ===== *)
theory Bdev_System
  imports Bdev_Batch
begin

text \<open>
  The I/O path as one transition system: batches are submitted by any number of callers while
  the events of earlier batches are handled, in any order. Submission keeps the invariant of
  the I/O path, so it holds in every reachable state; the properties of the I/O path follow.
\<close>

section \<open>Making requests\<close>

definition announce :: "nat \<Rightarrow> 'd spdk_state \<Rightarrow> 'd spdk_state" where
  "announce n = upd_metrics (\<lambda>m. m\<lparr>m_submitted := m_submitted m + of_nat n\<rparr>)"

lemma announce_views [io_views]:
  "request_keys (announce n s) = request_keys s" "lease_col (announce n s) = lease_col s"
  "done_col (announce n s) = done_col s" "worker_keys (announce n s) = worker_keys s"
  "pool_col (announce n s) = pool_col s" "pending_col (announce n s) = pending_col s"
  "draining_col (announce n s) = draining_col s" "context_key (announce n s) = context_key s"
  "st_batches (announce n s) = st_batches s" "st_queue (announce n s) = st_queue s"
  "st_waiting (announce n s) = st_waiting s" "st_in_flight (announce n s) = st_in_flight s"
  "st_memory (announce n s) = st_memory s" "st_dma (announce n s) = st_dma s"
  "st_world (announce n s) = st_world s" "st_requests (announce n s) = st_requests s"
  "bc_io_workers (announce n s) = bc_io_workers s"
  by (simp_all add: announce_def io_views)

lemma announce_0 [simp]: "announce 0 s = s"
  by (simp add: announce_def upd_metrics_def)

lemma announce_Suc: "announce n (upd_metrics (\<lambda>m. m\<lparr>m_submitted := m_submitted m + 1\<rparr>) s) = announce (Suc n) s"
  by (simp add: announce_def upd_metrics_def ac_simps)

lemma announce_world: "announce n (s\<lparr>st_world := d\<rparr>) = (announce n s)\<lparr>st_world := d\<rparr>"
  by (simp add: announce_def upd_metrics_def)

lemma geometry_world [simp]: "bc_geometry (announce n s) = bc_geometry s"
  by (simp add: announce_def upd_metrics_def)

text \<open>The requests of a batch: one for each item, dealt out to the workers in turn.\<close>

definition requests_of ::
  "u64 \<Rightarrow> u64 \<Rightarrow> nat \<Rightarrow> nat \<Rightarrow> io_operation \<Rightarrow> io_batch_item list \<Rightarrow> io_request list \<Rightarrow> bool" where
  "requests_of first n b i operation items qs \<longleftrightarrow> length qs = length items \<and>
     (\<forall>k<length items. \<exists>now. qs ! k =
        new_request (unat ((first + of_nat (i + k)) mod n)) b (i + k) operation (items ! k) now)"

lemma make_requests_effect:
  assumes "make_requests env first n b i operation items s = (res, s')"
  shows "\<exists>m d. s' = (announce m s)\<lparr>st_world := d\<rparr> \<and>
    (case res of
       Inr qs \<Rightarrow> m = length items \<and> requests_of first n b i operation items qs \<and>
         (\<forall>item\<in>set items. validate_item (bc_geometry s) item = Inr ())
     | Inl e \<Rightarrow> m < length items \<and> validate_item (bc_geometry s) (items ! m) = Inl e \<and>
         (\<forall>k<m. validate_item (bc_geometry s) (items ! k) = Inr ()))"
  using assms
proof (induction items arbitrary: i s res s')
  case Nil
  then show ?case by (intro exI [of _ 0] exI [of _ "st_world s"]) (auto simp: requests_of_def)
next
  case (Cons item items)
  show ?case
  proof (cases "validate_item (bc_geometry s) item")
    case (Inl e)
    with Cons.prems show ?thesis
      by (intro exI [of _ 0] exI [of _ "st_world s"]) auto
  next
    case ok: (Inr u)
    obtain now d where c: "se_now env (st_world s) = (now, d)" by fastforce
    let ?s2 = "upd_metrics (\<lambda>m. m\<lparr>m_submitted := m_submitted m + 1\<rparr>) (s\<lparr>st_world := d\<rparr>)"
    let ?q = "new_request (unat ((first + of_nat i) mod n)) b i operation item now"
    obtain res1 s3 where rec: "make_requests env first n b (Suc i) operation items ?s2 = (res1, s3)"
      by fastforce
    have g: "bc_geometry ?s2 = bc_geometry s" by (simp add: upd_metrics_def)
    from Cons.IH [OF rec] obtain m d' where s3: "s3 = (announce m ?s2)\<lparr>st_world := d'\<rparr>"
      and r1: "case res1 of
         Inr qs \<Rightarrow> m = length items \<and> requests_of first n b (Suc i) operation items qs \<and>
           (\<forall>item\<in>set items. validate_item (bc_geometry s) item = Inr ())
       | Inl e \<Rightarrow> m < length items \<and> validate_item (bc_geometry s) (items ! m) = Inl e \<and>
           (\<forall>k<m. validate_item (bc_geometry s) (items ! k) = Inr ())"
      unfolding g by blast
    have s3': "s3 = (announce (Suc m) s)\<lparr>st_world := d'\<rparr>"
      unfolding s3 announce_Suc announce_world by simp
    show ?thesis
    proof (cases res1)
      case (Inl e)
      then have "res = Inl e" "s' = s3"
        using Cons.prems ok rec by (simp_all add: clock_now_def c Let_def)
      with s3' r1 Inl ok show ?thesis
        by (intro exI [of _ "Suc m"] exI [of _ d']) (auto simp: nth_Cons split: nat.split)
    next
      case (Inr qs)
      then have e: "res = Inr (?q # qs)" "s' = s3"
        using Cons.prems ok rec by (simp_all add: clock_now_def c Let_def)
      have "requests_of first n b i operation (item # items) (?q # qs)"
        using r1 Inr by (auto simp: requests_of_def nth_Cons ac_simps split: nat.split)
      with s3' r1 Inr ok e show ?thesis
        by (intro exI [of _ "Suc m"] exI [of _ d']) simp
    qed
  qed
qed

lemma io_inv_announce:
  "io_inv lost {} rs s \<Longrightarrow> io_inv (lost + n) {} rs (announce n s)"
  by (simp add: io_inv_def io_views count_inv_def)
    (simp add: announce_def upd_metrics_def io_counts_def ac_simps)

section \<open>A new batch\<close>

definition add_batch :: "nat \<Rightarrow> io_request list \<Rightarrow> 'd spdk_state \<Rightarrow> 'd spdk_state" where
  "add_batch n qs s = s\<lparr>st_requests := st_requests s @ qs,
     st_batches := st_batches s @ [\<lparr>bt_remaining = n, bt_results = replicate n empty_result\<rparr>]\<rparr>"

lemma add_batch_views [io_views]:
  "request_keys (add_batch n qs s) = request_keys s @ map request_key qs"
  "lease_col (add_batch n qs s) = lease_col s @ map rq_buffer_index qs"
  "done_col (add_batch n qs s) = done_col s @ map rq_completed qs"
  "worker_keys (add_batch n qs s) = worker_keys s" "pool_col (add_batch n qs s) = pool_col s"
  "pending_col (add_batch n qs s) = pending_col s" "draining_col (add_batch n qs s) = draining_col s"
  "context_key (add_batch n qs s) = context_key s" "st_queue (add_batch n qs s) = st_queue s"
  "st_waiting (add_batch n qs s) = st_waiting s" "st_in_flight (add_batch n qs s) = st_in_flight s"
  "st_memory (add_batch n qs s) = st_memory s" "st_dma (add_batch n qs s) = st_dma s"
  "st_world (add_batch n qs s) = st_world s" "bc_io_workers (add_batch n qs s) = bc_io_workers s"
  "bc_metrics (add_batch n qs s) = bc_metrics s"
  by (simp_all add: add_batch_def column_defs context_key_def)

text \<open>What a list of new requests has in common: they are incomplete and hold no buffer.\<close>

definition fresh_requests :: "nat \<Rightarrow> nat \<Rightarrow> nat \<Rightarrow> io_request list \<Rightarrow> bool" where
  "fresh_requests workers b n qs \<longleftrightarrow> length qs = n \<and>
     (\<forall>k<n. rq_worker (qs ! k) < workers \<and> rq_batch (qs ! k) = b \<and> rq_result_index (qs ! k) = k \<and>
        rq_buffer_index (qs ! k) = None \<and> \<not> rq_completed (qs ! k))"

lemma fresh_columns:
  assumes "fresh_requests workers b n qs"
  shows "map rq_buffer_index qs = replicate n None" and "map rq_completed qs = replicate n False"
    and "length (map request_key qs) = n"
    and "\<And>k. k < n \<Longrightarrow> key_worker (map request_key qs ! k) < workers \<and>
      key_batch (map request_key qs ! k) = b \<and> key_index (map request_key qs ! k) = k"
proof -
  have l: "length qs = n" using assms by (simp add: fresh_requests_def)
  have k: "rq_worker (qs ! k) < workers" "rq_batch (qs ! k) = b" "rq_result_index (qs ! k) = k"
    "rq_buffer_index (qs ! k) = None" "\<not> rq_completed (qs ! k)" if "k < n" for k
    using assms that by (simp_all add: fresh_requests_def)
  show "map rq_buffer_index qs = replicate n None" "map rq_completed qs = replicate n False"
    using l k(4,5) by (simp_all add: list_eq_iff_nth_eq)
  show "length (map request_key qs) = n" using l by simp
  show "\<And>k. k < n \<Longrightarrow> key_worker (map request_key qs ! k) < workers \<and>
      key_batch (map request_key qs ! k) = b \<and> key_index (map request_key qs ! k) = k"
    using l k by simp
qed

lemma nth_append_replicate:
  "r < length xs + n \<Longrightarrow> (xs @ replicate n x) ! r = (if r < length xs then xs ! r else x)"
  by (simp add: nth_append)

lemma open_list_append:
  "open_list (dn @ replicate n False) = open_list dn @ [length dn..<length dn + n]"
proof -
  have "filter (\<lambda>r. \<not> (dn @ replicate n False) ! r) [0..<length dn] = open_list dn"
    unfolding open_list_def by (rule filter_cong) (auto simp: nth_append)
  moreover have "filter (\<lambda>r. \<not> (dn @ replicate n False) ! r) [length dn..<length dn + n] =
      [length dn..<length dn + n]"
    by (rule filter_True) (auto simp: nth_append)
  ultimately show ?thesis
    unfolding open_list_def length_append length_replicate
      upt_add_eq_append [of 0 "length dn" n, OF le0] filter_append by simp
qed

lemma place_known:
  assumes "place_inv rs ks wks dn pend q waiting fl"
    and "r \<in> set rs \<or> r \<in> set waiting \<or> r \<in> bio_request ` set fl \<or>
      (\<exists>w<length wks. r \<in># worker_places wks pend q w)"
  shows "r < length ks"
proof -
  have "r \<in># mset rs + (\<Sum>w<length wks. worker_places wks pend q w) + mset waiting
      + mset (map bio_request fl)"
    using assms(2) by (auto simp: set_mset_sum)
  moreover have "mset rs + (\<Sum>w<length wks. worker_places wks pend q w) + mset waiting
      + mset (map bio_request fl) = mset (open_list dn)"
    using assms(1) by (simp only: place_inv_def)
  ultimately have "r \<in># mset (open_list dn)" by (simp only:)
  then show ?thesis using assms(1) by (simp add: set_open_list place_inv_def)
qed

lemma place_add:
  assumes "place_inv rs ks wks dn pend q waiting fl" and "length ks' = n"
    and "\<And>k. k < n \<Longrightarrow> key_worker (ks' ! k) < length wks"
  shows "place_inv ([length ks..<length ks + n] @ rs) (ks @ ks') wks (dn @ replicate n False) pend q
    waiting fl"
proof -
  have "key_worker ((ks @ ks') ! r) = w" if "w < length wks" "r \<in># worker_places wks pend q w" for w r
    using assms(1) that place_known [OF assms(1), of r] by (auto simp: place_inv_def nth_append)
  moreover have "key_worker k < length wks" if k: "k \<in> set ks'" for k
    using k assms(2,3) by (metis in_set_conv_nth)
  ultimately show ?thesis
    using assms(1,2) by (auto simp: place_inv_def open_list_append ac_simps)
qed

lemma lease_add:
  assumes "lease_inv {} ks lc pl fl" and "length ks' = n"
    and "\<And>k. k < n \<Longrightarrow> key_worker (ks' ! k) < length pl"
  shows "lease_inv {} (ks @ ks') (lc @ replicate n None) pl fl"
proof -
  have len: "length lc = length ks" using assms(1) by (simp add: lease_inv_def)
  have "holds (ks @ ks') (lc @ replicate n None) w = holds ks lc w" for w
    using len assms(2) by (auto simp: holds_def fun_eq_iff nth_append nth_append_replicate)
  moreover have held: "{r. r < length ks + n \<and> (lc @ replicate n None) ! r \<noteq> None} =
      {r. r < length ks \<and> lc ! r \<noteq> None}"
    using len by (auto simp: nth_append_replicate split: if_splits)
  moreover have "bio_ok (ks @ ks') (lc @ replicate n None) pl io" if "io \<in> set fl" for io
  proof -
    have "bio_request io \<in> {r. r < length ks \<and> lc ! r \<noteq> None}"
      using assms(1) that by (auto simp: lease_inv_def)
    moreover have "bio_ok ks lc pl io" using assms(1) that by (simp add: lease_inv_def)
    ultimately show ?thesis using len by (simp add: bio_ok_def Let_def nth_append)
  qed
  moreover have "key_worker k < length pl" if k: "k \<in> set ks'" for k
    using k assms(2,3) by (metis in_set_conv_nth)
  ultimately show ?thesis
    using assms(1,2) len by (auto simp: lease_inv_def)
qed

lemma batch_add:
  assumes "batch_inv ks dn bts" and "length ks' = n"
    and "\<And>k. k < n \<Longrightarrow> key_batch (ks' ! k) = length bts \<and> key_index (ks' ! k) = k"
  shows "batch_inv (ks @ ks') (dn @ replicate n False)
    (bts @ [\<lparr>bt_remaining = n, bt_results = replicate n x\<rparr>])"
proof -
  have len: "length dn = length ks" using assms(1) by (simp add: batch_inv_def)
  have old: "key_batch (ks ! r) < length bts" if "r < length ks" for r
    using assms(1) that by (simp add: batch_inv_def)
  have inj: "inj_on (\<lambda>r. (key_batch (ks ! r), key_index (ks ! r))) {..<length ks}"
    using assms(1) by (simp add: batch_inv_def)
  have "r = r'" if r: "r < length ks + n" "r' < length ks + n"
    and eq: "key_batch ((ks @ ks') ! r) = key_batch ((ks @ ks') ! r')"
      "key_index ((ks @ ks') ! r) = key_index ((ks @ ks') ! r')" for r r'
  proof (cases "r < length ks"; cases "r' < length ks")
    assume "r < length ks" "r' < length ks"
    with eq inj show ?thesis by (auto simp: nth_append dest: inj_onD)
  next
    assume "r < length ks" "\<not> r' < length ks"
    with eq r old [of r] assms(3) [of "r' - length ks"] show ?thesis by (simp add: nth_append)
  next
    assume "\<not> r < length ks" "r' < length ks"
    with eq r old [of r'] assms(3) [of "r - length ks"] show ?thesis by (simp add: nth_append)
  next
    assume "\<not> r < length ks" "\<not> r' < length ks"
    with eq r assms(3) [of "r - length ks"] assms(3) [of "r' - length ks"] show ?thesis
      by (simp add: nth_append)
  qed
  then have "inj_on (\<lambda>r. (key_batch ((ks @ ks') ! r), key_index ((ks @ ks') ! r))) {..<length ks + n}"
    by (auto intro!: inj_onI)
  moreover have "{r. r < length ks + n \<and> key_batch ((ks @ ks') ! r) = b \<and> \<not> (dn @ replicate n False) ! r} =
      {r. r < length ks \<and> key_batch (ks ! r) = b \<and> \<not> dn ! r}" if "b < length bts" for b
  proof (rule Collect_cong)
    fix r
    show "(r < length ks + n \<and> key_batch ((ks @ ks') ! r) = b \<and> \<not> (dn @ replicate n False) ! r) =
        (r < length ks \<and> key_batch (ks ! r) = b \<and> \<not> dn ! r)"
      using that assms(3) [of "r - length ks"] len by (cases "r < length ks") (auto simp: nth_append)
  qed
  moreover have "{r. r < length ks + n \<and> key_batch ((ks @ ks') ! r) = length bts \<and>
      \<not> (dn @ replicate n False) ! r} = {length ks..<length ks + n}"
  proof (rule set_eqI)
    fix r
    show "r \<in> {r. r < length ks + n \<and> key_batch ((ks @ ks') ! r) = length bts \<and>
        \<not> (dn @ replicate n False) ! r} \<longleftrightarrow> r \<in> {length ks..<length ks + n}"
      using assms(3) [of "r - length ks"] len old [of r]
      by (cases "r < length ks") (auto simp: nth_append)
  qed
  moreover have "key_batch k < Suc (length bts) \<and> key_index k < length (bt_results ((bts @
      [\<lparr>bt_remaining = n, bt_results = replicate n x\<rparr>]) ! key_batch k))" if "k \<in> set (ks @ ks')" for k
  proof (cases "k \<in> set ks")
    case True
    then show ?thesis using assms(1) by (auto simp: batch_inv_def nth_append)
  next
    case False
    with that obtain i where "i < n" "k = ks' ! i" using assms(2) by (auto simp: in_set_conv_nth)
    with assms(3) [of i] show ?thesis by simp
  qed
  ultimately show ?thesis
    using assms(1,2) len by (simp add: batch_inv_def nth_append less_Suc_eq)
qed

lemma count_add:
  assumes "count_inv (lost + n) seg ks lc dn bts counts" and "length ks' = n"
    and "length lc = length ks" "length dn = length ks"
    and "\<And>r. r < length ks \<Longrightarrow> key_batch (ks ! r) < length bts"
  shows "count_inv lost seg (ks @ ks') (lc @ replicate n None) (dn @ replicate n False) (bts @ [bt]) counts"
proof -
  have result: "result_at (ks @ ks') (bts @ [bt]) r = result_at ks bts r" if "r < length ks" for r
    using that assms(5) [of r] by (simp add: result_at_def nth_append)
  have "{r. r < length ks + n \<and> (dn @ replicate n False) ! r} = {r. r < length ks \<and> dn ! r}"
    using assms(4) by (auto simp: nth_append_replicate split: if_splits)
  moreover have "{r. r < length ks + n \<and> (dn @ replicate n False) ! r \<and>
      P (res_success (result_at (ks @ ks') (bts @ [bt]) r))} =
      {r. r < length ks \<and> dn ! r \<and> P (res_success (result_at ks bts r))}" for P
    using assms(4) result by (auto simp: nth_append_replicate split: if_splits)
  note this [of "\<lambda>x. x"] this [of Not]
  moreover have "{r. r < length ks + n \<and> (lc @ replicate n None) ! r \<noteq> None} =
      {r. r < length ks \<and> lc ! r \<noteq> None}"
    using assms(3) by (auto simp: nth_append_replicate split: if_splits)
  ultimately show ?thesis using assms(1,2) by (simp add: count_inv_def ac_simps)
qed

lemma io_inv_add_batch:
  assumes inv: "io_inv (lost + n) {} [] s"
    and new: "fresh_requests (length (bc_io_workers s)) (length (st_batches s)) n qs"
  shows "io_inv lost {} [length (st_requests s)..<length (st_requests s) + n] (add_batch n qs s)"
proof -
  note cols = fresh_columns [OF new]
  have len: "length (lease_col s) = length (request_keys s)" "length (done_col s) = length (request_keys s)"
    by simp_all
  have b: "key_batch (request_keys s ! r) < length (st_batches s)" if "r < length (request_keys s)" for r
    using inv that nth_mem [OF that] by (auto simp: io_inv_def batch_inv_def)
  show ?thesis
    using inv place_add [of "[]" "request_keys s" "worker_keys s" "done_col s" "pending_col s"
        "st_queue s" "st_waiting s" "st_in_flight s", OF _ cols(3)]
      lease_add [of "request_keys s" "lease_col s" "pool_col s" "st_in_flight s", OF _ cols(3)]
      batch_add [of "request_keys s" "done_col s" "st_batches s", OF _ cols(3)]
      count_add [OF _ cols(3) len b] cols(4)
    by (simp add: io_inv_def io_views cols(1,2)) (simp add: add_batch_def)
qed

section \<open>Sending the dispatches\<close>

lemma io_inv_mset: "mset rs = mset rs' \<Longrightarrow> io_inv lost H rs s = io_inv lost H rs' s"
  by (simp add: io_inv_def place_inv_def)

text \<open>What sending leaves alone, the completions of refused dispatches apart.\<close>

definition sent_only :: "'d spdk_state \<Rightarrow> 'd spdk_state \<Rightarrow> bool" where
  "sent_only s s' \<longleftrightarrow> kept s s' \<and> worker_keys s' = worker_keys s \<and> pool_col s' = pool_col s \<and>
     pending_col s' = pending_col s \<and> draining_col s' = draining_col s \<and>
     context_key s' = context_key s \<and> st_in_flight s' = st_in_flight s \<and>
     st_waiting s' = st_waiting s \<and> st_memory s' = st_memory s \<and> st_dma s' = st_dma s \<and>
     (\<forall>t. \<exists>ms. st_queue s' t = st_queue s t @ ms \<and> (\<forall>m\<in>set ms. is_io_message m))"

lemma sent_only_trans: "sent_only s s' \<Longrightarrow> sent_only s' s'' \<Longrightarrow> sent_only s s''"
  unfolding sent_only_def
  by (intro conjI; (use kept_trans in blast)?; simp?) (metis (no_types, opaque_lifting) UnE append.assoc set_append)

lemma sent_onlyI:
  assumes "kept s s'" "worker_keys s' = worker_keys s" "pool_col s' = pool_col s"
    "pending_col s' = pending_col s" "draining_col s' = draining_col s"
    "context_key s' = context_key s" "st_in_flight s' = st_in_flight s"
    "st_waiting s' = st_waiting s" "st_memory s' = st_memory s" "st_dma s' = st_dma s"
    "st_queue s' = st_queue s"
  shows "sent_only s s'"
  using assms by (simp add: sent_only_def)

lemma complete_request_sent:
  assumes "io_inv lost {} (r # rs) s"
  shows "io_inv lost {} rs (complete_request r ok error s)" and "sent_only s (complete_request r ok error s)"
  using io_inv_done [OF assms] kept_done [OF assms] by (auto intro!: sent_onlyI simp: io_views)

lemma complete_all_inv:
  assumes "io_inv lost {} (rs @ rest) s"
  shows "io_inv lost {} rest (complete_all rs error s) \<and> sent_only s (complete_all rs error s)"
  using assms
proof (induction rs arbitrary: s)
  case Nil
  then show ?case by (simp add: sent_onlyI kept_refl)
next
  case (Cons r rs)
  have i: "io_inv lost {} (r # rs @ rest) s" using Cons.prems by simp
  note step = complete_request_sent [OF i, of False error]
  with Cons.IH [OF step(1)] show ?case using sent_only_trans [OF step(2)] by simp
qed

lemma context_send_message_inv:
  assumes inv: "io_inv lost {} (rs @ rest) s" and w: "w < length (bc_io_workers s)"
    and ws: "\<forall>r\<in>set rs. rq_worker (req s r) = w \<and> r < length (st_requests s)"
    and sent: "context_send_message env (Some (wk_thread (wkr s w))) (Msg_execute_batch rs) s = (res, s')"
  shows "case res of Inl _ \<Rightarrow> io_inv lost {} (rs @ rest) s' | Inr _ \<Rightarrow> io_inv lost {} rest s'"
    and "sent_only s s'"
proof -
  have "(case res of Inl _ \<Rightarrow> io_inv lost {} (rs @ rest) s' | Inr _ \<Rightarrow> io_inv lost {} rest s') \<and>
      sent_only s s'"
  proof (cases "s' = s \<and> (\<exists>e. res = Inl e)")
    case True
    then show ?thesis using inv by (auto simp: sent_onlyI kept_refl)
  next
    case False
    let ?t = "wk_thread (wkr s w)" and ?m = "Msg_execute_batch rs"
    obtain rt where rt: "bc_runtime s = Some rt" "runtime_is_available rt"
      using sent False
      by (auto simp: context_send_message_def runtime_send_message_def Let_def
          split: option.splits if_splits)
    obtain code s1 where c: "thread_send_msg env ?t ?m s = (code, s1)" by fastforce
    have res: "res = runtime_send_message (se_host env) (Some ?t) code rt" "s' = s1"
      using sent rt c False by (auto simp: context_send_message_def Let_def split: if_splits)
    note th = thread_send_msg_inv [OF _ w refl _ _ c, of lost rest, simplified, OF inv]
    have "if code = 0 then io_inv lost {} rest s1 else io_inv lost {} (rs @ rest) s1"
      using th(1) ws by auto
    moreover have "sent_only s s1"
      using c by (auto simp: thread_send_msg_def sent_only_def io_views is_io_message_def kept_refl
          split: prod.splits if_splits)
    ultimately show ?thesis using rt by (auto simp: res runtime_send_message_def)
  qed
  then show "case res of Inl _ \<Rightarrow> io_inv lost {} (rs @ rest) s' | Inr _ \<Rightarrow> io_inv lost {} rest s'"
    and "sent_only s s'" by blast+
qed

lemma sent_only_requests:
  assumes "sent_only s s'"
  shows "length (st_requests s') = length (st_requests s)"
    and "length (bc_io_workers s') = length (bc_io_workers s)"
    and "r < length (st_requests s) \<Longrightarrow> rq_worker (req s' r) = rq_worker (req s r)"
    and "w < length (bc_io_workers s) \<Longrightarrow> wk_thread (wkr s' w) = wk_thread (wkr s w)"
proof -
  have k: "request_keys s' = request_keys s" "worker_keys s' = worker_keys s"
    using assms by (simp_all add: sent_only_def kept_def)
  show l: "length (st_requests s') = length (st_requests s)"
    "length (bc_io_workers s') = length (bc_io_workers s)"
    using length_requests_eq [OF k(1)] length_workers_eq [OF k(2)] by simp_all
  show "r < length (st_requests s) \<Longrightarrow> rq_worker (req s' r) = rq_worker (req s r)"
    using l k(1) by (metis column_nth(1) key_simps(1))
  show "w < length (bc_io_workers s) \<Longrightarrow> wk_thread (wkr s' w) = wk_thread (wkr s w)"
    using l k(2) by (metis column_nth(4) key_simps(5))
qed

lemma send_dispatches_inv:
  assumes "io_inv lost {} (concat (map dispatch ws) @ rest) s"
    and "\<forall>w\<in>set ws. w < length (bc_io_workers s) \<and>
      (\<forall>r\<in>set (dispatch w). rq_worker (req s r) = w \<and> r < length (st_requests s))"
  shows "io_inv lost {} rest (send_dispatches env dispatch ws s)"
    and "sent_only s (send_dispatches env dispatch ws s)"
proof -
  have "io_inv lost {} rest (send_dispatches env dispatch ws s) \<and>
      sent_only s (send_dispatches env dispatch ws s)"
    using assms
  proof (induction ws arbitrary: s)
    case Nil
    then show ?case by (simp add: sent_onlyI kept_refl)
  next
    case (Cons w ws)
    let ?rest = "concat (map dispatch ws) @ rest"
    define s1 where "s1 = (if dispatch w = [] then s
        else case context_send_message env (Some (wk_thread (wkr s w)))
                    (Msg_execute_batch (dispatch w)) s of
               (Inr _, s1) \<Rightarrow> s1
             | (Inl e, s1) \<Rightarrow> complete_all (dispatch w) (what e) s1)"
    have "io_inv lost {} ?rest s1 \<and> sent_only s s1"
    proof (cases "dispatch w = []")
      case True
      then show ?thesis using Cons.prems(1) by (simp add: s1_def sent_onlyI kept_refl)
    next
      case False
      obtain res s2 where c: "context_send_message env (Some (wk_thread (wkr s w)))
          (Msg_execute_batch (dispatch w)) s = (res, s2)" by fastforce
      have i: "io_inv lost {} (dispatch w @ ?rest) s" using Cons.prems(1) by simp
      note cs = context_send_message_inv [OF i _ _ c]
      have h: "case res of Inl _ \<Rightarrow> io_inv lost {} (dispatch w @ ?rest) s2 | Inr _ \<Rightarrow> io_inv lost {} ?rest s2"
        "sent_only s s2" using cs Cons.prems(2) by auto
      then show ?thesis
        using False c complete_all_inv [of lost "dispatch w" ?rest s2]
          sent_only_trans [of s s2 "complete_all (dispatch w) e s2" for e]
        by (cases res) (auto simp: s1_def)
    qed
    then have s1: "io_inv lost {} ?rest s1" "sent_only s s1" by simp_all
    have "\<forall>w\<in>set ws. w < length (bc_io_workers s1) \<and>
        (\<forall>r\<in>set (dispatch w). rq_worker (req s1 r) = w \<and> r < length (st_requests s1))"
      using Cons.prems(2) sent_only_requests [OF s1(2)] by simp
    with Cons.IH [OF s1(1)] have "io_inv lost {} rest (send_dispatches env dispatch ws s1)"
      "sent_only s1 (send_dispatches env dispatch ws s1)" by simp_all
    moreover have "send_dispatches env dispatch (w # ws) s = send_dispatches env dispatch ws s1"
      by (simp add: s1_def)
    ultimately show ?case using sent_only_trans [OF s1(2)] by simp
  qed
  then show "io_inv lost {} rest (send_dispatches env dispatch ws s)"
    and "sent_only s (send_dispatches env dispatch ws s)" by simp_all
qed

text \<open>The dispatches of all workers are the requests of the batch.\<close>

lemma mset_filters:
  assumes "\<forall>x\<in>set xs. f x < n"
  shows "mset (concat (map (\<lambda>w. filter (\<lambda>x. f x = w) xs) [0..<n])) = mset xs"
proof -
  have "mset (concat (map (\<lambda>w. filter (\<lambda>x. f x = w) xs) [0..<n])) =
      (\<Sum>w<n. filter_mset (\<lambda>x. f x = w) (mset xs))"
    by (simp add: mset_concat sum_list_sum_nth atLeast0LessThan)
  also have "\<dots> = mset xs"
  proof (rule multiset_eqI)
    fix x
    have "count (\<Sum>w<n. filter_mset (\<lambda>x. f x = w) (mset xs)) x =
        (\<Sum>w<n. if f x = w then count (mset xs) x else 0)"
      by (simp add: count_sum if_distrib)
    also have "\<dots> = (if f x < n then count (mset xs) x else 0)"
      by (subst sum.delta') auto
    also have "\<dots> = count (mset xs) x"
      using assms by (metis count_inI set_mset_mset)
    finally show "count (\<Sum>w<n. filter_mset (\<lambda>x. f x = w) (mset xs)) x = count (mset xs) x" .
  qed
  finally show ?thesis .
qed

lemma dispatch_all:
  assumes "\<forall>k<length qs. rq_worker (qs ! k) < n"
  shows "mset (concat (map (dispatch_of base qs) [0..<n])) = mset [base..<base + length qs]"
proof -
  have "concat (map (dispatch_of base qs) [0..<n]) = map ((+) base)
      (concat (map (\<lambda>w. filter (\<lambda>i. rq_worker (qs ! i) = w) [0..<length qs]) [0..<n]))"
    by (simp add: dispatch_of_def [of base qs, abs_def] map_concat comp_def)
  moreover have "mset (concat (map (\<lambda>w. filter (\<lambda>i. rq_worker (qs ! i) = w) [0..<length qs]) [0..<n]))
      = mset [0..<length qs]"
    using assms by (intro mset_filters) simp
  moreover have "map ((+) base) [0..<length qs] = [base..<base + length qs]"
    by (intro nth_equalityI) simp_all
  ultimately show ?thesis by (metis mset_map)
qed

section \<open>Submission keeps the invariant\<close>

lemma requests_fresh:
  assumes "requests_of first (of_nat n) b 0 operation items qs" and "0 < n" "n < 2 ^ 64"
  shows "fresh_requests n b (length items) qs"
proof -
  have "unat (x mod of_nat n :: u64) < n" for x
    using assms(2,3) by (simp add: unat_mod unat_of_nat)
  then show ?thesis
    using assms(1) by (fastforce simp: requests_of_def fresh_requests_def new_request_def)
qed

text \<open>A submission adds one batch and its requests, or nothing.\<close>

definition refusing :: "'d spdk_state \<Rightarrow> bool" where
  "refusing s \<longleftrightarrow> bc_closed s \<or> bc_shutdown_requested s \<or> \<not> bc_initialization_succeeded s \<or>
     bc_io_workers s = []"

lemma submit_batch_cases:
  assumes "submit_batch env operation items s = (res, s')"
  shows "(\<exists>e. res = Inl e \<and> s' = s \<and> refusing s) \<or>
    (\<exists>e m d. res = Inl e \<and> \<not> refusing s \<and> m < length items \<and>
       validate_item (bc_geometry s) (items ! m) = Inl e \<and>
       (\<forall>k<m. validate_item (bc_geometry s) (items ! k) = Inr ()) \<and>
       s' = (announce m (s\<lparr>bc_next_io_worker := bc_next_io_worker s + 1\<rparr>))\<lparr>st_world := d\<rparr>) \<or>
    (\<exists>qs d. res = Inr (length (st_batches s)) \<and>
       \<not> refusing s \<and>
       requests_of (bc_next_io_worker s mod of_nat (length (bc_io_workers s)))
         (of_nat (length (bc_io_workers s))) (length (st_batches s)) 0 operation items qs \<and>
       (\<forall>item\<in>set items. validate_item (bc_geometry s) item = Inr ()) \<and>
       s' = send_dispatches env (dispatch_of (length (st_requests s)) qs) [0..<length (bc_io_workers s)]
         (add_batch (length items) qs ((announce (length items)
            (s\<lparr>bc_next_io_worker := bc_next_io_worker s + 1\<rparr>))\<lparr>st_world := d\<rparr>)))"
proof (cases "refusing s")
  case True
  then show ?thesis using assms by (auto simp: submit_batch_def refusing_def split: if_splits)
next
  case False
  let ?n = "of_nat (length (bc_io_workers s)) :: u64"
  let ?s1 = "s\<lparr>bc_next_io_worker := bc_next_io_worker s + 1\<rparr>"
  obtain r s2 where m: "make_requests env (bc_next_io_worker s mod ?n) ?n (length (st_batches s)) 0
      operation items ?s1 = (r, s2)" by fastforce
  have g: "bc_geometry ?s1 = bc_geometry s" by simp
  from make_requests_effect [OF m, unfolded g] obtain k d where s2: "s2 = (announce k ?s1)\<lparr>st_world := d\<rparr>"
    and r: "case r of
       Inr qs \<Rightarrow> k = length items \<and>
         requests_of (bc_next_io_worker s mod ?n) ?n (length (st_batches s)) 0 operation items qs \<and>
         (\<forall>item\<in>set items. validate_item (bc_geometry s) item = Inr ())
     | Inl e \<Rightarrow> k < length items \<and> validate_item (bc_geometry s) (items ! k) = Inl e \<and>
         (\<forall>j<k. validate_item (bc_geometry s) (items ! j) = Inr ())" by blast
  show ?thesis
  proof (cases r)
    case (Inl e)
    then have "res = Inl e" "s' = s2"
      using assms False m by (simp_all add: submit_batch_def refusing_def Let_def)
    with r Inl s2 False show ?thesis by auto
  next
    case (Inr qs)
    then have "res = Inr (length (st_batches s))"
      "s' = send_dispatches env (dispatch_of (length (st_requests s)) qs)
         [0..<length (bc_io_workers s)] (add_batch (length items) qs s2)"
      using assms False m s2
      by (simp_all add: submit_batch_def refusing_def Let_def add_batch_def io_views announce_def upd_metrics_def)
    with r Inr s2 False show ?thesis by auto
  qed
qed

text \<open>
  The items a refused submission has already counted as submitted: those before the first that
  fails validation. An accepted batch loses none.
\<close>

definition lost_items :: "'d spdk_state \<Rightarrow> io_batch_item list \<Rightarrow> nat" where
  "lost_items s items =
     (if refusing s \<or> (\<forall>item\<in>set items. validate_item (bc_geometry s) item = Inr ()) then 0
      else length (takeWhile (\<lambda>item. validate_item (bc_geometry s) item = Inr ()) items))"

lemma takeWhile_first:
  "m < length xs \<Longrightarrow> \<not> P (xs ! m) \<Longrightarrow> \<forall>k<m. P (xs ! k) \<Longrightarrow> length (takeWhile P xs) = m"
  by (metis length_takeWhile_less_P_nth nat_neq_iff nth_length_takeWhile nth_mem
      order_less_trans set_takeWhileD takeWhile_nth)

lemma lost_items_accepted:
  "\<forall>item\<in>set items. validate_item (bc_geometry s) item = Inr () \<Longrightarrow> lost_items s items = 0"
  by (simp add: lost_items_def)

lemma lost_items_refused:
  assumes "\<not> refusing s" and "m < length items" and "validate_item (bc_geometry s) (items ! m) = Inl e"
    and "\<forall>k<m. validate_item (bc_geometry s) (items ! k) = Inr ()"
  shows "lost_items s items = m"
proof -
  have "\<not> (\<forall>item\<in>set items. validate_item (bc_geometry s) item = Inr ())"
    using assms(2,3) nth_mem [OF assms(2)] by (metis Inl_Inr_False)
  then show ?thesis
    using assms takeWhile_first [of m items "\<lambda>item. validate_item (bc_geometry s) item = Inr ()"]
    by (simp only: lost_items_def simp_thms if_False) simp
qed

definition bdev_inv :: "nat \<Rightarrow> 'd spdk_state \<Rightarrow> bool" where
  "bdev_inv lost s \<longleftrightarrow> batch_sys_inv lost s \<and> length (bc_io_workers s) < 2 ^ 64"

text \<open>Requests made before stay as they are, and those that are done keep their results.\<close>

definition extends :: "'d spdk_state \<Rightarrow> 'd spdk_state \<Rightarrow> bool" where
  "extends s s' \<longleftrightarrow>
     (\<exists>ks. request_keys s' = request_keys s @ ks) \<and>
     (\<exists>ls. map (\<lambda>b. length (bt_results b)) (st_batches s') =
        map (\<lambda>b. length (bt_results b)) (st_batches s) @ ls) \<and>
     (\<forall>r<length (st_requests s). done_col s ! r \<longrightarrow> done_col s' ! r \<and>
        result_at (request_keys s') (st_batches s') r = result_at (request_keys s) (st_batches s) r)"

lemma extends_lengths:
  assumes "extends s s'"
  shows "length (st_requests s) \<le> length (st_requests s')"
    and "length (st_batches s) \<le> length (st_batches s')"
    and "r < length (st_requests s) \<Longrightarrow> request_keys s' ! r = request_keys s ! r"
proof -
  obtain ks ls where k: "request_keys s' = request_keys s @ ks"
    "map (\<lambda>b. length (bt_results b)) (st_batches s') =
        map (\<lambda>b. length (bt_results b)) (st_batches s) @ ls"
    using assms by (auto simp: extends_def)
  show "length (st_requests s) \<le> length (st_requests s')"
    using arg_cong [OF k(1), of length] by simp
  show "length (st_batches s) \<le> length (st_batches s')"
    using arg_cong [OF k(2), of length] by simp
  show "r < length (st_requests s) \<Longrightarrow> request_keys s' ! r = request_keys s ! r"
    using k(1) by (simp add: nth_append)
qed

lemma extends_trans: "extends s s' \<Longrightarrow> extends s' s'' \<Longrightarrow> extends s s''"
proof -
  assume a: "extends s s'" and b: "extends s' s''"
  have l: "length (st_requests s) \<le> length (st_requests s')" by (rule extends_lengths(1) [OF a])
  obtain ks ks' ls ls' where "request_keys s' = request_keys s @ ks" "request_keys s'' = request_keys s' @ ks'"
    "map (\<lambda>b. length (bt_results b)) (st_batches s') = map (\<lambda>b. length (bt_results b)) (st_batches s) @ ls"
    "map (\<lambda>b. length (bt_results b)) (st_batches s'') = map (\<lambda>b. length (bt_results b)) (st_batches s') @ ls'"
    using a b unfolding extends_def by blast
  then have "request_keys s'' = request_keys s @ (ks @ ks')"
    "map (\<lambda>b. length (bt_results b)) (st_batches s'') = map (\<lambda>b. length (bt_results b)) (st_batches s) @ (ls @ ls')"
    by simp_all
  moreover have "done_col s'' ! r \<and>
      result_at (request_keys s'') (st_batches s'') r = result_at (request_keys s) (st_batches s) r"
    if "r < length (st_requests s)" "done_col s ! r" for r
  proof -
    have "done_col s' ! r" "r < length (st_requests s')" 
      "result_at (request_keys s') (st_batches s') r = result_at (request_keys s) (st_batches s) r"
      using a l that by (simp_all add: extends_def)
    with b show ?thesis by (simp add: extends_def)
  qed
  ultimately show ?thesis unfolding extends_def by blast
qed

lemma kept_extends: "kept s s' \<Longrightarrow> extends s s'"
  by (auto simp: kept_def extends_def)

lemma extends_same:
  "request_keys s' = request_keys s \<Longrightarrow> done_col s' = done_col s \<Longrightarrow> st_batches s' = st_batches s \<Longrightarrow>
     extends s s'"
  by (intro kept_extends kept_refl)

lemma extends_add_batch:
  assumes "batch_inv (request_keys s) (done_col s) (st_batches s)"
  shows "extends s (add_batch n qs s)"
proof -
  have "result_at (request_keys s @ ks) (st_batches s @ bs) r = result_at (request_keys s) (st_batches s) r"
    if r: "r < length (st_requests s)" for ks bs r
  proof -
    have "key_batch (request_keys s ! r) < length (st_batches s)"
      using assms r nth_mem [of r "request_keys s"] by (simp add: batch_inv_def)
    then show ?thesis using r by (simp add: result_at_def nth_append)
  qed
  then show ?thesis
    by (simp add: extends_def io_views nth_append) (simp add: add_batch_def)
qed

lemma submit_batch_inv:
  assumes inv: "bdev_inv lost s" and sub: "submit_batch env operation items s = (res, s')"
  shows "bdev_inv (lost + lost_items s items) s'" and "extends s s'"
    and "res = Inr b \<Longrightarrow> b = length (st_batches s) \<and> b < length (st_batches s') \<and>
      length (bt_results (st_batches s' ! b)) = length items"
proof -
  have i: "io_inv lost {} [] s" and q: "\<forall>w<length (bc_io_workers s). quiet s w \<and> \<not> draining_col s ! w"
    and m: "\<forall>w<length (bc_io_workers s). \<forall>msg\<in>set (st_queue s (wk_thread (wkr s w))). is_io_message msg"
    and l: "length (bc_io_workers s) < 2 ^ 64"
    using inv by (simp_all add: bdev_inv_def batch_sys_inv_def sys_inv_def)
  let ?s1 = "s\<lparr>bc_next_io_worker := bc_next_io_worker s + 1\<rparr>"
  have i1: "io_inv lost {} [] ?s1" using i by (simp add: io_inv_def column_defs context_key_def)
  have "bdev_inv (lost + lost_items s items) s' \<and> extends s s' \<and> (\<forall>b. res = Inr b \<longrightarrow>
      b = length (st_batches s) \<and> b < length (st_batches s') \<and>
      length (bt_results (st_batches s' ! b)) = length items)"
    using submit_batch_cases [OF sub]
  proof (elim disjE exE conjE)
    fix e assume "res = Inl e" "s' = s" "refusing s"
    then show ?thesis using inv by (auto simp: extends_same lost_items_def)
  next
    fix e k d
    assume "res = Inl e" and s': "s' = (announce k ?s1)\<lparr>st_world := d\<rparr>" and "\<not> refusing s"
      and "k < length items" and "validate_item (bc_geometry s) (items ! k) = Inl e"
      and "\<forall>j<k. validate_item (bc_geometry s) (items ! j) = Inr ()"
    then have k: "lost_items s items = k" by (intro lost_items_refused)
    have "io_inv (lost + k) {} [] s'"
      using io_inv_announce [OF i1, of k] by (simp add: s')
    then have "bdev_inv (lost + k) s'"
      using q m l by (simp add: bdev_inv_def batch_sys_inv_def sys_inv_def quiet_def s' io_views)
        (simp add: column_defs)
    moreover have "extends s s'"
      by (rule extends_same) (simp_all add: s' io_views, simp_all add: column_defs)
    ultimately show ?thesis using \<open>res = Inl e\<close> by (simp add: k)
  next
    fix qs d
    let ?n = "length (bc_io_workers s)" and ?b = "length (st_batches s)"
    let ?base = "length (st_requests s)"
    assume res: "res = Inr ?b" and ne: "\<not> refusing s"
      and valid: "\<forall>item\<in>set items. validate_item (bc_geometry s) item = Inr ()"
      and reqs: "requests_of (bc_next_io_worker s mod of_nat ?n) (of_nat ?n) ?b 0 operation items qs"
    define s2 where "s2 = (announce (length items) ?s1)\<lparr>st_world := d\<rparr>"
    define s3 where "s3 = add_batch (length items) qs s2"
    assume s': "s' = send_dispatches env (dispatch_of ?base qs) [0..<?n]
         (add_batch (length items) qs ((announce (length items) ?s1)\<lparr>st_world := d\<rparr>))"
    then have s': "s' = send_dispatches env (dispatch_of ?base qs) [0..<?n] s3"
      by (simp add: s2_def s3_def)
    have i2: "io_inv (lost + length items) {} [] s2"
      using io_inv_announce [OF i1] by (simp add: s2_def)
    have same: "bc_io_workers s2 = bc_io_workers s" "st_batches s2 = st_batches s"
      "st_requests s2 = st_requests s" "st_queue s2 = st_queue s"
      by (simp_all add: s2_def io_views)
    have fr: "fresh_requests ?n ?b (length items) qs"
      using requests_fresh [OF reqs] ne l by (simp add: refusing_def)
    then have lq: "length qs = length items" and wq: "\<forall>k<length items. rq_worker (qs ! k) < ?n"
      by (simp_all add: fresh_requests_def)
    have i3: "io_inv lost {} [?base..<?base + length items] s3"
      using io_inv_add_batch [OF i2] fr by (simp add: s3_def same)
    have "mset (concat (map (dispatch_of ?base qs) [0..<?n]) @ []) = mset [?base..<?base + length items]"
      using dispatch_all [of qs ?n ?base] wq lq by simp
    then have i3': "io_inv lost {} (concat (map (dispatch_of ?base qs) [0..<?n]) @ []) s3"
      using i3 io_inv_mset by metis
    have "\<forall>w\<in>set [0..<?n]. w < length (bc_io_workers s3) \<and>
        (\<forall>r\<in>set (dispatch_of ?base qs w). rq_worker (req s3 r) = w \<and> r < length (st_requests s3))"
      by (auto simp: s3_def dispatch_of_def add_batch_def same)
    note sd = send_dispatches_inv [OF i3' this, where env = env, folded s']
    note req = sent_only_requests [OF sd(2)]
    have w3: "bc_io_workers s3 = bc_io_workers s" "st_queue s3 = st_queue s"
      by (simp_all add: s3_def io_views same)
    have cols: "pool_col s' = pool_col s" "pending_col s' = pending_col s" "draining_col s' = draining_col s"
      using sd(2) by (simp_all add: sent_only_def s3_def s2_def io_views column_defs)
    have "is_io_message msg" if "w < ?n" "msg \<in> set (st_queue s' (wk_thread (wkr s w)))" for w msg
    proof -
      obtain ms where "st_queue s' (wk_thread (wkr s w)) = st_queue s (wk_thread (wkr s w)) @ ms"
        "\<forall>m\<in>set ms. is_io_message m"
        using sd(2) unfolding sent_only_def w3 by blast
      then show ?thesis using that m by auto
    qed
    then have "bdev_inv lost s'"
      using sd(1) q l req(2,4)
      by (simp add: bdev_inv_def batch_sys_inv_def sys_inv_def quiet_def cols w3)
    moreover have b2: "batch_inv (request_keys s2) (done_col s2) (st_batches s2)"
      using i2 by (simp add: io_inv_def)
    have k3: "kept s3 s'" using sd(2) by (simp add: sent_only_def)
    have "extends s s2"
      by (rule extends_same) (simp_all add: s2_def io_views, simp_all add: column_defs)
    then have "extends s s'"
      using extends_trans extends_add_batch [OF b2] kept_extends [OF k3] by (metis s3_def)
    moreover have bts: "map (\<lambda>b. length (bt_results b)) (st_batches s') =
        map (\<lambda>b. length (bt_results b)) (st_batches s) @ [length items]"
      using k3 by (simp add: kept_def s3_def add_batch_def same)
    then have "?b < length (st_batches s')"
      using arg_cong [OF bts, of length] length_map by (metis length_append_singleton lessI)
    moreover from this have "length (bt_results (st_batches s' ! ?b)) = length items"
      using arg_cong [OF bts, of "\<lambda>xs. xs ! ?b"] by (simp add: nth_append)
    ultimately show ?thesis using res by (simp add: lost_items_accepted [OF valid])
  qed
  then show "bdev_inv (lost + lost_items s items) s'" "extends s s'"
    "res = Inr b \<Longrightarrow> b = length (st_batches s) \<and> b < length (st_batches s') \<and>
      length (bt_results (st_batches s' ! b)) = length items" by blast+
qed

section \<open>Reachable states\<close>

text \<open>
  A step of the whole: a caller submits a batch, an event is handled, or something outside the
  class happens: SPDK's own state changes, or a caller writes its memory.
\<close>

inductive io_step :: "'d spdk_env \<Rightarrow> 'd spdk_state \<Rightarrow> 'd spdk_state \<Rightarrow> bool" for env where
  step_submit: "submit_batch env operation items s = (res, s') \<Longrightarrow> io_step env s s'"
| step_event: "handle_event env e s = Some s' \<Longrightarrow> io_step env s s'"
| step_outside: "io_step env s (s\<lparr>st_world := d, st_memory := m\<rparr>)"

inductive_cases io_stepE: "io_step env s s'"

inductive io_steps :: "'d spdk_env \<Rightarrow> 'd spdk_state \<Rightarrow> 'd spdk_state \<Rightarrow> bool" for env where
  steps_refl: "io_steps env s s"
| steps_step: "io_steps env s s' \<Longrightarrow> io_step env s' s'' \<Longrightarrow> io_steps env s s''"

text \<open>
  The same steps, with the number of items that refused batches had already counted as
  submitted.
\<close>

inductive io_run :: "'d spdk_env \<Rightarrow> 'd spdk_state \<Rightarrow> nat \<Rightarrow> 'd spdk_state \<Rightarrow> bool" for env s0 where
  run_start: "io_run env s0 0 s0"
| run_submit: "io_run env s0 lost s \<Longrightarrow> submit_batch env operation items s = (res, s') \<Longrightarrow>
    io_run env s0 (lost + lost_items s items) s'"
| run_event: "io_run env s0 lost s \<Longrightarrow> handle_event env e s = Some s' \<Longrightarrow> io_run env s0 lost s'"
| run_outside: "io_run env s0 lost s \<Longrightarrow> io_run env s0 lost (s\<lparr>st_world := d, st_memory := m\<rparr>)"

lemma io_steps_run: "io_steps env s0 s \<longleftrightarrow> (\<exists>lost. io_run env s0 lost s)"
proof
  show "io_steps env s0 s \<Longrightarrow> \<exists>lost. io_run env s0 lost s"
    by (induction rule: io_steps.induct)
      (blast intro: run_start, blast elim: io_stepE intro: run_submit run_event run_outside)
  show "\<exists>lost. io_run env s0 lost s \<Longrightarrow> io_steps env s0 s"
  proof (elim exE)
    fix lost
    show "io_run env s0 lost s \<Longrightarrow> io_steps env s0 s"
      by (induction rule: io_run.induct) (blast intro: steps_refl steps_step io_step.intros)+
  qed
qed

text \<open>A context whose workers are ready and to which nothing was submitted yet.\<close>

definition idle_pool :: "buffer_pool \<Rightarrow> bool" where
  "idle_pool p \<longleftrightarrow> pool_ok p \<and> pool_available p = pool_size p"

definition ready_context :: "'d spdk_state \<Rightarrow> bool" where
  "ready_context s \<longleftrightarrow>
     st_requests s = [] \<and> st_batches s = [] \<and> st_waiting s = [] \<and> st_in_flight s = [] \<and>
     (\<forall>w<length (bc_io_workers s). idle_pool (wk_buffer_pool (wkr s w)) \<and>
        wk_pending_io (wkr s w) = [] \<and> \<not> wk_draining_pending_io (wkr s w) \<and>
        st_queue s (wk_thread (wkr s w)) = []) \<and>
     distinct (map wk_thread (bc_io_workers s)) \<and> length (bc_io_workers s) < 2 ^ 64 \<and>
     io_counts (bc_metrics s) = (0, 0, 0, 0, 0)"

lemma pools_idle:
  assumes "idle_pool p"
  shows "leases.table_ok Map.empty p"
proof -
  have "finite (pool_leased p)" "card (pool_leased p) = 0"
    using assms leases.table_count pool_capacity [of p]
    by (auto simp: idle_pool_def pool_ok_def pool_size_def)
  then show ?thesis using assms by (simp add: leases.table_ok_def idle_pool_def)
qed

lemma ready_inv:
  assumes "ready_context s"
  shows "bdev_inv 0 s"
proof -
  have cols: "request_keys s = []" "lease_col s = []" "done_col s = []"
    using assms by (simp_all add: ready_context_def column_defs)
  have th: "map key_thread (worker_keys s) = map wk_thread (bc_io_workers s)"
    by (simp add: worker_keys_def)
  have w: "idle_pool (pool_col s ! w)" "pending_col s ! w = []" "\<not> draining_col s ! w"
    "st_queue s (key_thread (worker_keys s ! w)) = []" if "w < length (bc_io_workers s)" for w
    using assms that by (simp_all add: ready_context_def column_nth)
  have "place_inv [] [] (worker_keys s) [] (pending_col s) (st_queue s) [] []"
    using assms w by (auto simp: place_inv_def th ready_context_def worker_places_def queued_def
        open_list_def)
  moreover have "holds [] [] v = Map.empty" for v by (simp add: holds_def)
  then have "lease_inv {} [] [] (pool_col s) []"
    using pools_idle [OF w(1), where 'a = nat] by (simp add: lease_inv_def)
  moreover have "batch_inv [] [] []" by (simp add: batch_inv_def)
  moreover have "count_inv 0 seg [] [] [] [] (io_counts (bc_metrics s))" for seg
    using assms by (simp add: count_inv_def ready_context_def)
  ultimately have "io_inv 0 {} [] s"
    using assms by (simp add: io_inv_def cols ready_context_def)
  then show ?thesis
    using assms w(2,3) by (simp add: bdev_inv_def batch_sys_inv_def sys_inv_def quiet_def ready_context_def)
qed

lemma bdev_inv_event:
  assumes "bdev_inv lost s" and "handle_event env e s = Some s'"
  shows "bdev_inv lost s'" and "extends s s'"
proof -
  have b: "batch_sys_inv lost s" using assms(1) by (simp add: bdev_inv_def)
  note ev = batch_sys_inv_event [OF b assms(2)]
  have "sys_inv lost s" using b by (simp add: batch_sys_inv_def)
  from handled_event [OF this assms(2)] obtain w where
    "w < length (bc_io_workers s)" "handled w s s'" by blast
  then have "length (bc_io_workers s') = length (bc_io_workers s)"
    using handled_thread(2) [of w s s'] by simp
  then show "bdev_inv lost s'" using ev(1) assms(1) by (simp add: bdev_inv_def)
  show "extends s s'" by (rule kept_extends [OF ev(2)])
qed

lemma bdev_inv_outside:
  "bdev_inv lost s \<Longrightarrow> bdev_inv lost (s\<lparr>st_world := d, st_memory := m\<rparr>)"
  "extends s (s\<lparr>st_world := d, st_memory := m\<rparr>)"
  by (simp add: bdev_inv_def batch_sys_inv_def sys_inv_def quiet_def io_views)
    (rule extends_same; simp add: io_views)

lemma io_run_inv: "io_run env s0 lost s \<Longrightarrow> bdev_inv l s0 \<Longrightarrow> bdev_inv (l + lost) s \<and> extends s0 s"
proof (induction rule: io_run.induct)
  case run_start
  then show ?case by (simp add: extends_same)
next
  case (run_submit lost s operation items res s')
  then show ?case
    using submit_batch_inv(1,2) [OF _ run_submit(2), of "l + lost"] extends_trans
    by (metis add.assoc)
next
  case (run_event lost s e s')
  then show ?case using bdev_inv_event [OF _ run_event(2)] extends_trans by metis
next
  case (run_outside lost s d m)
  then show ?case using bdev_inv_outside extends_trans by metis
qed

lemma io_steps_inv:
  assumes "io_steps env s s'" and "bdev_inv lost s"
  shows "(\<exists>lost'. bdev_inv lost' s') \<and> extends s s'"
  using assms io_run_inv unfolding io_steps_run by blast

lemma reachable_inv:
  assumes "ready_context s0" and "io_steps env s0 s"
  obtains lost where "bdev_inv lost s"
  using io_steps_inv [OF assms(2) ready_inv [OF assms(1)]] by blast

section \<open>Properties of the I/O path\<close>

text \<open>The requests in flight are distinct.\<close>

lemma in_flight_distinct:
  assumes "io_inv lost {} [] s"
  shows "distinct (map bio_request (st_in_flight s))"
    and "bio_request ` set (st_in_flight s) = {r. r < length (st_requests s) \<and> lease_col s ! r \<noteq> None}"
    and "card {r. r < length (st_requests s) \<and> lease_col s ! r \<noteq> None} = length (st_in_flight s)"
proof -
  let ?fl = "map bio_request (st_in_flight s)"
  obtain ys where "mset ys = (\<Sum>w<length (worker_keys s).
      worker_places (worker_keys s) (pending_col s) (st_queue s) w) + mset (st_waiting s)"
    using ex_mset by blast
  then have "mset (ys @ ?fl) = mset (open_list (done_col s))"
    using assms by (simp add: io_inv_def place_inv_def)
  moreover have "distinct (open_list (done_col s))" by (simp add: open_list_def)
  ultimately show d: "distinct ?fl" using mset_eq_imp_distinct_iff by (metis distinct_append)
  show e: "bio_request ` set (st_in_flight s) = {r. r < length (st_requests s) \<and> lease_col s ! r \<noteq> None}"
    using assms by (simp add: io_inv_def lease_inv_def)
  show "card {r. r < length (st_requests s) \<and> lease_col s ! r \<noteq> None} = length (st_in_flight s)"
    unfolding e [symmetric] using distinct_card [OF d] by simp
qed

text \<open>How often a request is held: in messages, FIFOs, SPDK's wait queue and in flight.\<close>

definition places :: "'d spdk_state \<Rightarrow> nat \<Rightarrow> nat" where
  "places s r = (\<Sum>w<length (bc_io_workers s).
       count_list (queued (st_queue s (wk_thread (wkr s w)))) r + count_list (wk_pending_io (wkr s w)) r) +
     count_list (st_waiting s) r + count_list (map bio_request (st_in_flight s)) r"

lemma places_eq:
  assumes inv: "io_inv lost {} [] s" and r: "r < length (st_requests s)"
  shows "places s r = (if rq_completed (req s r) then 0 else 1)"
proof -
  let ?sum = "\<Sum>w<length (worker_keys s). worker_places (worker_keys s) (pending_col s) (st_queue s) w"
  have "?sum + mset (st_waiting s) + mset (map bio_request (st_in_flight s)) = mset (open_list (done_col s))"
    using inv by (simp add: io_inv_def place_inv_def)
  then have "count ?sum r + count (mset (st_waiting s)) r + count (mset (map bio_request (st_in_flight s))) r =
      count (mset (open_list (done_col s))) r"
    by (metis count_union)
  moreover have "count ?sum r = (\<Sum>w<length (bc_io_workers s).
       count_list (queued (st_queue s (wk_thread (wkr s w)))) r + count_list (wk_pending_io (wkr s w)) r)"
    by (simp add: count_sum worker_places_def column_nth count_mset)
  moreover have "count (mset (open_list (done_col s))) r = (if rq_completed (req s r) then 0 else 1)"
    using r by (simp add: mset_open_list count_mset_set' column_nth)
  ultimately show ?thesis by (simp add: places_def count_mset del: mset_map)
qed

end
