(* ===== verification/Bdev_Properties.thy ===== *)
theory Bdev_Properties
  imports Bdev_System
begin

text \<open>
  What the I/O path of the bdev context promises, in every state it can reach from a ready
  context by submissions and I/O events: accounting, exactly-once completion, no lost wake-up,
  and that a batch returns. Each is shown on a concrete bdev. Opening and shutting down are
  steps of another system, in the theories of the lifecycle.
\<close>

section \<open>A bdev to try the properties on\<close>

text \<open>
  A disk in memory with blocks of 4 bytes that accepts and completes everything: its state is
  a clock and the bytes of the disk. One worker on thread 7 has one buffer.
\<close>

type_synonym disk = "u64 \<times> (nat \<Rightarrow> u8)"

definition disk_complete :: "bdev_io \<Rightarrow> bytes \<Rightarrow> disk \<Rightarrow> bool \<times> bytes \<times> disk" where
  "disk_complete io content d =
     (case d of (t, m) \<Rightarrow>
        let off = unat (bio_block_offset io) * 4
        in if bio_operation io = Op_write then (True, [], (t, mem_write m off content))
           else (True, mem_read m off (length content), (t, m)))"

definition disk_env :: "disk spdk_env" where
  "disk_env =
     \<lparr>se_host = example_host, se_now = (\<lambda>(t, m). (t, (t + 1, m))), se_send_msg = (\<lambda>_ d. (0, d)),
      se_submit = (\<lambda>_ d. (0, d)), se_queue_wait = (\<lambda>_ d. (0, d)), se_complete = disk_complete,
      se_pick = (\<lambda>_ d. (0, d))\<rparr>"

definition disk_geometry :: storage_geometry where
  "disk_geometry = default_geometry
     \<lparr>capacity_bytes := 64, usable_capacity_bytes := 64, page_size := 4, geo_page_count := 16,
      io_segment_size := 8, block_size := 4, write_unit_blocks := 1, buffer_alignment := 8,
      spdk_buffer_count := 1\<rparr>"

definition disk_pool :: buffer_pool where
  "disk_pool = \<lparr>pool_buffer_size = 8, pool_buffer_alignment = 8, pool_buffers = [100],
     pool_in_use = [0], pool_free_indexes = [0], pool_initialized = True\<rparr>"

definition disk_worker :: io_worker where
  "disk_worker =
     \<lparr>wk_index = 0, wk_core = 0, wk_thread = 7, wk_owns_thread = False, wk_io_channel = True,
      wk_buffer_pool = disk_pool, wk_dma_pool_allocated_bytes = 8, wk_pending_io = [],
      wk_draining_pending_io = False\<rparr>"

definition disk_runtime :: runtime where
  "disk_runtime = (new_runtime example_runtime_config)
     \<lparr>rt_initialization_complete := True, rt_initialization_succeeded := True,
      rt_app_thread := Some 7\<rparr>"

definition disk_state :: "disk spdk_state" where
  "disk_state =
     \<lparr>bc_config = example_config, bc_runtime = Some disk_runtime, bc_structured_events = False,
      bc_initialization_complete = True, bc_initialization_succeeded = True, bc_closed = False,
      bc_last_error = [], bc_shutdown_requested = False, bc_shutdown_started = False,
      bc_shutdown_complete = False, bc_bdev_claimed = True, bc_workers_initializing = 0,
      bc_workers_shutting_down = 0, bc_shutdown_return_code = 0, bc_geometry = disk_geometry,
      bc_app_thread = Some 7, bc_descriptor_open = True, bc_io_workers = [disk_worker],
      bc_next_io_worker = 0, bc_metrics = zero_metrics, st_requests = [], st_batches = [],
      st_queue = (\<lambda>_. []), st_waiting = [], st_in_flight = [], st_memory = (\<lambda>a. of_nat a),
      st_dma = (\<lambda>_ _. 0), st_stderr = [], st_world = (0, \<lambda>_. 0)\<rparr>"

definition disk_item :: io_batch_item where
  "disk_item = \<lparr>it_buffer = 32, it_logical_length = 6, it_byte_offset = 8, it_physical_length = 8,
     it_trace = \<lparr>tr_future_id = 0, tr_item_index = 0, tr_segment_index = 0, tr_segment_count = 1,
       tr_first_page = 2, tr_page_count = 2, tr_logical_offset = 0\<rparr>\<rparr>"

lemma disk_ready: "ready_context disk_state"
  by (auto simp: ready_context_def disk_state_def disk_worker_def idle_pool_def pool_ok_def
      pool_inv_def disk_pool_def pool_leased_def pool_available_def pool_size_def io_counts_def
      zero_metrics_def)

lemma disk_patient: "patient disk_env (\<lambda>_. 0)"
  by (simp add: patient_def disk_env_def)

lemma disk_item_valid: "validate_item disk_geometry disk_item = Inr ()"
  by (simp add: validate_item_def disk_item_def disk_geometry_def)

text \<open>One write is submitted: its message is queued on thread 7.\<close>

definition disk_submitted :: "disk spdk_state" where
  "disk_submitted = snd (submit_batch disk_env Op_write [disk_item] disk_state)"

lemma disk_submit:
  "submit_batch disk_env Op_write [disk_item] disk_state = (Inr 0, disk_submitted)"
  "length (st_requests disk_submitted) = 1" "\<not> rq_completed (req disk_submitted 0)"
proof -
  have g: "validate_item (bc_geometry disk_state) disk_item = Inr ()"
    by (simp add: disk_state_def disk_item_valid)
  show "submit_batch disk_env Op_write [disk_item] disk_state = (Inr 0, disk_submitted)"
    "length (st_requests disk_submitted) = 1" "\<not> rq_completed (req disk_submitted 0)"
    unfolding disk_submitted_def
    by (simp_all add: submit_batch_def disk_state_def disk_env_def clock_now_def Let_def new_request_def
        upd_metrics_def dispatch_of_def context_send_message_def thread_send_msg_def disk_worker_def
        runtime_is_available_def disk_runtime_def new_runtime_def runtime_send_message_def disk_item_valid)
qed

lemma disk_submitted_reachable: "io_steps disk_env disk_state disk_submitted"
  by (rule steps_step [OF steps_refl step_submit [OF disk_submit(1)]])

lemma disk_submitted_run: "io_run disk_env disk_state 0 disk_submitted"
  using run_submit [OF run_start disk_submit(1)] disk_item_valid
  by (simp add: lost_items_accepted disk_state_def)

section \<open>Accounting\<close>

lemma reachable_parts:
  assumes "ready_context s0" and "io_steps env s0 s"
  obtains lost where "bdev_inv lost s" "batch_sys_inv lost s" "sys_inv lost s" "io_inv lost {} [] s"
proof -
  obtain lost where "bdev_inv lost s" by (rule reachable_inv [OF assms])
  then show ?thesis
    by (intro that [of lost]) (simp_all add: bdev_inv_def batch_sys_inv_def sys_inv_def)
qed

lemma run_parts:
  assumes "ready_context s0" and "io_run env s0 lost s"
  shows "io_inv lost {} [] s"
  using io_run_inv [OF assms(2) ready_inv [OF assms(1)]]
  by (simp add: bdev_inv_def batch_sys_inv_def sys_inv_def)

lemma completed_set: "{r. r < length (request_keys s) \<and> done_col s ! r} =
    {r. r < length (st_requests s) \<and> rq_completed (req s r)}"
  by (auto simp: column_nth)

lemma io_counts_parts:
  assumes "io_counts m = (a, b, c, d, e)"
  shows "m_submitted m = a" "m_completed m = b" "m_succeeded m = c" "m_failed m = d"
    "m_dma_buffer_pool_in_use_bytes m = e"
  using assms by (simp_all add: io_counts_def)

lemma succeeded_or_failed:
  fixes s :: "'d spdk_state"
  defines "D \<equiv> {r. r < length (request_keys s) \<and> done_col s ! r}"
  shows "card D = card {r \<in> D. P r} + card {r \<in> D. \<not> P r}"
proof -
  have "finite D" by (simp add: D_def)
  moreover have "D = {r \<in> D. P r} \<union> {r \<in> D. \<not> P r}" by auto
  ultimately show ?thesis
    by (metis (no_types, lifting) Collect_conj_eq Int_Collect card_Un_disjoint disjoint_iff finite_Un mem_Collect_eq)
qed

lemma worker_accounting:
  assumes inv: "io_inv lost {} [] s" and w: "w < length (bc_io_workers s)"
  shows "pool_available (wk_buffer_pool (wkr s w)) +
      card {io \<in> set (st_in_flight s). rq_worker (req s (bio_request io)) = w} =
    pool_size (wk_buffer_pool (wkr s w))"
proof -
  let ?h = "holds (request_keys s) (lease_col s) w" and ?p = "pool_col s ! w"
  have ok: "leases.table_ok ?h ?p" using inv w by (simp add: io_inv_def lease_inv_def)
  note fl = in_flight_distinct [OF inv]
  have "dom ?h = {r. r < length (st_requests s) \<and> rq_worker (req s r) = w \<and> lease_col s ! r \<noteq> None}"
    by (auto simp: holds_def column_nth split: if_splits)
  also have "\<dots> = bio_request ` {io \<in> set (st_in_flight s). rq_worker (req s (bio_request io)) = w}"
    using fl(2) by auto
  finally have "card (dom ?h) = card {io \<in> set (st_in_flight s). rq_worker (req s (bio_request io)) = w}"
    using fl(1) by (simp add: card_image distinct_map inj_on_def)
  then show ?thesis using leases.table_count(2) [OF ok] w by (simp add: column_nth)
qed

lemma batch_accounting:
  assumes "io_inv lost {} [] s" and "b < length (st_batches s)"
  shows "bt_remaining (st_batches s ! b) =
    card {r. r < length (st_requests s) \<and> rq_batch (req s r) = b \<and> \<not> rq_completed (req s r)}"
proof -
  have "{r. r < length (request_keys s) \<and> key_batch (request_keys s ! r) = b \<and> \<not> done_col s ! r} =
      {r. r < length (st_requests s) \<and> rq_batch (req s r) = b \<and> \<not> rq_completed (req s r)}"
    by (auto simp: column_nth)
  then show ?thesis using assms by (simp add: io_inv_def batch_inv_def)
qed

text \<open>
  Property C13. In every state that submissions and I/O events can reach from a ready context,
  before a shutdown: the counter of submitted I/O is the number of requests plus the items that
  refused batches had already counted; the completed requests are counted, and split into those
  whose caller reads a success and those whose caller reads a failure; a batch waits for exactly
  its incomplete requests; every buffer of every worker is either free or used by one command in
  flight; and the DMA bytes in use are one segment for each command in flight.
\<close>

theorem io_accounting:
  assumes "ready_context s0" and "io_run env s0 lost s"
  defines "m \<equiv> bc_metrics s"
    and "done_ok \<equiv> \<lambda>ok. {r. r < length (st_requests s) \<and> rq_completed (req s r) \<and>
      res_success (bt_results (st_batches s ! rq_batch (req s r)) ! rq_result_index (req s r)) = ok}"
  shows "m_submitted m = of_nat (length (st_requests s) + lost) \<and>
    m_completed m = of_nat (card {r. r < length (st_requests s) \<and> rq_completed (req s r)}) \<and>
    m_succeeded m = of_nat (card (done_ok True)) \<and>
    m_failed m = of_nat (card (done_ok False)) \<and>
    m_completed m = m_succeeded m + m_failed m \<and>
    (\<forall>b<length (st_batches s). bt_remaining (st_batches s ! b) =
      card {r. r < length (st_requests s) \<and> rq_batch (req s r) = b \<and> \<not> rq_completed (req s r)}) \<and>
    (\<forall>w<length (bc_io_workers s).
      pool_available (wk_buffer_pool (wkr s w)) +
        card {io \<in> set (st_in_flight s). rq_worker (req s (bio_request io)) = w} =
      pool_size (wk_buffer_pool (wkr s w))) \<and>
    m_dma_buffer_pool_in_use_bytes m =
      io_segment_size (bc_geometry s) * of_nat (length (st_in_flight s))"
proof (intro conjI allI impI)
  note inv = run_parts [OF assms(1,2)]
  have counts: "count_inv lost (io_segment_size (bc_geometry s)) (request_keys s) (lease_col s)
      (done_col s) (st_batches s) (io_counts (bc_metrics s))"
    using inv by (simp add: io_inv_def geometry_key)
  note parts = io_counts_parts [OF counts [unfolded count_inv_def], folded m_def]
  have sets: "{r. r < length (request_keys s) \<and> done_col s ! r \<and>
        res_success (result_at (request_keys s) (st_batches s) r)} = done_ok True"
    "{r. r < length (request_keys s) \<and> done_col s ! r \<and>
        \<not> res_success (result_at (request_keys s) (st_batches s) r)} = done_ok False"
    by (auto simp: done_ok_def column_nth result_at_def)
  show "m_submitted m = of_nat (length (st_requests s) + lost)" using parts(1) by simp
  show "m_succeeded m = of_nat (card (done_ok True))" "m_failed m = of_nat (card (done_ok False))"
    using parts(3,4) by (simp_all only: sets)
  show "m_completed m = of_nat (card {r. r < length (st_requests s) \<and> rq_completed (req s r)})"
    using parts(2) by (simp only: completed_set)
  show "m_completed m = m_succeeded m + m_failed m"
    unfolding parts(2-4) succeeded_or_failed [of s "\<lambda>r. res_success (result_at (request_keys s) (st_batches s) r)"]
    by (simp add: conj_assoc)
  show "bt_remaining (st_batches s ! b) =
      card {r. r < length (st_requests s) \<and> rq_batch (req s r) = b \<and> \<not> rq_completed (req s r)}"
    if b: "b < length (st_batches s)" for b
    by (rule batch_accounting [OF inv b])
  show "\<And>w. w < length (bc_io_workers s) \<Longrightarrow> pool_available (wk_buffer_pool (wkr s w)) +
        card {io \<in> set (st_in_flight s). rq_worker (req s (bio_request io)) = w} =
      pool_size (wk_buffer_pool (wkr s w))"
    by (rule worker_accounting [OF inv])
  show "m_dma_buffer_pool_in_use_bytes m =
      io_segment_size (bc_geometry s) * of_nat (length (st_in_flight s))"
    using parts(5) in_flight_distinct(3) [OF inv] by simp
qed

theorem io_accounting_witness:
  "m_submitted (bc_metrics disk_submitted) = 1 \<and>
   m_completed (bc_metrics disk_submitted) =
     m_succeeded (bc_metrics disk_submitted) + m_failed (bc_metrics disk_submitted)"
proof -
  note a = io_accounting [OF disk_ready disk_submitted_run]
  show ?thesis
    using a [THEN conjunct1] a [THEN conjunct2, THEN conjunct2, THEN conjunct2, THEN conjunct2,
        THEN conjunct1] disk_submit(2) by simp
qed

section \<open>Exactly once\<close>

text \<open>
  Property C14. Every request is completed exactly once: an incomplete request is held in
  exactly one place (a message, a FIFO, SPDK's wait queue, or in flight) and a completed one
  nowhere, and whatever happens later, a completed request stays completed and the result its
  caller reads is never overwritten.
\<close>

theorem completed_exactly_once:
  assumes "ready_context s0" and "io_steps env s0 s" and "io_steps env s s'"
    and r: "r < length (st_requests s)"
  defines "result \<equiv> \<lambda>s. bt_results (st_batches s ! rq_batch (req s r)) ! rq_result_index (req s r)"
  shows "places s r = (if rq_completed (req s r) then 0 else 1) \<and>
    (r < length (st_requests s') \<and> rq_batch (req s' r) = rq_batch (req s r) \<and>
      rq_result_index (req s' r) = rq_result_index (req s r)) \<and>
    (rq_completed (req s r) \<longrightarrow> rq_completed (req s' r) \<and> result s' = result s)"
proof -
  obtain lost where b: "bdev_inv lost s" and inv: "io_inv lost {} [] s"
    using reachable_parts [OF assms(1,2)] .
  have 1: "places s r = (if rq_completed (req s r) then 0 else 1)" by (rule places_eq [OF inv r])
  have ext: "extends s s'" using io_steps_inv [OF assms(3) b] by blast
  note e = extends_lengths [OF ext]
  have r': "r < length (st_requests s')" using e(1) r by simp
  have "request_key (req s' r) = request_key (req s r)"
    using e(3) [OF r] r r' by (simp add: column_nth)
  note k = request_key_fields [OF this]
  then have 2: "r < length (st_requests s') \<and> rq_batch (req s' r) = rq_batch (req s r) \<and>
      rq_result_index (req s' r) = rq_result_index (req s r)" using r' by simp
  have "rq_completed (req s' r) \<and> result s' = result s" if "rq_completed (req s r)"
  proof -
    have "done_col s' ! r \<and>
        result_at (request_keys s') (st_batches s') r = result_at (request_keys s) (st_batches s) r"
      using ext r that by (auto simp: extends_def column_nth)
    then show ?thesis using r r' by (simp add: column_nth result_at_def result_def)
  qed
  with 1 2 show ?thesis by blast
qed

theorem completed_exactly_once_witness:
  "places disk_submitted 0 = 1"
  using completed_exactly_once [OF disk_ready disk_submitted_reachable steps_refl, of 0] disk_submit(2,3)
  by simp

section \<open>Liveness\<close>

text \<open>
  Property C15. No wake-up is lost: in every reachable state with an incomplete request, some
  event is possible (a message of a worker can be delivered, SPDK can wake a waiting request or
  complete a command), and every such event can be handled. In particular a request in the
  FIFO of a worker never waits while nothing of that worker is in flight.
\<close>

theorem no_lost_wakeup:
  assumes "ready_context s0" and "io_steps env s0 s"
    and "r < length (st_requests s)" and "\<not> rq_completed (req s r)"
  shows "enabled_events s \<noteq> [] \<and>
    (\<forall>e\<in>set (enabled_events s). \<exists>s'. handle_event env e s = Some s') \<and>
    (\<forall>w<length (bc_io_workers s). wk_pending_io (wkr s w) \<noteq> [] \<longrightarrow>
      pool_available (wk_buffer_pool (wkr s w)) = 0)"
proof (intro conjI allI impI)
  obtain lost where inv: "batch_sys_inv lost s" "sys_inv lost s" using reachable_parts [OF assms(1,2)] .
  have "\<not> done_col s ! r" using assms(3,4) by (simp add: column_nth)
  then show "enabled_events s \<noteq> []" by (rule event_possible [OF inv(1) assms(3)])
  show "\<forall>e\<in>set (enabled_events s). \<exists>s'. handle_event env e s = Some s'"
    using enabled_handled [of _ s env "st_world s"] by (metis (no_types, lifting) spdk_state.surjective spdk_state.update_convs(9))
  show "pool_available (wk_buffer_pool (wkr s w)) = 0"
    if "w < length (bc_io_workers s)" "wk_pending_io (wkr s w) \<noteq> []" for w
    using inv(2) that by (auto simp: sys_inv_def quiet_def column_nth)
qed

theorem no_lost_wakeup_witness: "enabled_events disk_submitted \<noteq> []"
  using no_lost_wakeup [OF disk_ready disk_submitted_reachable, of 0] disk_submit(2,3) by simp

section \<open>A batch returns\<close>

lemma wait_for_batch_steps:
  assumes w: "wait_for_batch env b s = Some s'"
  shows "(\<forall>s0. io_steps env s0 s \<longrightarrow> io_steps env s0 s') \<and> bt_remaining (st_batches s' ! b) = 0"
proof (rule wait_for_batch.raw_induct [OF _ w])
  fix rec :: "'a spdk_env \<Rightarrow> nat \<Rightarrow> 'a spdk_state \<Rightarrow> 'a spdk_state option" and env b s s'
  assume IH: "\<And>env b s s'. rec env b s = Some s' \<Longrightarrow>
      (\<forall>s0. io_steps env s0 s \<longrightarrow> io_steps env s0 s') \<and> bt_remaining (st_batches s' ! b) = 0"
    and eq: "(if bt_remaining (st_batches s ! b) = 0 then Some s
      else if enabled_events s = [] then None
      else case se_pick env (length (enabled_events s)) (st_world s) of
             (k, d) \<Rightarrow>
               (case handle_event env (enabled_events s ! (k mod length (enabled_events s)))
                       (s\<lparr>st_world := d\<rparr>) of
                  None \<Rightarrow> None
                | Some s' \<Rightarrow> rec env b s')) = Some s'"
  show "(\<forall>s0. io_steps env s0 s \<longrightarrow> io_steps env s0 s') \<and> bt_remaining (st_batches s' ! b) = 0"
  proof (cases "bt_remaining (st_batches s ! b) = 0 \<or> enabled_events s = []")
    case True
    then show ?thesis using eq by (auto split: if_splits)
  next
    case False
    obtain k d where k: "se_pick env (length (enabled_events s)) (st_world s) = (k, d)" by fastforce
    let ?e = "enabled_events s ! (k mod length (enabled_events s))"
    obtain s1 where s1: "handle_event env ?e (s\<lparr>st_world := d\<rparr>) = Some s1" and r: "rec env b s1 = Some s'"
      using eq False k by (auto split: option.splits)
    have out: "io_step env s (s\<lparr>st_world := d\<rparr>)"
      using step_outside [of env s, where d = d and m = "st_memory s"] by simp
    have "io_steps env s0 s1" if "io_steps env s0 s" for s0
      by (rule steps_step [OF steps_step [OF that out] step_event [OF s1]])
    with IH [OF r] show ?thesis by blast
  qed
qed

text \<open>
  Property C16. A batch submitted in any reachable state returns, as long as SPDK's queue is
  not full for ever: there is a result, for a batch that is accepted it has one entry for each
  item, and then every request the call made is completed.
\<close>

theorem batch_returns:
  assumes "ready_context s0" and "io_steps env s0 s" and "patient env pat"
  shows "\<exists>res s'. submit_batch_and_wait env operation items s = Some (res, s') \<and>
    io_steps env s0 s' \<and>
    (\<forall>results. res = Inr results \<longrightarrow> length results = length items \<and>
      (\<forall>r. length (st_requests s) \<le> r \<and> r < length (st_requests s') \<and>
        rq_batch (req s' r) = length (st_batches s) \<longrightarrow> rq_completed (req s' r)))"
proof (cases "items = []")
  case True
  have "rq_completed (req s r)" if "length (st_requests s) \<le> r" "r < length (st_requests s)" for r
    using that by simp
  then show ?thesis using True assms(2) by (auto simp: submit_batch_and_wait_def)
next
  case False
  obtain lost where inv: "bdev_inv lost s" using reachable_parts [OF assms(1,2)] .
  obtain r s1 where sub: "submit_batch env operation items s = (r, s1)" by fastforce
  have st1: "io_steps env s0 s1" by (rule steps_step [OF assms(2) step_submit [OF sub]])
  show ?thesis
  proof (cases r)
    case (Inl e)
    then show ?thesis using False sub st1 by (auto simp: submit_batch_and_wait_def)
  next
    case (Inr b)
    note sb = submit_batch_inv(3) [OF inv sub Inr]
    define lost1 where "lost1 = lost + lost_items s items"
    have "bdev_inv lost1 s1" unfolding lost1_def by (rule submit_batch_inv(1) [OF inv sub])
    then obtain s2 where w: "wait_for_batch env b s1 = Some s2" "kept s1 s2"
      "bt_remaining (st_batches s2 ! b) = 0" "batch_sys_inv lost1 s2"
      using wait_returns [OF _ assms(3), of lost1 s1 b] sb by (auto simp: bdev_inv_def)
    have st2: "io_steps env s0 s2" using wait_for_batch_steps [OF w(1)] st1 by blast
    have bts: "map (\<lambda>b. length (bt_results b)) (st_batches s2) = map (\<lambda>b. length (bt_results b)) (st_batches s1)"
      using w(2) by (simp add: kept_def)
    have lb: "b < length (st_batches s2)" using sb arg_cong [OF bts, of length] by simp
    have sb': "b < length (st_batches s1)" "length (bt_results (st_batches s1 ! b)) = length items"
      using sb by blast+
    have "length (bt_results (st_batches s2 ! b)) = length items"
      using arg_cong [OF bts, of "\<lambda>xs. xs ! b"] lb sb' by simp
    moreover have "card {r. r < length (st_requests s2) \<and> rq_batch (req s2 r) = b \<and>
        \<not> rq_completed (req s2 r)} = 0"
      using batch_accounting [of lost1, OF _ lb] w(3,4) by (simp add: batch_sys_inv_def sys_inv_def)
    then have "rq_completed (req s2 r)" if "r < length (st_requests s2)" "rq_batch (req s2 r) = b" for r
      using that by auto
    ultimately show ?thesis
      using False sub Inr w(1) st2 sb by (auto simp: submit_batch_and_wait_def)
  qed
qed

theorem batch_returns_witness:
  "\<exists>res s'. submit_batch_and_wait disk_env Op_write [disk_item] disk_state = Some (res, s') \<and>
    io_steps disk_env disk_state s' \<and>
    (\<forall>results. res = Inr results \<longrightarrow> length results = length [disk_item] \<and>
      (\<forall>r. length (st_requests disk_state) \<le> r \<and> r < length (st_requests s') \<and>
        rq_batch (req s' r) = length (st_batches disk_state) \<longrightarrow> rq_completed (req s' r)))"
  by (rule batch_returns [OF disk_ready steps_refl disk_patient])

section \<open>Refused batches\<close>

lemma submit_batch_refused:
  assumes sub: "submit_batch env operation items s = (res, s')" and "\<not> refusing s"
    and m: "m < length items" "validate_item (bc_geometry s) (items ! m) = Inl e"
      "\<forall>k<m. validate_item (bc_geometry s) (items ! k) = Inr ()"
  shows "res = Inl e \<and> (\<exists>now. s' = s\<lparr>bc_next_io_worker := bc_next_io_worker s + 1,
      bc_metrics := (bc_metrics s)\<lparr>m_submitted := m_submitted (bc_metrics s) + of_nat m\<rparr>,
      st_world := now\<rparr>)"
  using submit_batch_cases [OF sub]
proof (elim disjE exE conjE)
  fix e' n d
  assume n: "n < length items" "validate_item (bc_geometry s) (items ! n) = Inl e'"
      "\<forall>k<n. validate_item (bc_geometry s) (items ! k) = Inr ()"
    and r: "res = Inl e'"
      "s' = (announce n (s\<lparr>bc_next_io_worker := bc_next_io_worker s + 1\<rparr>))\<lparr>st_world := d\<rparr>"
  have nm: "n = m"
  proof (rule linorder_cases [of n m])
    assume "n < m"
    then show ?thesis using m(3) [rule_format, of n] n(2) by simp
  next
    assume "m < n"
    then show ?thesis using n(3) [rule_format, of m] m(2) by simp
  qed
  have e: "e' = e" using n(2) m(2) by (simp add: nm)
  show ?thesis unfolding r nm e by (auto simp: announce_def upd_metrics_def)
next
  assume "\<forall>item\<in>set items. validate_item (bc_geometry s) item = Inr ()"
  from bspec [OF this nth_mem [OF m(1)]] show ?thesis using m(2) by simp
qed (use assms(2) in simp)

lemma submit_batch_accepted:
  assumes sub: "submit_batch env operation items s = (res, s')" and "\<not> refusing s"
    and "\<forall>item\<in>set items. validate_item (bc_geometry s) item = Inr ()"
  shows "\<exists>b. res = Inr b"
  using submit_batch_cases [OF sub]
proof (elim disjE exE conjE)
  fix e n assume "n < length items" "validate_item (bc_geometry s) (items ! n) = Inl e"
  then show ?thesis using bspec [OF assms(3) nth_mem, of n] by simp
qed (use assms(2) in simp_all)

text \<open>
  Property C17. An empty batch returns at once, whatever the state of the context. A batch with
  items is refused exactly when the context is closed, shutting down or not initialised, when it
  has no worker, or when an item fails validation. In the first three cases nothing changes at
  all; in the last the error is the one of the first such item, the cursor of the workers has
  moved on and the items before that one stay counted as submitted, and, apart from the clock,
  nothing else has changed: no request, batch, message, buffer or byte.
\<close>

theorem batch_refused:
  fixes env :: "'d spdk_env" and operation :: io_operation and s :: "'d spdk_state"
  defines "run \<equiv> submit_batch_and_wait env operation"
    and "down \<equiv> \<lambda>s. bc_closed s \<or> bc_shutdown_requested s \<or> \<not> bc_initialization_succeeded s"
    and "valid \<equiv> \<lambda>s item. validate_item (bc_geometry s) item = Inr ()"
  shows "run [] s = Some (Inr [], s) \<and>
    (items \<noteq> [] \<and> down s \<longrightarrow> run items s = Some (Inl (Runtime_error
        (''SPDK runtime is not available'' @
           (if bc_last_error s = [] then [] else '': '' @ bc_last_error s))), s)) \<and>
    (items \<noteq> [] \<and> \<not> down s \<and> bc_io_workers s = [] \<longrightarrow>
      run items s = Some (Inl (Runtime_error ''SPDK runtime has no I/O workers''), s)) \<and>
    (\<not> down s \<and> bc_io_workers s \<noteq> [] \<longrightarrow>
      (\<forall>m e. m < length items \<and> validate_item (bc_geometry s) (items ! m) = Inl e \<and>
          (\<forall>k<m. valid s (items ! k)) \<longrightarrow>
        (\<exists>now. run items s = Some (Inl e, s
          \<lparr>bc_next_io_worker := bc_next_io_worker s + 1,
           bc_metrics := (bc_metrics s)\<lparr>m_submitted := m_submitted (bc_metrics s) + of_nat m\<rparr>,
           st_world := now\<rparr>))) \<and>
      ((\<forall>item\<in>set items. valid s item) \<longrightarrow> (\<forall>e s'. run items s \<noteq> Some (Inl e, s'))))"
proof (intro conjI impI allI)
  show "run [] s = Some (Inr [], s)" by (simp add: run_def submit_batch_and_wait_def)
  assume "items \<noteq> [] \<and> down s"
  then show "run items s = Some (Inl (Runtime_error (''SPDK runtime is not available'' @
           (if bc_last_error s = [] then [] else '': '' @ bc_last_error s))), s)"
    by (simp add: run_def down_def submit_batch_and_wait_def submit_batch_def)
next
  assume "items \<noteq> [] \<and> \<not> down s \<and> bc_io_workers s = []"
  then show "run items s = Some (Inl (Runtime_error ''SPDK runtime has no I/O workers''), s)"
    by (simp add: run_def down_def submit_batch_and_wait_def submit_batch_def)
next
  fix m e
  assume "\<not> down s \<and> bc_io_workers s \<noteq> []"
  then have up: "\<not> refusing s" by (simp add: refusing_def down_def)
  assume m: "m < length items \<and> validate_item (bc_geometry s) (items ! m) = Inl e \<and>
      (\<forall>k<m. valid s (items ! k))"
  obtain res s1 where sub: "submit_batch env operation items s = (res, s1)" by fastforce
  from submit_batch_refused [OF sub up, of m e] m obtain now where "res = Inl e"
    "s1 = s\<lparr>bc_next_io_worker := bc_next_io_worker s + 1,
      bc_metrics := (bc_metrics s)\<lparr>m_submitted := m_submitted (bc_metrics s) + of_nat m\<rparr>,
      st_world := now\<rparr>" unfolding valid_def by blast
  then show "\<exists>now. run items s = Some (Inl e, s
          \<lparr>bc_next_io_worker := bc_next_io_worker s + 1,
           bc_metrics := (bc_metrics s)\<lparr>m_submitted := m_submitted (bc_metrics s) + of_nat m\<rparr>,
           st_world := now\<rparr>)"
    using m sub by (auto simp: run_def submit_batch_and_wait_def)
next
  fix e s'
  assume "\<not> down s \<and> bc_io_workers s \<noteq> []"
  then have up: "\<not> refusing s" by (simp add: refusing_def down_def)
  assume ok: "\<forall>item\<in>set items. valid s item"
  obtain res s1 where sub: "submit_batch env operation items s = (res, s1)" by fastforce
  have "\<exists>b. res = Inr b" by (rule submit_batch_accepted [OF sub up ok [unfolded valid_def]])
  then show "run items s \<noteq> Some (Inl e, s')"
    using sub by (auto simp: run_def submit_batch_and_wait_def split: option.splits)
qed

text \<open>A batch whose second item is longer than the segment size allows.\<close>

theorem batch_refused_witness:
  "\<exists>now. submit_batch_and_wait disk_env Op_read [disk_item, disk_item\<lparr>it_physical_length := 12\<rparr>]
      disk_state =
    Some (Inl (Invalid_argument (''physical segment length must cover logical bytes and not exceed '' @
         ''io_segment_size'')),
      disk_state\<lparr>bc_next_io_worker := 1,
        bc_metrics := (bc_metrics disk_state)\<lparr>m_submitted := 1\<rparr>, st_world := now\<rparr>)"
proof -
  let ?bad = "disk_item\<lparr>it_physical_length := 12\<rparr>"
  let ?e = "Invalid_argument (''physical segment length must cover logical bytes and not exceed '' @
         ''io_segment_size'')"
  have g: "bc_geometry disk_state = disk_geometry" by (simp add: disk_state_def)
  have v: "validate_item disk_geometry ?bad = Inl ?e"
    by (simp add: validate_item_def disk_item_def disk_geometry_def)
  have n: "bc_next_io_worker disk_state + 1 = 1" "m_submitted (bc_metrics disk_state) + of_nat 1 = 1"
    by (simp_all add: disk_state_def zero_metrics_def)
  have up: "\<not> (bc_closed disk_state \<or> bc_shutdown_requested disk_state \<or>
      \<not> bc_initialization_succeeded disk_state) \<and> bc_io_workers disk_state \<noteq> []"
    by (simp add: disk_state_def)
  have first: "1 < length [disk_item, ?bad] \<and>
      validate_item (bc_geometry disk_state) ([disk_item, ?bad] ! 1) = Inl ?e \<and>
      (\<forall>k<1. validate_item (bc_geometry disk_state) ([disk_item, ?bad] ! k) = Inr ())"
    by (simp add: g v disk_item_valid)
  show ?thesis
    using batch_refused [of disk_env Op_read disk_state "[disk_item, ?bad]",
        THEN conjunct2, THEN conjunct2, THEN conjunct2, rule_format, OF up, THEN conjunct1,
        rule_format, OF first]
    unfolding n .
qed

section \<open>The FIFO\<close>

text \<open>The disk state in the middle of a drain, with a parked request.\<close>

definition disk_draining :: "disk spdk_state" where
  "disk_draining = disk_submitted\<lparr>bc_io_workers :=
     [disk_worker\<lparr>wk_pending_io := [0], wk_draining_pending_io := True\<rparr>]\<rparr>"

lemma disk_draining_worker: "rq_worker (req disk_draining 0) = 0"
proof -
  have "rq_worker (req disk_submitted 0) = 0"
    unfolding disk_submitted_def
    by (simp add: submit_batch_def disk_state_def disk_env_def clock_now_def Let_def new_request_def
        upd_metrics_def dispatch_of_def context_send_message_def thread_send_msg_def disk_worker_def
        runtime_is_available_def disk_runtime_def new_runtime_def runtime_send_message_def disk_item_valid)
  then show ?thesis by (simp add: disk_draining_def)
qed

text \<open>Requests of a FIFO executed one after the other.\<close>

fun run_parked :: "'d spdk_env \<Rightarrow> spdk_thread \<Rightarrow> nat \<Rightarrow> nat list \<Rightarrow> 'd spdk_state \<Rightarrow> 'd spdk_state" where
  "run_parked env cur w [] s = s"
| "run_parked env cur w (r # rs) s =
     run_parked env cur w rs (fst (execute_body env cur r (pop_pending w s)))"

lemma execute_body_unparked:
  assumes "pool_available (wk_buffer_pool (wkr s (rq_worker (req s r)))) \<noteq> 0"
    and "rq_worker (req s r) < length (bc_io_workers s)"
  shows "pending_col (fst (execute_body env cur r s)) = pending_col s"
proof (cases "cur \<noteq> wk_thread (wkr s (rq_worker (req s r)))")
  case True
  then show ?thesis by (simp add: execute_body_def io_views)
next
  case False
  let ?w = "rq_worker (req s r)" and ?s1 = "note_start env r s"
  obtain acq p where a: "pool_try_acquire (wk_buffer_pool (wkr ?s1 ?w)) = (acq, p)" by fastforce
  have l: "length (bc_io_workers ?s1) = length (bc_io_workers s)"
    by (rule length_workers_eq) (simp add: io_views)
  have "wk_buffer_pool (wkr ?s1 ?w) = pool_col ?s1 ! ?w" using assms(2) l by (simp add: column_nth)
  also have "\<dots> = wk_buffer_pool (wkr s ?w)" using assms(2) by (simp add: io_views column_nth)
  finally have "acq \<noteq> Inr None" using a assms(1) by (auto simp: pool_try_acquire_None)
  then show ?thesis
    using False a by (simp add: execute_body_def Let_def io_views split: sum.split option.split)
qed

text \<open>One turn of the loop executes the first parked request and leaves the others as they are.\<close>

lemma drain_first:
  fixes env :: "'d spdk_env" and cur w and s :: "'d spdk_state"
  assumes ready: "drain_ready w s" and w: "w < length (bc_io_workers s)"
    and own: "\<forall>r\<in>set (wk_pending_io (wkr s w)). rq_worker (req s r) = w \<and> r < length (st_requests s)"
  shows "\<exists>r rs s2. wk_pending_io (wkr s w) = r # rs \<and> s2 = fst (execute_body env cur r (pop_pending w s)) \<and>
    drain_loop env cur w s = drain_loop env cur w s2 \<and> wk_pending_io (wkr s2 w) = rs \<and>
    w < length (bc_io_workers s2) \<and> (\<forall>x\<in>set rs. rq_worker (req s2 x) = w \<and> x < length (st_requests s2))"
proof -
  obtain r rs where p: "wk_pending_io (wkr s w) = r # rs"
    using ready by (cases "wk_pending_io (wkr s w)") (auto simp: drain_ready_def)
  let ?s1 = "pop_pending w s"
  define s2 where "s2 = fst (execute_body env cur r ?s1)"
  have same: "req ?s1 = req s" "length (bc_io_workers ?s1) = length (bc_io_workers s)"
    "wk_buffer_pool (wkr ?s1 w) = wk_buffer_pool (wkr s w)" "st_requests ?s1 = st_requests s"
    using w by (simp_all add: pop_pending_def upd_worker_def)
  have "pending_col s2 = pending_col ?s1"
    unfolding s2_def using ready w own p by (intro execute_body_unparked) (simp_all add: same drain_ready_def)
  then have pend: "pending_col s2 ! w = rs" using w p by (simp add: pop_pending_def io_views)
  have l2: "length (bc_io_workers s2) = length (bc_io_workers s)"
    using length_workers_eq [of s2 ?s1] same(2) by (simp add: s2_def io_views)
  have k2: "request_keys s2 = request_keys s" by (simp add: s2_def io_views pop_pending_def)
  have rq2: "rq_worker (req s2 x) = rq_worker (req s x)" if "x < length (st_requests s)" for x
    using request_key_eq [OF k2 that] by (rule request_key_fields)
  have rs: "wk_pending_io (wkr s2 w) = rs" using pend w l2 by (simp add: column_nth)
  have "drain_loop env cur w s = drain_loop env cur w s2"
    using ready p by (subst drain_loop.simps) (simp add: s2_def)
  moreover have "\<forall>x\<in>set rs. rq_worker (req s2 x) = w \<and> x < length (st_requests s2)"
    using own rq2 length_requests_eq [OF k2] by (simp add: p)
  ultimately show ?thesis using p rs l2 w s2_def by auto
qed

text \<open>
  Property C18. Draining serves a worker's FIFO from its head and in order: it executes some
  prefix of the parked requests, each once, leaves the rest parked in their order, and stops only
  when the FIFO is empty or no buffer is free.
\<close>

theorem drain_is_fifo:
  fixes env :: "'d spdk_env" and cur w and s :: "'d spdk_state"
  assumes "w < length (bc_io_workers s)"
    and "\<forall>r\<in>set (wk_pending_io (wkr s w)). rq_worker (req s r) = w \<and> r < length (st_requests s)"
  defines "s' \<equiv> drain_loop env cur w s"
  shows "\<exists>k. s' = run_parked env cur w (take k (wk_pending_io (wkr s w))) s \<and>
    wk_pending_io (wkr s' w) = drop k (wk_pending_io (wkr s w)) \<and>
    (wk_pending_io (wkr s' w) = [] \<or> pool_available (wk_buffer_pool (wkr s' w)) = 0)"
  using assms(1,2) unfolding s'_def
proof (induction env cur w s rule: drain_loop.induct)
  case (1 env cur w s)
  show ?case
  proof (cases "drain_ready w s")
    case False
    then have "wk_pending_io (wkr s w) = [] \<or> pool_available (wk_buffer_pool (wkr s w)) = 0"
      using "1.prems"(1) by (simp add: drain_ready_def)
    moreover have "drain_loop env cur w s = s" using False by (subst drain_loop.simps) simp
    ultimately show ?thesis by (auto intro!: exI [of _ 0])
  next
    case True
    obtain r rs s2 where first: "wk_pending_io (wkr s w) = r # rs" "s2 = fst (execute_body env cur r (pop_pending w s))"
      "drain_loop env cur w s = drain_loop env cur w s2" "wk_pending_io (wkr s2 w) = rs"
      "w < length (bc_io_workers s2)"
      "\<forall>x\<in>set rs. rq_worker (req s2 x) = w \<and> x < length (st_requests s2)"
      using drain_first [OF True "1.prems"] by blast
    have "\<exists>k. drain_loop env cur w s2 = run_parked env cur w (take k rs) s2 \<and>
      wk_pending_io (wkr (drain_loop env cur w s2) w) = drop k rs \<and>
      (wk_pending_io (wkr (drain_loop env cur w s2) w) = [] \<or>
        pool_available (wk_buffer_pool (wkr (drain_loop env cur w s2) w)) = 0)"
      using "1.IH" [OF True] first(5,6) unfolding first(1) list.sel first(2) [symmetric] first(4) by blast
    then obtain k where k:
      "drain_loop env cur w s2 = run_parked env cur w (take k rs) s2"
      "wk_pending_io (wkr (drain_loop env cur w s2) w) = drop k rs"
      "wk_pending_io (wkr (drain_loop env cur w s2) w) = [] \<or>
        pool_available (wk_buffer_pool (wkr (drain_loop env cur w s2) w)) = 0"
      by blast
    then show ?thesis using first(1-3) by (intro exI [of _ "Suc k"]) simp
  qed
qed

theorem drain_is_fifo_witness:
  "\<exists>k. drain_loop disk_env 7 0 disk_draining =
      run_parked disk_env 7 0 (take k (wk_pending_io (wkr disk_draining 0))) disk_draining"
proof -
  have "bc_io_workers disk_draining = [disk_worker\<lparr>wk_pending_io := [0], wk_draining_pending_io := True\<rparr>]"
    "length (st_requests disk_draining) = 1"
    by (simp_all add: disk_draining_def disk_submit(2))
  then show ?thesis
    using drain_is_fifo [of 0 disk_draining disk_env 7] by (auto simp: disk_draining_worker)
qed

end
