(* ===== verification/Bdev_Lifecycle.thy ===== *)
theory Bdev_Lifecycle
  imports Bdev_System
begin

text \<open>
  How a context comes up and goes down: the constructor, the handlers that open the bdev and
  prepare the workers, and the shutdown state machine of
  \<open>bdev/csrc/spdk/spdk_bdev_context.cpp\<close>.

  What SPDK does in each call is a function of \<open>life_env\<close> on the same outside state \<open>'d\<close> as in
  \<open>spdk_env\<close>. A handler is a step; the constructor and \<open>close\<close> wait on a condition variable, so
  they are split where they wait.
\<close>

section \<open>SPDK\<close>

record bdev_info =
  bi_num_blocks :: u64
  bi_block_size :: u32
  bi_write_unit_size :: u32
  bi_buf_align :: u64
  bi_max_rw_size :: u32

record 'd life_env =
  le_io :: "'d spdk_env"
  le_open :: "string \<Rightarrow> 'd \<Rightarrow> int \<times> 'd"
  le_close :: "'d \<Rightarrow> 'd"
  le_bdev :: "'d \<Rightarrow> bdev_info"
  le_cores :: "'d \<Rightarrow> u32 list"
  le_current_core :: "spdk_thread \<Rightarrow> 'd \<Rightarrow> u32"
  le_thread_create :: "string \<Rightarrow> u32 \<Rightarrow> 'd \<Rightarrow> spdk_thread option \<times> 'd"
  le_thread_bind :: "spdk_thread \<Rightarrow> 'd \<Rightarrow> 'd"
  le_thread_exit :: "spdk_thread \<Rightarrow> 'd \<Rightarrow> 'd"
  le_get_io_channel :: "spdk_thread \<Rightarrow> 'd \<Rightarrow> bool \<times> 'd"
  le_put_io_channel :: "spdk_thread \<Rightarrow> 'd \<Rightarrow> 'd"
  le_zmalloc :: "'d zmalloc_fun"
  le_dma_free :: "'d dma_free_fun"
  le_app_stop :: "int \<Rightarrow> 'd \<Rightarrow> 'd"

abbreviation le_host :: "'d life_env \<Rightarrow> host" where
  "le_host env \<equiv> se_host (le_io env)"

definition outside :: "('d \<Rightarrow> 'd) \<Rightarrow> 'd spdk_state \<Rightarrow> 'd spdk_state" where
  "outside f s = s\<lparr>st_world := f (st_world s)\<rparr>"

text \<open>\<open>-EINVAL\<close>, \<open>-ENOTSUP\<close> and \<open>-ENODEV\<close>.\<close>

definition EINVAL :: int where "EINVAL = 22"
definition ENOTSUP :: int where "ENOTSUP = 95"
definition ENODEV :: int where "ENODEV = 19"

section \<open>Shutdown\<close>

definition publish_initialization_failure :: "string \<Rightarrow> 'd spdk_state \<Rightarrow> 'd spdk_state" where
  "publish_initialization_failure message s =
     s\<lparr>bc_last_error := message, bc_initialization_succeeded := False,
       bc_initialization_complete := True\<rparr>"

text \<open>\<open>SpdkRuntime::send_message\<close>, which has no lifecycle check of the context.\<close>

definition runtime_post ::
  "'d life_env \<Rightarrow> spdk_thread option \<Rightarrow> spdk_message \<Rightarrow> runtime \<Rightarrow> 'd spdk_state \<Rightarrow>
     unit result \<times> 'd spdk_state" where
  "runtime_post env thread msg rt s =
     (case thread of
        None \<Rightarrow> (runtime_send_message (le_host env) None 0 rt, s)
      | Some t \<Rightarrow>
          if \<not> runtime_is_available rt then (runtime_send_message (le_host env) (Some t) 0 rt, s)
          else (case thread_send_msg (le_io env) t msg s of
                  (code, s1) \<Rightarrow> (runtime_send_message (le_host env) (Some t) code rt, s1)))"

definition request_shutdown ::
  "'d life_env \<Rightarrow> int \<Rightarrow> string \<Rightarrow> 'd spdk_state \<Rightarrow> 'd spdk_state" where
  "request_shutdown env return_code error s =
     (let s1 = (if error \<noteq> [] then s\<lparr>bc_last_error := error\<rparr> else s);
          s2 = (if return_code \<noteq> 0 \<and> bc_shutdown_return_code s1 = 0
                then s1\<lparr>bc_shutdown_return_code := return_code\<rparr> else s1)
      in case bc_runtime s2 of
           None \<Rightarrow> s2
         | Some rt \<Rightarrow>
             if bc_shutdown_requested s2 \<or> \<not> runtime_is_available rt then s2
             else
               (case runtime_post env (bc_app_thread s2) Msg_begin_shutdown rt
                       (s2\<lparr>bc_shutdown_requested := True\<rparr>) of
                  (Inr _, s3) \<Rightarrow> s3
                | (Inl e, s3) \<Rightarrow>
                    (if bc_last_error s3 = [] then s3\<lparr>bc_last_error := what e\<rparr> else s3)
                      \<lparr>bc_shutdown_complete := True\<rparr>))"

definition release_descriptor_on_app_thread :: "'d life_env \<Rightarrow> 'd spdk_state \<Rightarrow> 'd spdk_state" where
  "release_descriptor_on_app_thread env s =
     (if bc_descriptor_open s then (outside (le_close env) s)\<lparr>bc_descriptor_open := False\<rparr> else s)"

definition finish_shutdown_on_app_thread :: "'d life_env \<Rightarrow> 'd spdk_state \<Rightarrow> 'd spdk_state" where
  "finish_shutdown_on_app_thread env s =
     (upd_metrics (\<lambda>m. m\<lparr>m_dma_buffer_pool_in_use_bytes := 0\<rparr>)
        (release_descriptor_on_app_thread env s))\<lparr>bc_shutdown_complete := True\<rparr>"

definition on_io_worker_shutdown :: "'d life_env \<Rightarrow> 'd spdk_state \<Rightarrow> 'd spdk_state" where
  "on_io_worker_shutdown env s =
     (let s1 = s\<lparr>bc_workers_shutting_down := bc_workers_shutting_down s - 1\<rparr>
      in if bc_workers_shutting_down s1 = 0 then finish_shutdown_on_app_thread env s1 else s1)"

text \<open>The buffers of worker \<open>w\<close> are freed and no longer counted.\<close>

definition release_worker_pool :: "'d life_env \<Rightarrow> nat \<Rightarrow> 'd spdk_state \<Rightarrow> 'd spdk_state" where
  "release_worker_pool env w s =
     (case pool_release_all (le_dma_free env) (wk_buffer_pool (wkr s w)) (st_world s) of
        (p, d) \<Rightarrow>
          let s1 = (upd_worker w (wk_buffer_pool_update (\<lambda>_. p)) s)\<lparr>st_world := d\<rparr>;
              bytes = wk_dma_pool_allocated_bytes (wkr s1 w)
          in if bytes \<noteq> 0
             then upd_worker w (wk_dma_pool_allocated_bytes_update (\<lambda>_. 0))
                    (upd_metrics (\<lambda>m. m\<lparr>m_dma_buffer_pool_allocated_bytes :=
                       m_dma_buffer_pool_allocated_bytes m - bytes\<rparr>) s1)
             else s1)"

text \<open>The loop that fails the parked requests of worker \<open>w\<close>, from the front.\<close>

fun fail_parked :: "nat \<Rightarrow> nat list \<Rightarrow> 'd spdk_state \<Rightarrow> 'd spdk_state" where
  "fail_parked w [] s = s"
| "fail_parked w (r # rs) s =
     fail_parked w rs (complete_request r False ''SPDK runtime is shutting down''
       (upd_worker w (wk_pending_io_update (\<lambda>_. rs)) s))"

definition put_worker_channel :: "'d life_env \<Rightarrow> nat \<Rightarrow> 'd spdk_state \<Rightarrow> 'd spdk_state" where
  "put_worker_channel env w s =
     (if wk_io_channel (wkr s w)
      then upd_worker w (wk_io_channel_update (\<lambda>_. False))
             (outside (le_put_io_channel env (wk_thread (wkr s w))) s)
      else s)"

text \<open>
  The acknowledgement of a worker with a thread of its own: a message to the application
  thread, which exists because worker 0 runs on it.
\<close>

definition acknowledge_shutdown :: "'d life_env \<Rightarrow> nat \<Rightarrow> 'd spdk_state \<Rightarrow> 'd spdk_state" where
  "acknowledge_shutdown env w s =
     (case thread_send_msg (le_io env) (the (bc_app_thread s)) Msg_finish_shutdown s of
        (send_result, s1) \<Rightarrow>
          let s2 = outside (le_thread_exit env (wk_thread (wkr s1 w))) s1
          in if send_result \<noteq> 0 then outside (le_app_stop env send_result) s2 else s2)"

definition shutdown_io_worker :: "'d life_env \<Rightarrow> nat \<Rightarrow> 'd spdk_state \<Rightarrow> 'd spdk_state" where
  "shutdown_io_worker env w s =
     (let s1 = fail_parked w (wk_pending_io (wkr s w)) s;
          s2 = release_worker_pool env w s1;
          s3 = put_worker_channel env w s2
      in if \<not> wk_owns_thread (wkr s3 w) then on_io_worker_shutdown env s3
         else acknowledge_shutdown env w s3)"

text \<open>The loop that dispatches the releases of the secondary workers.\<close>

fun dispatch_shutdown :: "'d life_env \<Rightarrow> nat list \<Rightarrow> 'd spdk_state \<Rightarrow> 'd spdk_state" where
  "dispatch_shutdown env [] s = s"
| "dispatch_shutdown env (w # ws) s =
     dispatch_shutdown env ws
       (case thread_send_msg (le_io env) (wk_thread (wkr s w)) (Msg_shutdown_worker w) s of
          (send_result, s1) \<Rightarrow>
            if send_result = 0 then s1
            else
              let s2 = (if bc_last_error s1 = []
                        then s1\<lparr>bc_last_error := spdk_error (le_host env)
                            (''stopping SPDK I/O thread '' @ nat_to_string w) send_result\<rparr>
                        else s1);
                  s3 = upd_worker w (wk_io_channel_update (\<lambda>_. False)) (release_worker_pool env w s2)
              in on_io_worker_shutdown env s3)"

definition begin_shutdown_on_app_thread :: "'d life_env \<Rightarrow> 'd spdk_state \<Rightarrow> 'd spdk_state" where
  "begin_shutdown_on_app_thread env s =
     (if bc_shutdown_started s then s
      else
        let s1 = s\<lparr>bc_shutdown_started := True, bc_workers_shutting_down := length (bc_io_workers s)\<rparr>
        in if bc_io_workers s1 = [] then finish_shutdown_on_app_thread env s1
           else shutdown_io_worker env 0
                  (dispatch_shutdown env [1..<length (bc_io_workers s1)] s1))"

text \<open>\<open>on_bdev_event\<close>; every other event is ignored.\<close>

datatype bdev_event = Event_resize | Event_remove | Event_other

definition on_bdev_event :: "'d life_env \<Rightarrow> bdev_event \<Rightarrow> 'd spdk_state \<Rightarrow> 'd spdk_state" where
  "on_bdev_event env type s =
     (case type of
        Event_resize \<Rightarrow> request_shutdown env (- ENOTSUP)
          ''bdev resize after page-map initialization is unsupported'' s
      | Event_remove \<Rightarrow> request_shutdown env (- ENODEV) ''the selected bdev was removed'' s
      | Event_other \<Rightarrow> s)"

section \<open>Initialisation\<close>

definition on_io_worker_initialized :: "'d life_env \<Rightarrow> string \<Rightarrow> 'd spdk_state \<Rightarrow> 'd spdk_state" where
  "on_io_worker_initialized env error s =
     (let s1 = (if error \<noteq> [] \<and> bc_last_error s = [] then s\<lparr>bc_last_error := error\<rparr> else s);
          s2 = s1\<lparr>bc_workers_initializing := bc_workers_initializing s1 - 1\<rparr>
      in if bc_workers_initializing s2 \<noteq> 0 then s2
         else
           let succeeded = (bc_last_error s2 = []);
               s3 = s2\<lparr>bc_initialization_succeeded := succeeded, bc_initialization_complete := True\<rparr>
           in if succeeded then s3 else request_shutdown env (- EINVAL) [] s3)"

text \<open>
  The body of the \<open>try\<close> block of \<open>initialize_io_worker\<close>, run on thread \<open>cur\<close>: the text of the
  exception, if any, and the state.
\<close>

definition prepare_io_worker ::
  "'d life_env \<Rightarrow> spdk_thread \<Rightarrow> nat \<Rightarrow> 'd spdk_state \<Rightarrow> string option \<times> 'd spdk_state" where
  "prepare_io_worker env cur w s =
     (let t = wk_thread (wkr s w)
      in if cur \<noteq> t then (Some ''SPDK I/O worker initialized on the wrong thread'', s)
         else
           let s1 = outside (le_thread_bind env t) s
           in if le_current_core env cur (st_world s1) \<noteq> wk_core (wkr s1 w)
              then (Some (''SPDK I/O worker '' @ nat_to_string (wk_index (wkr s1 w)) @
                      '' was not scheduled on its selected reactor''), s1)
              else
                (case le_get_io_channel env t (st_world s1) of
                   (channel, d) \<Rightarrow>
                     let s2 = upd_worker w (wk_io_channel_update (\<lambda>_. channel)) (s1\<lparr>st_world := d\<rparr>)
                     in if \<not> channel
                        then (Some (''creating bdev I/O channel for SPDK worker '' @
                                nat_to_string (wk_index (wkr s2 w)) @ '' failed''), s2)
                        else
                          let g = bc_geometry s2
                          in (case pool_initialize (le_zmalloc env) (le_dma_free env)
                                    (io_segment_size g) (buffer_alignment g) (spdk_buffer_count g)
                                    (wk_buffer_pool (wkr s2 w)) (st_world s2) of
                                (Inl e, p, d2) \<Rightarrow>
                                  (Some (what e), (upd_worker w (wk_buffer_pool_update (\<lambda>_. p)) s2)\<lparr>st_world := d2\<rparr>)
                              | (Inr _, p, d2) \<Rightarrow>
                                  let bytes = io_segment_size g * spdk_buffer_count g
                                  in (None,
                                      upd_worker w (wk_dma_pool_allocated_bytes_update (\<lambda>_. bytes))
                                       (upd_metrics (\<lambda>m. m\<lparr>m_dma_buffer_pool_allocated_bytes :=
                                          m_dma_buffer_pool_allocated_bytes m + bytes\<rparr>)
                                        ((upd_worker w (wk_buffer_pool_update (\<lambda>_. p)) s2)
                                           \<lparr>st_world := d2\<rparr>))))))"

definition initialize_io_worker ::
  "'d life_env \<Rightarrow> spdk_thread \<Rightarrow> nat \<Rightarrow> 'd spdk_state \<Rightarrow> 'd spdk_state" where
  "initialize_io_worker env cur w s =
     (case prepare_io_worker env cur w s of
        (error, s1) \<Rightarrow> on_io_worker_initialized env (case error of None \<Rightarrow> [] | Some e \<Rightarrow> e) s1)"

text \<open>
  The part of \<open>on_runtime_ready\<close> that computes: the geometry of the bdev and the cores of the
  workers. The geometry is returned next to an exception, which may follow its assignment.
\<close>

definition discover_geometry ::
  "spdk_config \<Rightarrow> bdev_info \<Rightarrow> u32 list \<Rightarrow> u32 \<Rightarrow> storage_geometry \<Rightarrow> unit result \<times> storage_geometry" where
  "discover_geometry config bdev cores app_core g0 =
     (case build_storage_geometry (bi_num_blocks bdev) (bi_block_size bdev) (bi_write_unit_size bdev)
             (bi_buf_align bdev) (cfg_io_segment_size config) (bi_max_rw_size bdev)
             (cfg_spdk_buffer_count config) of
        Inl e \<Rightarrow> (Inl e, g0)
      | Inr g \<Rightarrow>
          let reactors = spdk_reactor_cores g @ cores;
              g1 = g\<lparr>spdk_reactor_cores := reactors, spdk_reactor_count := of_nat (length reactors)\<rparr>;
              threads = cfg_io_thread_count config
          in if threads > spdk_reactor_count g1
             then (Inl (Invalid_argument (''spdk_io_thread_count='' @ nat_to_string (unat threads) @
                     '' exceeds the '' @ nat_to_string (unat (spdk_reactor_count g1)) @
                     '' reactor cores selected by core_mask='' @ cfg_core_mask config)), g1)
             else if cfg_spdk_buffer_count config > u64_max div threads
             then (Inl (Overflow_error ''total SPDK buffer count overflows size_t''), g1)
             else if app_core \<notin> set reactors
             then (Inl (Runtime_error
                     ''SPDK application thread is not running on a selected reactor''), g1)
             else
               let ordered = app_core # remove1 app_core reactors
               in (Inr (), g1\<lparr>spdk_reactor_cores := ordered, spdk_io_thread_count := threads,
                      spdk_buffer_count := cfg_spdk_buffer_count config,
                      total_spdk_buffer_count := cfg_spdk_buffer_count config * threads,
                      spdk_io_cores := take (unat threads) ordered\<rparr>))"

text \<open>\<open>IoWorker\<close> with its initialisers, and the loop that makes the workers from index \<open>i\<close> on.\<close>

definition new_io_worker :: "nat \<Rightarrow> u32 \<Rightarrow> spdk_thread \<Rightarrow> bool \<Rightarrow> io_worker" where
  "new_io_worker i core t owns =
     \<lparr>wk_index = i, wk_core = core, wk_thread = t, wk_owns_thread = owns, wk_io_channel = False,
      wk_buffer_pool = empty_pool, wk_dma_pool_allocated_bytes = 0, wk_pending_io = [],
      wk_draining_pending_io = False\<rparr>"

fun create_workers ::
  "'d life_env \<Rightarrow> spdk_thread \<Rightarrow> nat \<Rightarrow> u32 list \<Rightarrow> 'd spdk_state \<Rightarrow> unit result \<times> 'd spdk_state" where
  "create_workers env app i [] s = (Inr (), s)"
| "create_workers env app i (core # cores) s =
     (if i = 0
      then create_workers env app (Suc i) cores
             (s\<lparr>bc_io_workers := bc_io_workers s @ [new_io_worker i core app False]\<rparr>)
      else
        (case le_thread_create env (''lmcache_io_'' @ nat_to_string i) core (st_world s) of
           (None, d) \<Rightarrow>
             (Inl (Runtime_error (''creating SPDK I/O thread '' @ nat_to_string i @ '' failed'')),
              s\<lparr>st_world := d\<rparr>)
         | (Some t, d) \<Rightarrow>
             create_workers env app (Suc i) cores
               (s\<lparr>st_world := d, bc_io_workers := bc_io_workers s @ [new_io_worker i core t True]\<rparr>)))"

text \<open>The loop that posts the initialisation of the secondary workers.\<close>

fun dispatch_initialize :: "'d life_env \<Rightarrow> nat list \<Rightarrow> 'd spdk_state \<Rightarrow> 'd spdk_state" where
  "dispatch_initialize env [] s = s"
| "dispatch_initialize env (w # ws) s =
     dispatch_initialize env ws
       (case thread_send_msg (le_io env) (wk_thread (wkr s w)) (Msg_initialize_worker w) s of
          (send_result, s1) \<Rightarrow>
            if send_result = 0 then s1
            else on_io_worker_initialized env (spdk_error (le_host env)
                   (''initializing SPDK I/O thread '' @ nat_to_string w) send_result) s1)"

text \<open>The \<open>try\<close> block of \<open>on_runtime_ready\<close> up to the dispatch, on the application thread.\<close>

definition open_workers ::
  "'d life_env \<Rightarrow> spdk_thread \<Rightarrow> 'd spdk_state \<Rightarrow> unit result \<times> 'd spdk_state" where
  "open_workers env cur s =
     (case discover_geometry (bc_config s) (le_bdev env (st_world s)) (le_cores env (st_world s))
             (le_current_core env cur (st_world s)) (bc_geometry s) of
        (Inl e, g) \<Rightarrow> (Inl e, s\<lparr>bc_geometry := g\<rparr>)
      | (Inr _, g) \<Rightarrow>
          create_workers env (the (bc_app_thread s)) 0 (spdk_io_cores g) (s\<lparr>bc_geometry := g\<rparr>))"

definition on_runtime_ready :: "'d life_env \<Rightarrow> spdk_thread \<Rightarrow> 'd spdk_state \<Rightarrow> 'd spdk_state" where
  "on_runtime_ready env cur s =
     (if bc_app_thread s = None
      then publish_initialization_failure ''SPDK runtime has no application thread'' s
      else
        (case le_open env (cfg_bdev_name (bc_config s)) (st_world s) of
           (open_result, d) \<Rightarrow>
             if open_result \<noteq> 0
             then request_shutdown env open_result []
                    (publish_initialization_failure
                       (spdk_error (le_host env)
                          (''opening bdev '' @ quote @ cfg_bdev_name (bc_config s) @ quote) open_result)
                       (s\<lparr>st_world := d\<rparr>))
             else
               (case open_workers env cur (s\<lparr>st_world := d, bc_descriptor_open := True\<rparr>) of
                  (Inl e, s1) \<Rightarrow>
                    request_shutdown env (- EINVAL) [] (publish_initialization_failure (what e) s1)
                | (Inr _, s1) \<Rightarrow>
                    let s2 = s1\<lparr>bc_workers_initializing := length (bc_io_workers s1)\<rparr>
                    in initialize_io_worker env cur 0
                         (dispatch_initialize env [1..<length (bc_io_workers s2)] s2))))"

section \<open>Construction and closing\<close>

definition validate_config :: "spdk_config \<Rightarrow> unit result" where
  "validate_config config =
     (if cfg_json_config_file config = [] then Inl (Invalid_argument ''json_config_file must not be empty'')
      else if cfg_bdev_name config = [] then Inl (Invalid_argument ''bdev_name must not be empty'')
      else if cfg_core_mask config = [] then Inl (Invalid_argument ''core_mask must not be empty'')
      else if cfg_memory_size_mb config \<le> 0
      then Inl (Invalid_argument ''memory_size_mb must be greater than zero'')
      else if cfg_io_segment_size config = 0
      then Inl (Invalid_argument ''io_segment_size must be greater than zero'')
      else if cfg_spdk_buffer_count config = 0
      then Inl (Invalid_argument ''spdk_buffer_count must be greater than zero'')
      else if cfg_io_thread_count config = 0
      then Inl (Invalid_argument ''spdk_io_thread_count must be greater than zero'')
      else Inr ())"

text \<open>The members with their initialisers, on top of memory \<open>m\<close> and an outside state.\<close>

definition new_context :: "spdk_config \<Rightarrow> bool \<Rightarrow> (nat \<Rightarrow> u8) \<Rightarrow> 'd \<Rightarrow> 'd spdk_state" where
  "new_context config structured m d =
     \<lparr>bc_config = config, bc_runtime = None, bc_structured_events = structured,
      bc_initialization_complete = False, bc_initialization_succeeded = False, bc_closed = False,
      bc_last_error = [], bc_shutdown_requested = False, bc_shutdown_started = False,
      bc_shutdown_complete = False, bc_bdev_claimed = False, bc_workers_initializing = 0,
      bc_workers_shutting_down = 0, bc_shutdown_return_code = 0, bc_geometry = default_geometry,
      bc_app_thread = None, bc_descriptor_open = False, bc_io_workers = [], bc_next_io_worker = 0,
      bc_metrics = zero_metrics, st_requests = [], st_batches = [], st_queue = (\<lambda>_. []),
      st_waiting = [], st_in_flight = [], st_memory = m, st_dma = (\<lambda>_ _. 0), st_stderr = [],
      st_world = d\<rparr>"

text \<open>
  The constructor up to its wait. \<open>outcome\<close> is what \<open>spdk_app_start\<close> does if it is called,
  \<open>stop_send\<close> and \<open>stop_return\<close> what stopping the runtime returns if its last owner is dropped.
\<close>

definition open_context ::
  "'d life_env \<Rightarrow> app_start_outcome \<Rightarrow> int \<Rightarrow> int \<Rightarrow> spdk_config \<Rightarrow> (nat \<Rightarrow> u8) \<Rightarrow> process \<Rightarrow> 'd \<Rightarrow>
     'd spdk_state result \<times> process \<times> 'd" where
  "open_context env outcome stop_send stop_return config m p d =
     (case resolve_structured_events (host_getenv (le_host env)) (cfg_structured_events config) of
        Inl e \<Rightarrow> (Inl e, p, d)
      | Inr structured \<Rightarrow>
        (case validate_config config of
           Inl e \<Rightarrow> (Inl e, p, d)
         | Inr _ \<Rightarrow>
           (case acquire (le_host env) outcome config p of
              (Inl e, p1) \<Rightarrow> (Inl e, p1, d)
            | (Inr rt, p1) \<Rightarrow>
              (case claim_bdev (cfg_bdev_name config) rt of
                 (Inl e, _) \<Rightarrow> (Inl e, drop_runtime (le_host env) stop_send stop_return p1, d)
               | (Inr _, rt1) \<Rightarrow>
                 let p2 = with_runtime (\<lambda>_. rt1) p1;
                     s = (new_context config structured m d)\<lparr>bc_runtime := Some rt1,
                           bc_bdev_claimed := True, bc_app_thread := rt_app_thread rt1\<rparr>
                 in case runtime_post env (bc_app_thread s) Msg_open rt1 s of
                      (Inr _, s1) \<Rightarrow> (Inr s1, p2, st_world s1)
                    | (Inl e, s1) \<Rightarrow>
                        (Inl e, drop_runtime (le_host env) stop_send stop_return
                           (with_runtime (release_bdev (cfg_bdev_name config)) p2), st_world s1)))))"

text \<open>
  \<open>close\<close> up to its wait for \<open>shutdown_complete_\<close>, and after it: the claim is given back and
  the runtime dropped. A second call returns at once.
\<close>

definition close_begin :: "'d life_env \<Rightarrow> 'd spdk_state \<Rightarrow> 'd spdk_state" where
  "close_begin env s =
     (if bc_closed s then s
      else
        let should_request_shutdown =
              (bc_app_thread s \<noteq> None \<and> (bc_descriptor_open s \<or> bc_io_workers s \<noteq> []));
            s1 = s\<lparr>bc_closed := True\<rparr>
        in if should_request_shutdown then request_shutdown env 0 [] s1
           else s1\<lparr>bc_shutdown_complete := True\<rparr>)"

definition close_end ::
  "host \<Rightarrow> int \<Rightarrow> int \<Rightarrow> 'd spdk_state \<Rightarrow> process \<Rightarrow> 'd spdk_state \<times> process" where
  "close_end h stop_send stop_return s p =
     (let s1 = s\<lparr>bc_runtime := None, bc_bdev_claimed := False\<rparr>
      in if bc_runtime s = None then (s1, p)
         else
           let p1 = (if bc_bdev_claimed s
                     then with_runtime (release_bdev (cfg_bdev_name (bc_config s))) p else p)
           in (s1, drop_runtime h stop_send stop_return p1))"

text \<open>
  The constructor after its wait for \<open>initialization_complete_\<close>: it returns, or it closes and
  will throw the error.
\<close>

definition constructor_wakes :: "'d life_env \<Rightarrow> 'd spdk_state \<Rightarrow> unit result \<times> 'd spdk_state" where
  "constructor_wakes env s =
     (if bc_initialization_succeeded s then (Inr (), s)
      else (Inl (Runtime_error (bc_last_error s)), close_begin env s))"

definition is_available :: "'d spdk_state \<Rightarrow> bool" where
  "is_available s \<longleftrightarrow> bc_initialization_succeeded s \<and>
     (case bc_runtime s of None \<Rightarrow> False | Some rt \<Rightarrow> runtime_is_available rt) \<and>
     \<not> bc_closed s \<and> \<not> bc_shutdown_requested s"

section \<open>Steps\<close>

text \<open>The next message of thread \<open>t\<close>, when it is one of the lifecycle.\<close>

definition life_deliver :: "'d life_env \<Rightarrow> spdk_thread \<Rightarrow> 'd spdk_state \<Rightarrow> 'd spdk_state option" where
  "life_deliver env t s =
     (case st_queue s t of
        [] \<Rightarrow> None
      | msg # rest \<Rightarrow>
          let s1 = s\<lparr>st_queue := (st_queue s)(t := rest)\<rparr>
          in case msg of
               Msg_open \<Rightarrow> Some (on_runtime_ready env t s1)
             | Msg_begin_shutdown \<Rightarrow> Some (begin_shutdown_on_app_thread env s1)
             | Msg_initialize_worker w \<Rightarrow> Some (initialize_io_worker env t w s1)
             | Msg_shutdown_worker w \<Rightarrow> Some (shutdown_io_worker env w s1)
             | Msg_finish_shutdown \<Rightarrow> Some (on_io_worker_shutdown env s1)
             | Msg_execute_batch _ \<Rightarrow> None
             | Msg_retry _ \<Rightarrow> None)"

text \<open>
  A context from its constructor on: messages, I/O, notifications of the bdev while it is open,
  and \<open>close\<close> once the constructor has been woken.
\<close>

inductive life_step :: "'d life_env \<Rightarrow> 'd spdk_state \<Rightarrow> 'd spdk_state \<Rightarrow> bool" for env where
  life_message: "life_deliver env t s = Some s' \<Longrightarrow> life_step env s s'"
| life_io: "io_step (le_io env) s s' \<Longrightarrow> life_step env s s'"
| life_event: "bc_descriptor_open s \<Longrightarrow> life_step env s (on_bdev_event env e s)"
| life_close: "bc_initialization_complete s \<Longrightarrow> life_step env s (close_begin env s)"

inductive_cases life_stepE: "life_step env s s'"

inductive life_reachable :: "'d life_env \<Rightarrow> 'd spdk_state \<Rightarrow> bool" for env where
  life_open: "open_context env outcome stop_send stop_return config m p d = (Inr s, p', d') \<Longrightarrow>
    process_reachable p \<Longrightarrow> life_reachable env s"
| life_next: "life_reachable env s \<Longrightarrow> life_step env s s' \<Longrightarrow> life_reachable env s'"

end
