(* ===== verification/Lifecycle_Protocol.thy ===== *)
theory Lifecycle_Protocol
  imports Bdev_Context
begin

text \<open>
  The handshake by which a context prepares and releases its workers, without the resources
  themselves: which messages are under way, what has been requested, and whether a worker may
  hold anything. \<open>Bdev_Lifecycle_Refinement\<close> shows that the handlers of the context implement it
  when SPDK accepts every message.

  The messages about worker \<open>w\<close> that wait on its thread are \<open>pr_box p w\<close>, those that wait on the
  application thread for the context itself are \<open>pr_app_box p\<close>.
\<close>

section \<open>The protocol\<close>

record protocol =
  pr_holds :: "bool list"
  pr_owns :: "bool list"
  pr_box :: "nat \<Rightarrow> spdk_message list"
  pr_app_box :: "spdk_message list"
  pr_descriptor :: bool
  pr_initializing :: nat
  pr_initialized :: bool
  pr_succeeded :: bool
  pr_requested :: bool
  pr_started :: bool
  pr_stopping :: nat
  pr_complete :: bool
  pr_closed :: bool

abbreviation parties :: "protocol \<Rightarrow> nat" where
  "parties p \<equiv> length (pr_holds p)"

definition set_holds :: "nat \<Rightarrow> bool \<Rightarrow> protocol \<Rightarrow> protocol" where
  "set_holds w b p = p\<lparr>pr_holds := (pr_holds p)[w := b]\<rparr>"

definition post_app :: "spdk_message \<Rightarrow> protocol \<Rightarrow> protocol" where
  "post_app m p = p\<lparr>pr_app_box := pr_app_box p @ [m]\<rparr>"

definition post_each :: "(nat \<Rightarrow> spdk_message) \<Rightarrow> nat list \<Rightarrow> protocol \<Rightarrow> protocol" where
  "post_each f ws p = p\<lparr>pr_box := (\<lambda>w. if w \<in> set ws then pr_box p w @ [f w] else pr_box p w)\<rparr>"

definition p_request :: "protocol \<Rightarrow> protocol" where
  "p_request p = (if pr_requested p then p else post_app Msg_begin_shutdown (p\<lparr>pr_requested := True\<rparr>))"

definition p_finish :: "protocol \<Rightarrow> protocol" where
  "p_finish p = p\<lparr>pr_descriptor := False, pr_complete := True\<rparr>"

definition p_worker_down :: "protocol \<Rightarrow> protocol" where
  "p_worker_down p =
     (let p1 = p\<lparr>pr_stopping := pr_stopping p - 1\<rparr>
      in if pr_stopping p1 = 0 then p_finish p1 else p1)"

definition p_stop_worker :: "nat \<Rightarrow> protocol \<Rightarrow> protocol" where
  "p_stop_worker w p =
     (let p1 = set_holds w False p
      in if pr_owns p ! w then post_app Msg_finish_shutdown p1 else p_worker_down p1)"

definition p_begin :: "protocol \<Rightarrow> protocol" where
  "p_begin p =
     (if pr_started p then p
      else
        let p1 = p\<lparr>pr_started := True, pr_stopping := parties p\<rparr>
        in if parties p = 0 then p_finish p1
           else p_stop_worker 0 (post_each Msg_shutdown_worker [1..<parties p] p1))"

definition p_worker_up :: "bool \<Rightarrow> protocol \<Rightarrow> protocol" where
  "p_worker_up ok p =
     (let p1 = p\<lparr>pr_initializing := pr_initializing p - 1\<rparr>
      in if pr_initializing p1 \<noteq> 0 then p1
         else
           let p2 = p1\<lparr>pr_initialized := True, pr_succeeded := ok\<rparr>
           in if ok then p2 else p_request p2)"

definition p_fail_open :: "protocol \<Rightarrow> protocol" where
  "p_fail_open p = p_request (p\<lparr>pr_initialized := True, pr_succeeded := False\<rparr>)"

definition fresh_parties :: "nat \<Rightarrow> protocol \<Rightarrow> protocol" where
  "fresh_parties n p =
     p\<lparr>pr_descriptor := True, pr_holds := replicate n False, pr_owns := map (\<lambda>w. w \<noteq> 0) [0..<n]\<rparr>"

inductive proto_deliver :: "protocol \<Rightarrow> protocol \<Rightarrow> bool" where
  open_failed: "pr_app_box p = Msg_open # ms \<Longrightarrow> proto_deliver p (p_fail_open (p\<lparr>pr_app_box := ms\<rparr>))"
| open_partly: "pr_app_box p = Msg_open # ms \<Longrightarrow>
    proto_deliver p (p_fail_open (fresh_parties n (p\<lparr>pr_app_box := ms\<rparr>)))"
| opened: "pr_app_box p = Msg_open # ms \<Longrightarrow> 0 < n \<Longrightarrow>
    proto_deliver p (p_worker_up ok (set_holds 0 h (post_each Msg_initialize_worker [1..<n]
      ((fresh_parties n (p\<lparr>pr_app_box := ms\<rparr>))\<lparr>pr_initializing := n\<rparr>))))"
| initialize: "pr_box p w = Msg_initialize_worker w # ms \<Longrightarrow>
    proto_deliver p (p_worker_up ok (set_holds w h (p\<lparr>pr_box := (pr_box p)(w := ms)\<rparr>)))"
| begin_shutdown: "pr_app_box p = Msg_begin_shutdown # ms \<Longrightarrow>
    proto_deliver p (p_begin (p\<lparr>pr_app_box := ms\<rparr>))"
| stop_worker: "pr_box p w = Msg_shutdown_worker w # ms \<Longrightarrow>
    proto_deliver p (p_stop_worker w (p\<lparr>pr_box := (pr_box p)(w := ms)\<rparr>))"
| acknowledged: "pr_app_box p = Msg_finish_shutdown # ms \<Longrightarrow>
    proto_deliver p (p_worker_down (p\<lparr>pr_app_box := ms\<rparr>))"

text \<open>The device reports an event, or the context is closed: both ask for the shutdown.\<close>

inductive proto_signal :: "protocol \<Rightarrow> protocol \<Rightarrow> bool" where
  device_event: "pr_descriptor p \<Longrightarrow> proto_signal p (p_request p)"
| closing: "pr_initialized p \<Longrightarrow> \<not> pr_closed p \<Longrightarrow> proto_signal p
    (let p1 = p\<lparr>pr_closed := True\<rparr>
     in if pr_descriptor p \<or> parties p \<noteq> 0 then p_request p1 else p1\<lparr>pr_complete := True\<rparr>)"

inductive proto_step :: "protocol \<Rightarrow> protocol \<Rightarrow> bool" where
  delivered: "proto_deliver p p' \<Longrightarrow> proto_step p p'"
| signalled: "proto_signal p p' \<Longrightarrow> proto_step p p'"

inductive_cases proto_stepE: "proto_step p p'"

definition proto_start :: protocol where
  "proto_start = \<lparr>pr_holds = [], pr_owns = [], pr_box = (\<lambda>_. []), pr_app_box = [Msg_open],
     pr_descriptor = False, pr_initializing = 0, pr_initialized = False, pr_succeeded = False,
     pr_requested = False, pr_started = False, pr_stopping = 0, pr_complete = False,
     pr_closed = False\<rparr>"

inductive proto_reachable :: "protocol \<Rightarrow> bool" where
  proto_init: "proto_reachable proto_start"
| proto_next: "proto_reachable p \<Longrightarrow> proto_step p p' \<Longrightarrow> proto_reachable p'"

section \<open>The invariant\<close>

text \<open>Workers whose initialisation, or whose release, is still to be delivered.\<close>

definition starting :: "protocol \<Rightarrow> nat set" where
  "starting p = {w. w < parties p \<and> Msg_initialize_worker w \<in> set (pr_box p w)}"

definition leaving :: "protocol \<Rightarrow> nat set" where
  "leaving p = {w. w < parties p \<and> Msg_shutdown_worker w \<in> set (pr_box p w)}"

definition box_ok :: "protocol \<Rightarrow> nat \<Rightarrow> bool" where
  "box_ok p w \<longleftrightarrow>
     (if 0 < w \<and> w < parties p
      then pr_box p w \<in> {[], [Msg_initialize_worker w]} \<or> pr_started p \<and>
        pr_box p w \<in> {[Msg_shutdown_worker w], [Msg_initialize_worker w, Msg_shutdown_worker w]}
      else pr_box p w = [])"

definition boxes_ok :: "protocol \<Rightarrow> bool" where
  "boxes_ok p \<longleftrightarrow> (\<forall>w. box_ok p w)"

definition acks :: "protocol \<Rightarrow> nat" where
  "acks p = count_list (pr_app_box p) Msg_finish_shutdown"

text \<open>Before the bdev was opened, and after.\<close>

definition unopened :: "protocol \<Rightarrow> bool" where
  "unopened p \<longleftrightarrow> p = proto_start"

definition opened_inv :: "protocol \<Rightarrow> bool" where
  "opened_inv p \<longleftrightarrow>
     length (pr_owns p) = parties p \<and> (\<forall>w<parties p. pr_owns p ! w = (w \<noteq> 0)) \<and>
     boxes_ok p \<and>
     (pr_app_box p = (if pr_requested p \<and> \<not> pr_started p then [Msg_begin_shutdown]
        else replicate (acks p) Msg_finish_shutdown)) \<and>
     pr_initializing p = card (starting p) \<and> (pr_initialized p \<longleftrightarrow> pr_initializing p = 0) \<and>
     (pr_started p \<longrightarrow> pr_requested p) \<and>
     (if pr_started p
      then pr_stopping p = card (leaving p) + acks p \<and> (pr_complete p \<longleftrightarrow> pr_stopping p = 0) \<and>
        (pr_complete p \<longrightarrow> \<not> pr_descriptor p) \<and>
        pr_stopping p \<le> parties p \<and>
        (\<forall>w<parties p. pr_holds p ! w \<longrightarrow> w \<in> leaving p) \<and> starting p \<subseteq> leaving p
      else leaving p = {} \<and> acks p = 0 \<and> (pr_complete p \<longrightarrow> parties p = 0 \<and> \<not> pr_descriptor p)) \<and>
     (\<not> pr_descriptor p \<longrightarrow> parties p = 0 \<or> pr_complete p)"

definition proto_inv :: "protocol \<Rightarrow> bool" where
  "proto_inv p \<longleftrightarrow> unopened p \<or> opened_inv p"

lemma party_sets_cong:
  assumes "parties p' = parties p" "pr_box p' = pr_box p"
  shows "starting p' = starting p" "leaving p' = leaving p"
  using assms by (simp_all add: starting_def leaving_def)

lemma party_sets_frame [simp]:
  "starting (p\<lparr>pr_app_box := b\<rparr>) = starting p" "leaving (p\<lparr>pr_app_box := b\<rparr>) = leaving p"
  "starting (p\<lparr>pr_requested := r\<rparr>) = starting p" "leaving (p\<lparr>pr_requested := r\<rparr>) = leaving p"
  "starting (p\<lparr>pr_initialized := r\<rparr>) = starting p" "leaving (p\<lparr>pr_initialized := r\<rparr>) = leaving p"
  "starting (p\<lparr>pr_succeeded := r\<rparr>) = starting p" "leaving (p\<lparr>pr_succeeded := r\<rparr>) = leaving p"
  "starting (p\<lparr>pr_initializing := k\<rparr>) = starting p" "leaving (p\<lparr>pr_initializing := k\<rparr>) = leaving p"
  "starting (p\<lparr>pr_stopping := k\<rparr>) = starting p" "leaving (p\<lparr>pr_stopping := k\<rparr>) = leaving p"
  "starting (p\<lparr>pr_started := r\<rparr>) = starting p" "leaving (p\<lparr>pr_started := r\<rparr>) = leaving p"
  "starting (p\<lparr>pr_complete := r\<rparr>) = starting p" "leaving (p\<lparr>pr_complete := r\<rparr>) = leaving p"
  "starting (p\<lparr>pr_descriptor := r\<rparr>) = starting p" "leaving (p\<lparr>pr_descriptor := r\<rparr>) = leaving p"
  "starting (p\<lparr>pr_closed := r\<rparr>) = starting p" "leaving (p\<lparr>pr_closed := r\<rparr>) = leaving p"
  by (simp_all add: starting_def leaving_def)

lemma finite_party_sets [simp]: "finite (starting p)" "finite (leaving p)"
  by (simp_all add: starting_def leaving_def)

lemma acks_frame [simp]:
  "acks (p\<lparr>pr_app_box := b\<rparr>) = count_list b Msg_finish_shutdown"
  "acks (p\<lparr>pr_requested := r\<rparr>) = acks p" "acks (p\<lparr>pr_initialized := r\<rparr>) = acks p"
  "acks (p\<lparr>pr_succeeded := r\<rparr>) = acks p" "acks (p\<lparr>pr_initializing := k\<rparr>) = acks p"
  "acks (p\<lparr>pr_stopping := k\<rparr>) = acks p" "acks (p\<lparr>pr_started := r\<rparr>) = acks p"
  "acks (p\<lparr>pr_complete := r\<rparr>) = acks p" "acks (p\<lparr>pr_descriptor := r\<rparr>) = acks p"
  "acks (p\<lparr>pr_closed := r\<rparr>) = acks p" "acks (p\<lparr>pr_holds := h\<rparr>) = acks p"
  "acks (p\<lparr>pr_owns := h\<rparr>) = acks p" "acks (p\<lparr>pr_box := f\<rparr>) = acks p"
  by (simp_all add: acks_def)

lemma boxes_ok_frame [simp]:
  "boxes_ok (p\<lparr>pr_app_box := b\<rparr>) = boxes_ok p" "boxes_ok (p\<lparr>pr_requested := r\<rparr>) = boxes_ok p"
  "boxes_ok (p\<lparr>pr_initialized := r\<rparr>) = boxes_ok p" "boxes_ok (p\<lparr>pr_succeeded := r\<rparr>) = boxes_ok p"
  "boxes_ok (p\<lparr>pr_initializing := k\<rparr>) = boxes_ok p" "boxes_ok (p\<lparr>pr_stopping := k\<rparr>) = boxes_ok p"
  "boxes_ok (p\<lparr>pr_complete := r\<rparr>) = boxes_ok p" "boxes_ok (p\<lparr>pr_descriptor := r\<rparr>) = boxes_ok p"
  "boxes_ok (p\<lparr>pr_closed := r\<rparr>) = boxes_ok p"
  by (simp_all add: boxes_ok_def box_ok_def)

lemma boxes_okD: "boxes_ok p \<Longrightarrow> box_ok p w"
  by (simp add: boxes_ok_def)

lemma count_replicate [simp]: "count_list (replicate n x) x = n"
  by (induction n) simp_all

section \<open>Every step keeps it\<close>

lemma opened_request:
  assumes "opened_inv p"
  shows "opened_inv (p_request p)"
proof (cases "pr_requested p")
  case False
  then have "pr_app_box p = []" "\<not> pr_started p" using assms by (auto simp: opened_inv_def)
  then show ?thesis
    using assms False unfolding opened_inv_def p_request_def post_app_def
    by simp
qed (simp add: p_request_def assms)

lemma opened_started_iff:
  "pr_started p \<Longrightarrow> opened_inv p \<longleftrightarrow>
     length (pr_owns p) = parties p \<and> (\<forall>w<parties p. pr_owns p ! w = (w \<noteq> 0)) \<and>
     boxes_ok p \<and> pr_app_box p = replicate (acks p) Msg_finish_shutdown \<and>
     pr_initializing p = card (starting p) \<and> (pr_initialized p \<longleftrightarrow> pr_initializing p = 0) \<and>
     pr_requested p \<and> pr_stopping p = card (leaving p) + acks p \<and>
     (pr_complete p \<longleftrightarrow> pr_stopping p = 0) \<and> (pr_complete p \<longrightarrow> \<not> pr_descriptor p) \<and>
     pr_stopping p \<le> parties p \<and> (\<forall>w<parties p. pr_holds p ! w \<longrightarrow> w \<in> leaving p) \<and> starting p \<subseteq> leaving p \<and>
     (\<not> pr_descriptor p \<longrightarrow> parties p = 0 \<or> pr_complete p)"
  unfolding opened_inv_def by auto

lemma opened_stopping:
  assumes "opened_inv p" and "pr_started p"
  shows "pr_stopping p = card (leaving p) + acks p" and "pr_app_box p = replicate (acks p) Msg_finish_shutdown"
    and "pr_complete p \<longleftrightarrow> pr_stopping p = 0" and "pr_requested p"
  using assms by (simp_all add: opened_inv_def)

text \<open>One worker less to wait for: either its message left its box, or its acknowledgement came.\<close>

lemma opened_worker_down:
  assumes "opened_inv (p\<lparr>pr_stopping := pr_stopping p - 1, pr_complete := (pr_stopping p = 1),
      pr_descriptor := (pr_descriptor p \<and> pr_stopping p \<noteq> 1)\<rparr>)"
    and "0 < pr_stopping p" and "\<not> pr_complete p"
  shows "opened_inv (p_worker_down p)"
proof -
  have "p_worker_down p = p\<lparr>pr_stopping := pr_stopping p - 1, pr_complete := (pr_stopping p = 1),
      pr_descriptor := (pr_descriptor p \<and> pr_stopping p \<noteq> 1)\<rparr>"
    using assms(2,3) by (cases p) (auto simp: p_worker_down_def p_finish_def Let_def)
  then show ?thesis using assms(1) by simp
qed

lemma opened_acknowledged:
  assumes inv: "opened_inv p" and m: "pr_app_box p = Msg_finish_shutdown # ms"
  shows "opened_inv (p_worker_down (p\<lparr>pr_app_box := ms\<rparr>))"
proof -
  have st: "pr_started p" using inv m
    by (auto simp: opened_inv_def split: if_splits)
  note o = opened_stopping [OF inv st]
  have a: "acks p = Suc (count_list ms Msg_finish_shutdown)" by (simp add: acks_def m)
  then have ms: "ms = replicate (count_list ms Msg_finish_shutdown) Msg_finish_shutdown"
    using o(2) m by simp
  show ?thesis
  proof (rule opened_worker_down)
    show "opened_inv (p\<lparr>pr_app_box := ms, pr_stopping := pr_stopping (p\<lparr>pr_app_box := ms\<rparr>) - 1,
        pr_complete := (pr_stopping (p\<lparr>pr_app_box := ms\<rparr>) = 1),
        pr_descriptor := (pr_descriptor (p\<lparr>pr_app_box := ms\<rparr>) \<and> pr_stopping (p\<lparr>pr_app_box := ms\<rparr>) \<noteq> 1)\<rparr>)"
      using inv o a ms st by (simp add: opened_started_iff) blast
  qed (use o a in simp_all)
qed


lemma opened_up:
  assumes "opened_inv (p\<lparr>pr_initializing := pr_initializing p - 1,
      pr_initialized := (pr_initializing p \<le> 1)\<rparr>)"
    and "0 < pr_initializing p" and "\<not> pr_initialized p"
  shows "opened_inv (p_worker_up ok p)"
proof -
  have s: "opened_inv (q\<lparr>pr_succeeded := b\<rparr>) = opened_inv q" for q :: protocol and b
    by (simp add: opened_inv_def)
  show ?thesis
  proof (cases "pr_initializing p = 1")
    case True
    let ?p = "p\<lparr>pr_initializing := 0, pr_initialized := True, pr_succeeded := ok\<rparr>"
    have "opened_inv ?p" using assms(1) True s by simp
    then show ?thesis using True opened_request [of ?p] by (cases ok) (simp_all add: p_worker_up_def Let_def)
  next
    case False
    then have "p_worker_up ok p = p\<lparr>pr_initializing := pr_initializing p - 1\<rparr>"
      using assms(2) by (simp add: p_worker_up_def Let_def)
    moreover have "p\<lparr>pr_initializing := pr_initializing p - 1, pr_initialized := False\<rparr> =
        p\<lparr>pr_initializing := pr_initializing p - 1\<rparr>" using assms(3) by simp
    moreover have "(pr_initializing p \<le> 1) = False" using assms(2) False by auto
    ultimately show ?thesis using assms(1) by (simp only:)
  qed
qed

lemma box_initialize:
  assumes "box_ok p w" and "pr_box p w = Msg_initialize_worker v # ms"
  shows "v = w" and "0 < w" and "w < parties p"
    and "ms = (if Msg_shutdown_worker w \<in> set ms then [Msg_shutdown_worker w] else [])"
    and "Msg_shutdown_worker w \<in> set ms \<Longrightarrow> pr_started p" and "Msg_initialize_worker w \<notin> set ms"
    and "w \<in> starting p" and "w \<in> leaving p \<longleftrightarrow> Msg_shutdown_worker w \<in> set ms"
  using assms by (auto simp: box_ok_def starting_def leaving_def split: if_splits)

lemma starting_pop:
  assumes "box_ok p w" and "pr_box p w = Msg_initialize_worker w # ms"
  shows "starting (p\<lparr>pr_box := (pr_box p)(w := ms)\<rparr>) = starting p - {w}"
  using box_initialize(6) [OF assms] by (auto simp: starting_def)

lemma starting_set_holds [simp]: "starting (set_holds w h p) = starting p"
  by (simp add: starting_def set_holds_def)

lemma starting_up [simp]: "starting (p_worker_up ok p) = starting p"
  by (simp add: p_worker_up_def p_request_def post_app_def Let_def)

lemma opened_initialize:
  assumes inv: "opened_inv p" and m: "pr_box p w = Msg_initialize_worker w # ms"
  shows "opened_inv (p_worker_up ok (set_holds w h (p\<lparr>pr_box := (pr_box p)(w := ms)\<rparr>)))"
proof -
  have ok: "box_ok p w" using inv boxes_okD by (simp add: opened_inv_def)
  note b = box_initialize [OF ok m]
  let ?p = "set_holds w h (p\<lparr>pr_box := (pr_box p)(w := ms)\<rparr>)"
  have st: "starting ?p = starting p - {w}"
    using b(6) by (auto simp: starting_def set_holds_def)
  have lv: "leaving ?p = leaving p"
    using m by (auto simp: leaving_def set_holds_def)
  have "box_ok ?p v" for v
  proof (cases "v = w")
    case True
    then show ?thesis using b(2-5) by (auto simp: box_ok_def set_holds_def split: if_splits)
  next
    case False
    then have "box_ok ?p v = box_ok p v" by (simp add: box_ok_def set_holds_def)
    then show ?thesis using inv boxes_okD by (simp add: opened_inv_def)
  qed
  then have boxes: "boxes_ok ?p" by (simp add: boxes_ok_def)
  have n: "pr_initializing p = card (starting p)" "0 < card (starting p)"
    using inv b(7) by (auto simp: opened_inv_def card_gt_0_iff)
  have holds: "\<forall>v<parties p. pr_holds ?p ! v \<longrightarrow> v \<in> leaving p" if "pr_started p"
  proof (intro allI impI)
    fix v assume "v < parties p" "pr_holds ?p ! v"
    moreover have "w \<in> leaving p" using inv that b(7) by (auto simp: opened_inv_def)
    ultimately show "v \<in> leaving p" using inv that by (cases "v = w") (auto simp: opened_inv_def set_holds_def)
  qed
  have card: "card (starting p - {w}) = pr_initializing p - 1"
    using n b(7) by simp
  have frame: "parties ?p = parties p" "pr_owns ?p = pr_owns p" "pr_app_box ?p = pr_app_box p"
    "pr_descriptor ?p = pr_descriptor p" "pr_initializing ?p = pr_initializing p"
    "pr_initialized ?p = pr_initialized p" "pr_requested ?p = pr_requested p"
    "pr_started ?p = pr_started p" "pr_stopping ?p = pr_stopping p" "pr_complete ?p = pr_complete p"
    "acks ?p = acks p"
    by (simp_all add: set_holds_def)
  show ?thesis
  proof (rule opened_up)
    have "starting ?p \<subseteq> leaving p" if "pr_started p" using inv that st by (auto simp: opened_inv_def)
    then show "opened_inv (?p\<lparr>pr_initializing := pr_initializing ?p - 1,
        pr_initialized := (pr_initializing ?p \<le> 1)\<rparr>)"
      using inv boxes st lv card n holds unfolding opened_inv_def
      by (cases "pr_started p") (auto simp: frame)
  qed (use n inv in \<open>auto simp: frame opened_inv_def\<close>)
qed

lemma box_shutdown:
  assumes "box_ok p w" and "pr_box p w = Msg_shutdown_worker v # ms"
  shows "v = w" and "0 < w" and "w < parties p" and "ms = []" and "pr_started p"
    and "w \<notin> starting p" and "w \<in> leaving p"
  using assms by (auto simp: box_ok_def starting_def leaving_def split: if_splits)

lemma opened_stop_worker:
  assumes inv: "opened_inv p" and m: "pr_box p w = Msg_shutdown_worker w # ms"
  shows "opened_inv (p_stop_worker w (p\<lparr>pr_box := (pr_box p)(w := ms)\<rparr>))"
proof -
  have ok: "box_ok p w" using inv boxes_okD by (simp add: opened_inv_def)
  note b = box_shutdown [OF ok m]
  note o = opened_stopping [OF inv b(5)]
  let ?p = "set_holds w False (p\<lparr>pr_box := (pr_box p)(w := ms)\<rparr>)"
  have st: "starting ?p = starting p" using b(4,6) by (auto simp: starting_def set_holds_def)
  have lv: "leaving ?p = leaving p - {w}" using b(4) by (auto simp: leaving_def set_holds_def)
  have "box_ok ?p v" for v
  proof (cases "v = w")
    case True
    then show ?thesis using b by (auto simp: box_ok_def set_holds_def)
  next
    case False
    then have "box_ok ?p v = box_ok p v" by (simp add: box_ok_def set_holds_def)
    then show ?thesis using inv boxes_okD by (simp add: opened_inv_def)
  qed
  then have boxes: "boxes_ok ?p" by (simp add: boxes_ok_def)
  have holds: "\<forall>v<parties p. pr_holds ?p ! v \<longrightarrow> v \<in> leaving ?p"
  proof (intro allI impI)
    fix v assume v: "v < parties p" "pr_holds ?p ! v"
    then have "v \<noteq> w" by (auto simp: set_holds_def)
    then show "v \<in> leaving ?p" using inv v b(5) unfolding lv by (simp add: opened_inv_def set_holds_def)
  qed
  have owns: "pr_owns p ! w" using inv b(2,3) by (simp add: opened_inv_def)
  have "card (leaving p) = Suc (card (leaving p - {w}))" by (rule card.remove [OF _ b(7)]) simp
  then obtain k where k: "card (leaving p - {w}) = k" "card (leaving p) = Suc k" by blast
  have r: "replicate n x @ [x] = x # replicate n x" for n and x :: spdk_message
    by (simp add: replicate_append_same)
  have sub: "starting p \<subseteq> leaving p - {w}" using inv [unfolded opened_started_iff [OF b(5)]] b(6) by blast
  have eq: "p_stop_worker w (p\<lparr>pr_box := (pr_box p)(w := ms)\<rparr>) = post_app Msg_finish_shutdown ?p"
    using owns by (simp add: p_stop_worker_def)
  have frame: "parties ?p = parties p" "pr_owns ?p = pr_owns p" "pr_app_box ?p = pr_app_box p"
    "pr_descriptor ?p = pr_descriptor p" "pr_initializing ?p = pr_initializing p"
    "pr_initialized ?p = pr_initialized p" "pr_requested ?p = pr_requested p"
    "pr_started ?p = pr_started p" "pr_stopping ?p = pr_stopping p" "pr_complete ?p = pr_complete p"
    "acks ?p = acks p"
    by (simp_all add: set_holds_def)
  have s: "pr_started (post_app Msg_finish_shutdown ?p)" using b(5) frame by (simp add: post_app_def)
  have "\<not> pr_complete p" using inv [unfolded opened_started_iff [OF b(5)]] k by auto
  then show ?thesis
    unfolding eq opened_started_iff [OF s]
    using inv [unfolded opened_started_iff [OF b(5)]] boxes st lv holds k r sub
    by (auto simp: post_app_def frame)
qed


lemma opened_begin:
  assumes inv: "opened_inv p" and m: "pr_app_box p = Msg_begin_shutdown # ms"
  shows "opened_inv (p_begin (p\<lparr>pr_app_box := ms\<rparr>))"
proof -
  have r: "pr_requested p" "\<not> pr_started p" "ms = []"
  proof -
    have "pr_requested p \<and> \<not> pr_started p"
      using inv m by (cases "acks p") (auto simp: opened_inv_def split: if_splits)
    then show "pr_requested p" "\<not> pr_started p" by simp_all
    then show "ms = []" using inv m by (auto simp: opened_inv_def)
  qed
  note i = inv [unfolded opened_inv_def, simplified r(1,2), simplified]
  show ?thesis
  proof (cases "parties p = 0")
    case True
    let ?q = "p\<lparr>pr_app_box := [], pr_started := True, pr_stopping := 0, pr_descriptor := False,
      pr_complete := True\<rparr>"
    have e: "starting p = {}" "leaving p = {}" using True by (simp_all add: starting_def leaving_def)
    have b: "boxes_ok ?q" using i True by (simp add: boxes_ok_def box_ok_def)
    have "p_begin (p\<lparr>pr_app_box := ms\<rparr>) = ?q"
      using True r by (simp add: p_begin_def p_finish_def Let_def)
    moreover have "opened_inv ?q"
      using i True e b r by (subst opened_started_iff) simp_all
    ultimately show ?thesis by simp
  next
    case False
    let ?n = "parties p"
    define q where "q = set_holds 0 False (post_each Msg_shutdown_worker [1..<?n]
      (p\<lparr>pr_app_box := [], pr_started := True, pr_stopping := ?n\<rparr>))"
    have frame: "parties q = ?n" "pr_owns q = pr_owns p" "pr_app_box q = []"
      "pr_descriptor q = pr_descriptor p" "pr_initializing q = pr_initializing p"
      "pr_initialized q = pr_initialized p" "pr_requested q = pr_requested p"
      "pr_started q" "pr_stopping q = ?n" "pr_complete q = pr_complete p" "acks q = 0"
      by (simp_all add: q_def set_holds_def post_each_def)
    have boxes: "boxes_ok q"
      unfolding boxes_ok_def
    proof
      fix w
      have "box_ok p w" using i boxes_okD by blast
      then show "box_ok q w" using r(2) by (auto simp: box_ok_def q_def set_holds_def post_each_def)
    qed
    have ini: "w \<noteq> 0 \<and> w < ?n" if "w \<in> starting p" for w
      using that i boxes_okD [of p w] by (cases "w = 0") (auto simp: starting_def box_ok_def)
    have st: "starting q = starting p" using ini by (auto simp: starting_def q_def set_holds_def post_each_def)
    have "Msg_shutdown_worker 0 \<notin> set (pr_box p 0)" using i boxes_okD [of p 0] by (simp add: box_ok_def)
    then have lv: "leaving q = {1..<?n}"
      using i by (auto simp: leaving_def q_def set_holds_def post_each_def)
    have holds: "\<forall>w<?n. pr_holds q ! w \<longrightarrow> w \<in> {1..<?n}"
    proof (intro allI impI)
      fix w assume "w < ?n" "pr_holds q ! w"
      then show "w \<in> {1..<?n}" by (cases "w = 0") (auto simp: q_def set_holds_def post_each_def)
    qed
    have "p_begin (p\<lparr>pr_app_box := ms\<rparr>) = p_worker_down q"
      using False r i by (simp add: q_def p_begin_def p_stop_worker_def Let_def post_each_def)
    moreover have "opened_inv (p_worker_down q)"
    proof (rule opened_worker_down)
      have "starting p \<subseteq> {1..<?n}" using ini by fastforce
      then show "opened_inv (q\<lparr>pr_stopping := pr_stopping q - 1, pr_complete := (pr_stopping q = 1),
          pr_descriptor := (pr_descriptor q \<and> pr_stopping q \<noteq> 1)\<rparr>)"
        using i boxes st lv holds False r(1) frame
        by (subst opened_started_iff) (auto simp: le_Suc_eq)
    qed (use False i frame in auto)
    ultimately show ?thesis by simp
  qed
qed

text \<open>Opening.\<close>

lemma fresh_inv:
  "opened_inv ((fresh_parties n (proto_start\<lparr>pr_app_box := []\<rparr>))\<lparr>pr_initialized := True, pr_succeeded := False\<rparr>)"
  by (simp add: opened_inv_def fresh_parties_def proto_start_def boxes_ok_def box_ok_def starting_def
      leaving_def acks_def)

lemma opened_open_failed: "opened_inv (p_fail_open (proto_start\<lparr>pr_app_box := []\<rparr>))"
  unfolding p_fail_open_def
  by (rule opened_request) (simp add: opened_inv_def proto_start_def boxes_ok_def box_ok_def starting_def
      leaving_def acks_def)

lemma opened_open_partly: "opened_inv (p_fail_open (fresh_parties n (proto_start\<lparr>pr_app_box := []\<rparr>)))"
  unfolding p_fail_open_def by (rule opened_request [OF fresh_inv])

lemma opened_opened:
  assumes "0 < n"
  shows "opened_inv (p_worker_up ok (set_holds 0 h (post_each Msg_initialize_worker [1..<n]
      ((fresh_parties n (proto_start\<lparr>pr_app_box := []\<rparr>))\<lparr>pr_initializing := n\<rparr>))))"
proof (rule opened_up)
  let ?q = "set_holds 0 h (post_each Msg_initialize_worker [1..<n]
      ((fresh_parties n (proto_start\<lparr>pr_app_box := []\<rparr>))\<lparr>pr_initializing := n\<rparr>))"
  have n: "parties ?q = n" by (simp add: set_holds_def post_each_def fresh_parties_def)
  have box: "pr_box ?q w = (if 1 \<le> w \<and> w < n then [Msg_initialize_worker w] else [])" for w
    by (simp add: set_holds_def post_each_def fresh_parties_def proto_start_def)
  have st: "starting ?q = {1..<n}" using n box by (auto simp: starting_def)
  have lv: "leaving ?q = {}" using box by (auto simp: leaving_def)
  have b: "boxes_ok ?q" using n box by (auto simp: boxes_ok_def box_ok_def)
  have fields: "pr_initializing ?q = n" "pr_app_box ?q = []" "pr_owns ?q = map (\<lambda>w. w \<noteq> 0) [0..<n]"
    "\<not> pr_requested ?q" "\<not> pr_started ?q" "\<not> pr_complete ?q" "pr_descriptor ?q" "acks ?q = 0"
    "\<not> pr_initialized ?q"
    by (simp_all add: set_holds_def post_each_def fresh_parties_def proto_start_def acks_def)
  show "opened_inv (?q\<lparr>pr_initializing := pr_initializing ?q - 1, pr_initialized := (pr_initializing ?q \<le> 1)\<rparr>)"
    unfolding opened_inv_def using n st lv b fields by simp
  show "0 < pr_initializing ?q" "\<not> pr_initialized ?q" using assms fields by simp_all
qed

lemma opened_closing:
  assumes "opened_inv p"
  shows "opened_inv (let p1 = p\<lparr>pr_closed := True\<rparr>
     in if pr_descriptor p \<or> parties p \<noteq> 0 then p_request p1 else p1\<lparr>pr_complete := True\<rparr>)"
proof -
  have c: "opened_inv (p\<lparr>pr_closed := True\<rparr>)"
    using assms by (cases "pr_started p") (auto simp: opened_inv_def)
  moreover have "opened_inv (p\<lparr>pr_closed := True, pr_complete := True\<rparr>)"
    if e: "\<not> pr_descriptor p" "parties p = 0"
  proof -
    have "starting p = {}" "leaving p = {}" using e(2) by (simp_all add: starting_def leaving_def)
    then show ?thesis using assms e unfolding opened_inv_def by (auto split: if_splits)
  qed
  ultimately show ?thesis using opened_request [OF c] by (simp add: Let_def)
qed


section \<open>Reachable states\<close>

lemma initialized_step:
  assumes "proto_step p p'" and "pr_initialized p"
  shows "pr_initialized p'"
proof -
  have up: "pr_initialized q \<Longrightarrow> pr_initialized (p_worker_up ok q)" "pr_initialized q \<Longrightarrow> pr_initialized (p_request q)"
    "pr_initialized q \<Longrightarrow> pr_initialized (p_worker_down q)" for ok q
    by (simp_all add: p_worker_up_def p_request_def post_app_def p_worker_down_def p_finish_def Let_def)
  then have stop: "pr_initialized q \<Longrightarrow> pr_initialized (p_stop_worker w q)" for w q
    by (simp add: p_stop_worker_def set_holds_def post_app_def Let_def)
  have "pr_initialized (p_fail_open q)" for q by (simp add: p_fail_open_def up)
  moreover have "pr_initialized q \<Longrightarrow> pr_initialized (p_begin q)" for q
    by (simp add: p_begin_def p_finish_def post_each_def stop Let_def)
  ultimately show ?thesis
    using assms up stop
    by (auto elim!: proto_step.cases proto_deliver.cases proto_signal.cases
        simp: set_holds_def post_each_def fresh_parties_def Let_def)
qed

lemma opened_app_head:
  assumes "opened_inv p" and "pr_app_box p = m # ms"
  shows "m = Msg_begin_shutdown \<or> m = Msg_finish_shutdown"
  using assms by (cases "acks p") (auto simp: opened_inv_def split: if_splits)

lemma unopened_step:
  assumes "proto_step proto_start p'"
  shows "opened_inv p'"
proof -
  have "proto_deliver proto_start p'"
    using assms by (cases rule: proto_step.cases) (auto elim: proto_signal.cases simp: proto_start_def)
  then show ?thesis
  proof (cases rule: proto_deliver.cases)
    case (open_failed ms)
    then show ?thesis using opened_open_failed by (simp add: proto_start_def)
  next
    case (open_partly ms n)
    then show ?thesis using opened_open_partly [of n] by (simp add: proto_start_def)
  next
    case (opened ms n ok h)
    then show ?thesis using opened_opened [of n ok h] by (simp add: proto_start_def)
  qed (simp_all add: proto_start_def)
qed

lemma opened_deliver:
  assumes "opened_inv p" and "proto_deliver p p'"
  shows "opened_inv p'"
  using assms(2)
proof (cases rule: proto_deliver.cases)
qed (use opened_app_head [OF assms(1)] opened_initialize [OF assms(1)] opened_begin [OF assms(1)]
    opened_stop_worker [OF assms(1)] opened_acknowledged [OF assms(1)] in auto)

lemma opened_step:
  assumes "opened_inv p" and "proto_step p p'"
  shows "opened_inv p'"
  using assms(2)
proof (cases rule: proto_step.cases)
  case delivered
  then show ?thesis using opened_deliver [OF assms(1)] by blast
next
  case signalled
  then show ?thesis
    using opened_request [OF assms(1)] opened_closing [OF assms(1)] by (cases rule: proto_signal.cases) simp_all
qed

lemma proto_reachable_inv: "proto_reachable p \<Longrightarrow> proto_inv p"
proof (induction rule: proto_reachable.induct)
  case proto_init
  then show ?case by (simp add: proto_inv_def unopened_def)
next
  case (proto_next p p')
  then show ?case using unopened_step opened_step by (auto simp: proto_inv_def unopened_def)
qed

text \<open>
  Progress: a context that is neither opened nor shut down has a message under way. The work
  left to do is bounded, and every delivery of such a message takes some away.
\<close>

fun message_work :: "spdk_message \<Rightarrow> nat" where
  "message_work (Msg_shutdown_worker _) = 2"
| "message_work _ = 1"

definition box_work :: "spdk_message list \<Rightarrow> nat" where
  "box_work ms = sum_list (map message_work ms)"

definition shutdown_work :: "protocol \<Rightarrow> nat" where
  "shutdown_work p = (if pr_started p then 0 else 2 * parties p) +
     (\<Sum>w<parties p. box_work (pr_box p w)) + length (pr_app_box p)"

lemma box_work_simps [simp]: "box_work [] = 0" "box_work (m # ms) = message_work m + box_work ms"
  "box_work (ms @ ns) = box_work ms + box_work ns"
  by (simp_all add: box_work_def)

lemma work_pop:
  fixes f :: "nat \<Rightarrow> spdk_message list"
  assumes "w < n" and "f w = m # ms"
  shows "(\<Sum>v<n. box_work ((f(w := ms)) v)) + message_work m = (\<Sum>v<n. box_work (f v))"
proof -
  have "(\<Sum>v<n. box_work ((f(w := ms)) v)) = box_work ms + (\<Sum>v\<in>{..<n} - {w}. box_work (f v))"
    using assms(1) by (subst sum.remove [of _ w]) (auto intro!: sum.cong)
  moreover have "(\<Sum>v<n. box_work (f v)) = box_work (m # ms) + (\<Sum>v\<in>{..<n} - {w}. box_work (f v))"
    using assms by (subst sum.remove [of _ w]) simp_all
  ultimately show ?thesis by simp
qed

lemma work_frame [simp]:
  "shutdown_work (p\<lparr>pr_initializing := k\<rparr>) = shutdown_work p" "shutdown_work (p\<lparr>pr_initialized := b\<rparr>) = shutdown_work p"
  "shutdown_work (p\<lparr>pr_succeeded := b\<rparr>) = shutdown_work p" "shutdown_work (p\<lparr>pr_stopping := k\<rparr>) = shutdown_work p"
  "shutdown_work (p\<lparr>pr_complete := b\<rparr>) = shutdown_work p" "shutdown_work (p\<lparr>pr_descriptor := b\<rparr>) = shutdown_work p"
  "shutdown_work (p\<lparr>pr_closed := b\<rparr>) = shutdown_work p" "shutdown_work (set_holds w h p) = shutdown_work p"
  by (simp_all add: shutdown_work_def set_holds_def)

lemma work_down [simp]: "shutdown_work (p_worker_down p) = shutdown_work p"
  by (simp add: p_worker_down_def p_finish_def Let_def)

lemma work_requested [simp]: "pr_requested p \<Longrightarrow> p_request p = p"
  by (simp add: p_request_def)

lemma work_up:
  assumes "pr_requested p"
  shows "shutdown_work (p_worker_up ok p) = shutdown_work p" and "pr_requested (p_worker_up ok p)"
  using assms by (simp_all add: p_worker_up_def Let_def)

lemma work_begin:
  assumes "\<not> pr_started p" and "0 < parties p \<Longrightarrow> \<not> pr_owns p ! 0"
  shows "shutdown_work (p_begin p) \<le> shutdown_work p"
proof (cases "parties p = 0")
  case True
  then show ?thesis using assms by (simp add: p_begin_def p_finish_def Let_def shutdown_work_def)
next
  case False
  let ?n = "parties p"
  let ?f = "\<lambda>w. if w \<in> set [1..<?n] then pr_box p w @ [Msg_shutdown_worker w] else pr_box p w"
  have "(\<Sum>w<?n. box_work (?f w)) \<le> (\<Sum>w<?n. box_work (pr_box p w) + 2)"
    by (rule sum_mono) simp
  also have "\<dots> = (\<Sum>w<?n. box_work (pr_box p w)) + 2 * ?n" by (simp only: sum.distrib) simp
  finally have le: "(\<Sum>w<?n. box_work (?f w)) \<le> (\<Sum>w<?n. box_work (pr_box p w)) + 2 * ?n" .
  define q where "q = post_each Msg_shutdown_worker [1..<?n] (p\<lparr>pr_started := True, pr_stopping := ?n\<rparr>)"
  have q: "pr_box q = ?f" "pr_started q" "parties q = ?n" "pr_app_box q = pr_app_box p"
    by (simp_all only: q_def post_each_def protocol.simps) (simp_all add: fun_eq_iff)
  have "shutdown_work (p_begin p) = shutdown_work (set_holds 0 False q)"
    using assms False by (simp add: p_begin_def p_stop_worker_def Let_def q_def post_each_def)
  also have "\<dots> = (\<Sum>w<?n. box_work (?f w)) + length (pr_app_box p)"
    by (simp only: work_frame) (simp only: shutdown_work_def q if_True add_0)
  also have "\<dots> \<le> shutdown_work p" using le assms(1) by (simp add: shutdown_work_def)
  finally show ?thesis .
qed

lemma deliver_work:
  assumes inv: "opened_inv p" and req: "pr_requested p" and d: "proto_deliver p p'"
  shows "shutdown_work p' < shutdown_work p" and "pr_requested p'"
proof -
  have pop: "shutdown_work (p\<lparr>pr_box := (pr_box p)(w := ms)\<rparr>) + message_work m = shutdown_work p"
    if "w < parties p" "pr_box p w = m # ms" for w m ms
    using work_pop [of w "parties p" "pr_box p" m ms] that by (simp add: shutdown_work_def del: fun_upd_apply)
  have app: "Suc (shutdown_work (p\<lparr>pr_app_box := ms\<rparr>)) = shutdown_work p" if "pr_app_box p = m # ms" for m ms
    using that by (simp add: shutdown_work_def)
  have post: "shutdown_work (post_app m q) = Suc (shutdown_work q)" for m q
    by (simp add: shutdown_work_def post_app_def)
  have ok: "box_ok p w" for w using inv boxes_okD by (simp add: opened_inv_def)
  have "shutdown_work p' < shutdown_work p \<and> pr_requested p'"
    using d
  proof (cases rule: proto_deliver.cases)
    case (initialize w ms b h)
    let ?q = "set_holds w h (p\<lparr>pr_box := (pr_box p)(w := ms)\<rparr>)"
    have "pr_requested ?q" using req by (simp add: set_holds_def)
    note up = work_up [OF this, of b]
    have "w < parties p" using box_initialize [OF ok initialize(2)] by simp
    note pop [OF this initialize(2)]
    then show ?thesis using up unfolding initialize(1) by simp
  next
    case (begin_shutdown ms)
    let ?q = "p\<lparr>pr_app_box := ms\<rparr>"
    have st: "\<not> pr_started ?q" using inv begin_shutdown(2) by (cases "acks p") (auto simp: opened_inv_def)
    moreover have "\<not> pr_owns ?q ! 0" if "0 < parties ?q" using inv that by (simp add: opened_inv_def)
    ultimately have "shutdown_work (p_begin ?q) \<le> shutdown_work ?q" by (rule work_begin)
    moreover have "pr_requested (p_begin ?q)"
      using req st by (simp add: p_begin_def p_finish_def p_stop_worker_def post_app_def set_holds_def
          post_each_def p_worker_down_def Let_def)
    ultimately show ?thesis using app [OF begin_shutdown(2)] begin_shutdown(1) by simp
  next
    case (stop_worker w ms)
    note b = box_shutdown [OF ok stop_worker(2)]
    have "pr_owns p ! w" using inv b(2,3) by (simp add: opened_inv_def)
    then have "p' = post_app Msg_finish_shutdown (set_holds w False (p\<lparr>pr_box := (pr_box p)(w := ms)\<rparr>))"
      using stop_worker(1) by (simp add: p_stop_worker_def)
    moreover note pop [OF b(3) stop_worker(2)]
    ultimately show ?thesis using req by (simp add: post) (simp add: post_app_def set_holds_def)
  next
    case (acknowledged ms)
    have "pr_requested (p_worker_down (p\<lparr>pr_app_box := ms\<rparr>))"
      using req by (simp add: p_worker_down_def p_finish_def Let_def)
    then show ?thesis using app [OF acknowledged(2)] acknowledged(1) by simp
  qed (use opened_app_head [OF inv] in auto)
  then show "shutdown_work p' < shutdown_work p" "pr_requested p'" by simp_all
qed

lemma signal_work:
  assumes "pr_requested p" and "proto_signal p p'"
  shows "shutdown_work p' = shutdown_work p" and "pr_requested p'"
  using assms by (auto elim!: proto_signal.cases simp: Let_def)

lemma opened_waiting:
  assumes "opened_inv p" and "\<not> pr_initialized p"
  shows "\<exists>w<parties p. Msg_initialize_worker w \<in> set (pr_box p w)"
proof -
  have "card (starting p) \<noteq> 0" using assms by (auto simp: opened_inv_def)
  then have "starting p \<noteq> {}" by auto
  then show ?thesis by (auto simp: starting_def)
qed

lemma opened_stopping_waits:
  assumes "opened_inv p" and "pr_requested p" and "\<not> pr_complete p"
  shows "pr_app_box p \<noteq> [] \<or> (\<exists>w<parties p. Msg_shutdown_worker w \<in> set (pr_box p w))"
proof (cases "pr_started p")
  case True
  then have "card (leaving p) + acks p \<noteq> 0" and app: "pr_app_box p = replicate (acks p) Msg_finish_shutdown"
    using assms unfolding opened_inv_def by auto
  then have "leaving p \<noteq> {} \<or> acks p \<noteq> 0" by auto
  then show ?thesis using app by (auto simp: leaving_def)
next
  case False
  then show ?thesis using assms by (simp add: opened_inv_def)
qed

text \<open>At most three messages a worker, and the one that begins, are delivered before it is over.\<close>

lemma boxes_work:
  assumes "opened_inv p"
  shows "(\<Sum>w<parties p. box_work (pr_box p w)) = card (starting p) + 2 * card (leaving p)"
proof -
  have box: "box_work (pr_box p w) = (if w \<in> starting p then 1 else 0) + 2 * (if w \<in> leaving p then 1 else 0)"
    if "w < parties p" for w
    using boxes_okD [of p w] assms that
    by (auto simp: opened_inv_def box_ok_def starting_def leaving_def split: if_splits)
  have sum: "(\<Sum>w<parties p. if w \<in> A then 1 else 0) = card A" if "A \<subseteq> {..<parties p}" for A :: "nat set"
    using that by (simp add: sum.If_cases Int_absorb1)
  have "starting p \<subseteq> {..<parties p}" "leaving p \<subseteq> {..<parties p}" by (auto simp: starting_def leaving_def)
  note cards = sum [OF this(1)] sum [OF this(2)]
  have "(\<Sum>w<parties p. box_work (pr_box p w)) =
      (\<Sum>w<parties p. (if w \<in> starting p then 1 else 0) + 2 * (if w \<in> leaving p then 1 else 0))"
    by (rule sum.cong [OF refl]) (simp only: lessThan_iff box)
  then show ?thesis by (simp only: sum.distrib sum_distrib_left [symmetric] cards)
qed

lemma shutdown_work_bound:
  assumes inv: "opened_inv p"
  shows "shutdown_work p \<le> 3 * parties p + 1"
proof -
  note boxes = boxes_work [OF inv]
  have st: "card (starting p) \<le> parties p"
    using card_mono [of "{..<parties p}" "starting p"] by (auto simp: starting_def)
  show ?thesis
  proof (cases "pr_started p")
    case True
    note o = opened_stopping [OF inv True]
    have "starting p \<subseteq> leaving p" "pr_stopping p \<le> parties p"
      using inv [unfolded opened_started_iff [OF True]] by simp_all
    then have "card (starting p) \<le> card (leaving p)" by (simp add: card_mono)
    moreover have "length (pr_app_box p) = acks p" by (subst o(2)) simp
    ultimately show ?thesis
      using boxes o(1) True \<open>pr_stopping p \<le> parties p\<close> by (simp add: shutdown_work_def)
  next
    case False
    then have "leaving p = {}" "length (pr_app_box p) \<le> 1" using inv by (auto simp: opened_inv_def)
    then show ?thesis using boxes st False by (simp add: shutdown_work_def)
  qed
qed

lemma requested_opened: "proto_inv p \<Longrightarrow> pr_requested p \<Longrightarrow> opened_inv p"
  by (auto simp: proto_inv_def unopened_def proto_start_def)

lemma opened_released:
  assumes "opened_inv p" and "pr_complete p"
  shows "\<not> pr_descriptor p" and "w < parties p \<Longrightarrow> \<not> pr_holds p ! w"
proof -
  show "\<not> pr_descriptor p" using assms by (cases "pr_started p") (simp_all add: opened_inv_def)
  show "\<not> pr_holds p ! w" if w: "w < parties p"
  proof (cases "pr_started p")
    case True
    note i = assms(1) [unfolded opened_started_iff [OF True]]
    have "card (leaving p) = 0" using i assms(2) by linarith
    then have "leaving p = {}" by simp
    then show ?thesis using i w by blast
  next
    case False
    then have "parties p = 0" using assms by (simp add: opened_inv_def)
    then show ?thesis using w by simp
  qed
qed

end
