(* ===== verification/Bdev_Lifecycle_Refinement.thy ===== *)
theory Bdev_Lifecycle_Refinement
  imports Bdev_Lifecycle Lifecycle_Protocol
begin

text \<open>
  The handlers of \<open>Bdev_Lifecycle\<close> implement \<open>Lifecycle_Protocol\<close> when SPDK accepts every message:
  each step of a context is a step of the protocol on what the protocol sees of the context, or
  invisible to it.
\<close>

section \<open>What the protocol sees\<close>

definition holds_resources :: "io_worker \<Rightarrow> bool" where
  "holds_resources wk \<longleftrightarrow> pool_buffers (wk_buffer_pool wk) \<noteq> [] \<or> wk_io_channel wk \<or>
     wk_dma_pool_allocated_bytes wk \<noteq> 0"

fun about :: "nat \<Rightarrow> spdk_message \<Rightarrow> bool" where
  "about w (Msg_initialize_worker v) = (v = w)"
| "about w (Msg_shutdown_worker v) = (v = w)"
| "about w _ = False"

fun for_context :: "spdk_message \<Rightarrow> bool" where
  "for_context Msg_open = True"
| "for_context Msg_begin_shutdown = True"
| "for_context Msg_finish_shutdown = True"
| "for_context _ = False"

lemma not_about_context: "for_context m \<Longrightarrow> \<not> about w m"
  by (cases m) simp_all

definition box_of :: "io_worker list \<Rightarrow> (spdk_thread \<Rightarrow> spdk_message list) \<Rightarrow> nat \<Rightarrow> spdk_message list" where
  "box_of wks q w = (if w < length wks then filter (about w) (q (wk_thread (wks ! w))) else [])"

definition view :: "'d spdk_state \<Rightarrow> protocol" where
  "view s =
     \<lparr>pr_holds = map holds_resources (bc_io_workers s), pr_owns = map wk_owns_thread (bc_io_workers s),
      pr_box = box_of (bc_io_workers s) (st_queue s),
      pr_app_box = filter for_context (st_queue s (the (bc_app_thread s))),
      pr_descriptor = bc_descriptor_open s, pr_initializing = bc_workers_initializing s,
      pr_initialized = bc_initialization_complete s, pr_succeeded = bc_initialization_succeeded s,
      pr_requested = bc_shutdown_requested s, pr_started = bc_shutdown_started s,
      pr_stopping = bc_workers_shutting_down s, pr_complete = bc_shutdown_complete s,
      pr_closed = bc_closed s\<rparr>"

text \<open>Messages wait only where they belong.\<close>

definition routed_message :: "'d spdk_state \<Rightarrow> spdk_thread \<Rightarrow> spdk_message \<Rightarrow> bool" where
  "routed_message s t m \<longleftrightarrow>
     (for_context m \<longrightarrow> bc_app_thread s = Some t) \<and>
     (\<forall>w. about w m \<longrightarrow> w < length (bc_io_workers s) \<and> wk_thread (wkr s w) = t)"

definition life_ok :: "'d spdk_state \<Rightarrow> bool" where
  "life_ok s \<longleftrightarrow> (\<exists>rt. bc_runtime s = Some rt \<and> runtime_is_available rt \<and>
       rt_app_thread rt = bc_app_thread s) \<and>
     cfg_io_thread_count (bc_config s) \<noteq> 0 \<and>
     (\<forall>t. \<forall>m\<in>set (st_queue s t). routed_message s t m)"

definition reliable :: "'d life_env \<Rightarrow> bool" where
  "reliable env \<longleftrightarrow> (\<forall>t d. fst (se_send_msg (le_io env) t d) = 0)"

named_theorems life_views

lemma view_frame [life_views]:
  "view (s\<lparr>st_world := d\<rparr>) = view s" "view (s\<lparr>bc_last_error := e\<rparr>) = view s"
  "view (s\<lparr>bc_shutdown_return_code := i\<rparr>) = view s" "view (s\<lparr>bc_geometry := g\<rparr>) = view s"
  "view (upd_metrics f s) = view s" "view (outside h s) = view s"
  by (simp_all add: view_def outside_def upd_metrics_def)

lemma view_flags [life_views]:
  "view (s\<lparr>bc_shutdown_requested := b\<rparr>) = (view s)\<lparr>pr_requested := b\<rparr>"
  "view (s\<lparr>bc_shutdown_started := b\<rparr>) = (view s)\<lparr>pr_started := b\<rparr>"
  "view (s\<lparr>bc_shutdown_complete := b\<rparr>) = (view s)\<lparr>pr_complete := b\<rparr>"
  "view (s\<lparr>bc_descriptor_open := b\<rparr>) = (view s)\<lparr>pr_descriptor := b\<rparr>"
  "view (s\<lparr>bc_closed := b\<rparr>) = (view s)\<lparr>pr_closed := b\<rparr>"
  "view (s\<lparr>bc_initialization_complete := b\<rparr>) = (view s)\<lparr>pr_initialized := b\<rparr>"
  "view (s\<lparr>bc_initialization_succeeded := b\<rparr>) = (view s)\<lparr>pr_succeeded := b\<rparr>"
  "view (s\<lparr>bc_workers_initializing := k\<rparr>) = (view s)\<lparr>pr_initializing := k\<rparr>"
  "view (s\<lparr>bc_workers_shutting_down := k\<rparr>) = (view s)\<lparr>pr_stopping := k\<rparr>"
  by (simp_all add: view_def)

lemma view_fields [simp]:
  "pr_requested (view s) = bc_shutdown_requested s" "pr_started (view s) = bc_shutdown_started s"
  "pr_complete (view s) = bc_shutdown_complete s" "pr_descriptor (view s) = bc_descriptor_open s"
  "pr_closed (view s) = bc_closed s" "pr_initialized (view s) = bc_initialization_complete s"
  "pr_succeeded (view s) = bc_initialization_succeeded s"
  "pr_initializing (view s) = bc_workers_initializing s"
  "pr_stopping (view s) = bc_workers_shutting_down s" "parties (view s) = length (bc_io_workers s)"
  "pr_owns (view s) = map wk_owns_thread (bc_io_workers s)"
  by (simp_all add: view_def)

text \<open>What the messages are routed by is rarely changed.\<close>

definition route :: "'d spdk_state \<Rightarrow> runtime option \<times> spdk_thread option \<times> u64 \<times> spdk_thread list" where
  "route s = (bc_runtime s, bc_app_thread s, cfg_io_thread_count (bc_config s), map wk_thread (bc_io_workers s))"

lemma route_eq:
  assumes "route s' = route s"
  shows "bc_runtime s' = bc_runtime s" and "bc_app_thread s' = bc_app_thread s"
    and "length (bc_io_workers s') = length (bc_io_workers s)"
    and "w < length (bc_io_workers s) \<Longrightarrow> wk_thread (wkr s' w) = wk_thread (wkr s w)"
    and "cfg_io_thread_count (bc_config s') = cfg_io_thread_count (bc_config s)"
    and "routed_message s' t m = routed_message s t m"
proof -
  have ts: "map wk_thread (bc_io_workers s') = map wk_thread (bc_io_workers s)"
    using assms by (simp add: route_def)
  show "bc_runtime s' = bc_runtime s" "bc_app_thread s' = bc_app_thread s"
    "cfg_io_thread_count (bc_config s') = cfg_io_thread_count (bc_config s)"
    using assms by (simp_all add: route_def)
  show l: "length (bc_io_workers s') = length (bc_io_workers s)"
    using arg_cong [OF ts, of length] by simp
  show th: "wk_thread (wkr s' w) = wk_thread (wkr s w)" if "w < length (bc_io_workers s)" for w
    using arg_cong [OF ts, of "\<lambda>xs. xs ! w"] that l by simp
  show "routed_message s' t m = routed_message s t m"
    using assms l th by (auto simp: routed_message_def route_def)
qed

lemma route_frame [life_views]:
  "route (s\<lparr>st_world := d\<rparr>) = route s" "route (s\<lparr>bc_last_error := e\<rparr>) = route s"
  "route (s\<lparr>bc_shutdown_return_code := i\<rparr>) = route s" "route (s\<lparr>bc_geometry := g\<rparr>) = route s"
  "route (upd_metrics f s) = route s" "route (outside h s) = route s"
  "route (s\<lparr>bc_shutdown_requested := b\<rparr>) = route s" "route (s\<lparr>bc_shutdown_started := b\<rparr>) = route s"
  "route (s\<lparr>bc_shutdown_complete := b\<rparr>) = route s" "route (s\<lparr>bc_descriptor_open := b\<rparr>) = route s"
  "route (s\<lparr>bc_closed := b\<rparr>) = route s" "route (s\<lparr>bc_initialization_complete := b\<rparr>) = route s"
  "route (s\<lparr>bc_initialization_succeeded := b\<rparr>) = route s"
  "route (s\<lparr>bc_workers_initializing := k\<rparr>) = route s"
  "route (s\<lparr>bc_workers_shutting_down := k\<rparr>) = route s" "route (s\<lparr>st_queue := q\<rparr>) = route s"
  by (simp_all add: route_def outside_def upd_metrics_def)

lemma route_upd_worker [life_views]:
  "(\<And>wk. wk_thread (f wk) = wk_thread wk) \<Longrightarrow> route (upd_worker w f s) = route s"
  by (simp add: route_def upd_worker_def map_update)

lemma life_okI:
  assumes "life_ok s" and "route s' = route s"
    and "\<And>t m. m \<in> set (st_queue s' t) \<Longrightarrow> m \<in> set (st_queue s t) \<or> routed_message s t m"
  shows "life_ok s'"
proof -
  have "routed_message s' t m" if "m \<in> set (st_queue s' t)" for t m
  proof -
    have "routed_message s t m" using assms(1,3) that unfolding life_ok_def by blast
    then show ?thesis using route_eq(6) [OF assms(2)] by simp
  qed
  moreover have "\<exists>rt. bc_runtime s' = Some rt \<and> runtime_is_available rt \<and> rt_app_thread rt = bc_app_thread s'"
    "cfg_io_thread_count (bc_config s') \<noteq> 0"
    using assms(1) route_eq(1,2,5) [OF assms(2)] unfolding life_ok_def by simp_all
  ultimately show ?thesis unfolding life_ok_def by blast
qed

lemma life_ok_app:
  assumes "life_ok s"
  obtains rt a where "bc_runtime s = Some rt" and "runtime_is_available rt" and "bc_app_thread s = Some a"
proof -
  obtain rt where rt: "bc_runtime s = Some rt" "runtime_is_available rt" "rt_app_thread rt = bc_app_thread s"
    using assms by (auto simp: life_ok_def)
  then obtain a where "bc_app_thread s = Some a" by (auto simp: runtime_is_available_def)
  then show thesis using that rt by blast
qed

section \<open>Messages\<close>

definition posted :: "spdk_thread \<Rightarrow> spdk_message \<Rightarrow> 'd spdk_state \<Rightarrow> 'd spdk_state" where
  "posted t m s = s\<lparr>st_queue := (st_queue s)(t := st_queue s t @ [m])\<rparr>"

lemma send_reliable:
  assumes "reliable env"
  obtains d where "thread_send_msg (le_io env) t m s = (0, posted t m (s\<lparr>st_world := d\<rparr>))"
proof -
  obtain c d where "se_send_msg (le_io env) t (st_world s) = (c, d)" by fastforce
  moreover from this have "c = 0" using assms unfolding reliable_def by (metis fst_conv)
  ultimately show ?thesis by (intro that [of d]) (simp add: thread_send_msg_def posted_def)
qed

lemma view_posted_context:
  assumes "for_context m" and "bc_app_thread s = Some a"
  shows "view (posted a m s) = post_app m (view s)"
  using assms not_about_context [OF assms(1)] by (auto simp: view_def post_app_def posted_def fun_eq_iff box_of_def)

lemma view_posted_worker:
  assumes "about w m" and "w < length (bc_io_workers s)" and "wk_thread (wkr s w) = t"
  shows "view (posted t m s) = (view s)\<lparr>pr_box := (pr_box (view s))(w := pr_box (view s) w @ [m])\<rparr>"
proof -
  have "\<not> for_context m" using assms(1) not_about_context by blast
  moreover have "about v m \<longleftrightarrow> v = w" for v using assms(1) by (cases m) auto
  ultimately show ?thesis using assms by (auto simp: view_def posted_def fun_eq_iff box_of_def)
qed

lemma route_posted [life_views]: "route (posted t m s) = route s"
  by (simp add: posted_def life_views)

lemma life_ok_posted:
  assumes "life_ok s" and "routed_message s t m"
  shows "life_ok (posted t m s)"
  by (rule life_okI [OF assms(1) route_posted]) (use assms(2) in \<open>auto simp: posted_def split: if_splits\<close>)

lemma view_world: "view (posted t m (s\<lparr>st_world := d\<rparr>)) = view (posted t m s)"
  by (simp add: view_def posted_def)

section \<open>Shutdown\<close>

definition refines_to :: "'d spdk_state \<Rightarrow> 'd spdk_state \<Rightarrow> (protocol \<Rightarrow> protocol) \<Rightarrow> bool" where
  "refines_to s s' f \<longleftrightarrow> life_ok s' \<and> route s' = route s \<and> view s' = f (view s)"

lemma refines_frame:
  assumes "life_ok s" and "route s' = route s" and "st_queue s' = st_queue s" and "view s' = f (view s)"
  shows "refines_to s s' f"
  unfolding refines_to_def using assms life_okI [OF assms(1,2)] by simp

lemma refines_trans:
  "refines_to s s' f \<Longrightarrow> refines_to s' s'' g \<Longrightarrow> refines_to s s'' (\<lambda>p. g (f p))"
  by (simp add: refines_to_def)

lemma request_shutdown_refines:
  assumes env: "reliable env" and ok: "life_ok s"
  shows "refines_to s (request_shutdown env rc e s) p_request"
proof -
  obtain rt a where rt: "bc_runtime s = Some rt" "runtime_is_available rt" "bc_app_thread s = Some a"
    using life_ok_app [OF ok] .
  define s1 where "s1 = (if e \<noteq> [] then s\<lparr>bc_last_error := e\<rparr> else s)"
  define s2 where "s2 = (if rc \<noteq> 0 \<and> bc_shutdown_return_code s1 = 0 then s1\<lparr>bc_shutdown_return_code := rc\<rparr> else s1)"
  have s2: "bc_runtime s2 = Some rt" "bc_app_thread s2 = Some a" "bc_shutdown_requested s2 = bc_shutdown_requested s"
    "view s2 = view s" "route s2 = route s" "st_queue s2 = st_queue s"
    using rt by (simp_all add: s2_def s1_def life_views)
  then have ok2: "life_ok s2" by (intro life_okI [OF ok]) simp_all
  note shape = request_shutdown_def [of env rc e s, unfolded Let_def, folded s1_def, folded s2_def]
  show ?thesis
  proof (cases "bc_shutdown_requested s")
    case True
    then have "request_shutdown env rc e s = s2" using s2 rt by (simp add: shape)
    then show ?thesis using s2 ok2 True unfolding refines_to_def by (simp add: p_request_def)
  next
    case False
    let ?s3 = "s2\<lparr>bc_shutdown_requested := True\<rparr>"
    obtain d where d: "thread_send_msg (le_io env) a Msg_begin_shutdown ?s3 =
        (0, posted a Msg_begin_shutdown (?s3\<lparr>st_world := d\<rparr>))"
      by (rule send_reliable [OF env])
    have "runtime_post env (Some a) Msg_begin_shutdown rt ?s3 =
        (Inr (), posted a Msg_begin_shutdown (?s3\<lparr>st_world := d\<rparr>))"
      using rt(2) by (simp add: runtime_post_def d runtime_send_message_def)
    then have eq: "request_shutdown env rc e s = posted a Msg_begin_shutdown (?s3\<lparr>st_world := d\<rparr>)"
      using s2(1-3) False rt(2) unfolding shape by simp
    let ?s4 = "?s3\<lparr>st_world := d\<rparr>"
    have r4: "route ?s4 = route s" "st_queue ?s4 = st_queue s" "bc_app_thread ?s4 = Some a"
      "view ?s4 = (view s)\<lparr>pr_requested := True\<rparr>"
      using s2 by (simp_all add: life_views)
    have ok4: "life_ok ?s4" using r4 by (intro life_okI [OF ok]) simp_all
    have "life_ok (posted a Msg_begin_shutdown ?s4)"
      using r4(3) by (intro life_ok_posted [OF ok4]) (simp add: routed_message_def)
    moreover have "view (posted a Msg_begin_shutdown ?s4) = p_request (view s)"
      using view_posted_context [of Msg_begin_shutdown ?s4 a] r4(3,4) False by (simp add: p_request_def)
    ultimately show ?thesis
      unfolding eq refines_to_def using r4(1) route_posted [of a Msg_begin_shutdown ?s4] by simp
  qed
qed


lemma life_frame:
  assumes c: "context_key s' = context_key s" and k: "worker_keys s' = worker_keys s"
    and b: "map pool_buffers (pool_col s') = map pool_buffers (pool_col s)"
    and q: "\<And>t. filter (Not \<circ> is_io_message) (st_queue s' t) = filter (Not \<circ> is_io_message) (st_queue s t)"
  shows "view s' = view s" and "route s' = route s" and "life_ok s \<Longrightarrow> life_ok s'"
proof -
  have l: "length (bc_io_workers s') = length (bc_io_workers s)"
    using arg_cong [OF k, of length] by simp
  have key: "worker_key (wkr s' w) = worker_key (wkr s w)" if "w < length (bc_io_workers s)" for w
    using arg_cong [OF k, of "\<lambda>xs. xs ! w"] that l by (simp add: column_nth)
  have wk: "wk_thread (wkr s' w) = wk_thread (wkr s w)" "wk_owns_thread (wkr s' w) = wk_owns_thread (wkr s w)"
    "holds_resources (wkr s' w) = holds_resources (wkr s w)" if w: "w < length (bc_io_workers s)" for w
  proof -
    show "wk_thread (wkr s' w) = wk_thread (wkr s w)" "wk_owns_thread (wkr s' w) = wk_owns_thread (wkr s w)"
      using key [OF w] by (simp_all add: worker_key_def)
    have "pool_buffers (wk_buffer_pool (wkr s' w)) = pool_buffers (wk_buffer_pool (wkr s w))"
      using arg_cong [OF b, of "\<lambda>xs. xs ! w"] w l by (simp add: column_nth)
    then show "holds_resources (wkr s' w) = holds_resources (wkr s w)"
      using key [OF w] by (simp add: holds_resources_def worker_key_def)
  qed
  have maps: "map wk_thread (bc_io_workers s') = map wk_thread (bc_io_workers s)"
    "map wk_owns_thread (bc_io_workers s') = map wk_owns_thread (bc_io_workers s)"
    "map holds_resources (bc_io_workers s') = map holds_resources (bc_io_workers s)"
    using l wk by (simp_all add: list_eq_iff_nth_eq)
  show r: "route s' = route s" using c maps(1) by (simp add: route_def context_key_def)
  have about_io: "filter (about w) ms = filter (about w) (filter (Not \<circ> is_io_message) ms)" for w ms
    unfolding filter_filter by (rule filter_cong [OF refl]) (auto simp: is_io_message_def split: spdk_message.split)
  have ctx_io: "filter for_context ms = filter for_context (filter (Not \<circ> is_io_message) ms)" for ms
    unfolding filter_filter by (rule filter_cong [OF refl]) (auto simp: is_io_message_def split: spdk_message.split)
  have "filter (about w) (st_queue s' t) = filter (about w) (st_queue s t)" for w t
    by (subst (1 2) about_io) (simp only: q)
  then have "box_of (bc_io_workers s') (st_queue s') = box_of (bc_io_workers s) (st_queue s)"
    using l wk(1) by (simp add: box_of_def fun_eq_iff)
  moreover have "filter for_context (st_queue s' t) = filter for_context (st_queue s t)" for t
    by (subst (1 2) ctx_io) (simp only: q)
  ultimately show "view s' = view s" using c maps by (simp add: view_def context_key_def)
  assume ok: "life_ok s"
  have "routed_message s t m" if "m \<in> set (st_queue s' t)" "m \<notin> set (st_queue s t)" for t m
  proof -
    have "is_io_message m"
    proof (rule ccontr)
      assume "\<not> is_io_message m"
      then have "m \<in> set (filter (Not \<circ> is_io_message) (st_queue s' t))" using that by simp
      then show False using that unfolding q by simp
    qed
    then show ?thesis by (cases m) (simp_all add: routed_message_def is_io_message_def)
  qed
  then show "life_ok s'" using life_okI [OF ok r] by blast
qed

lemma view_upd_worker:
  assumes "\<And>wk. wk_thread (f wk) = wk_thread wk" and "\<And>wk. wk_owns_thread (f wk) = wk_owns_thread wk"
    and "w < length (bc_io_workers s)"
  shows "view (upd_worker w f s) = set_holds w (holds_resources (f (wkr s w))) (view s)"
proof -
  have th: "wk_thread ((bc_io_workers s)[w := f (wkr s w)] ! v) = wk_thread (wkr s v)" for v
    using assms(1,3) by (cases "v = w") simp_all
  have "box_of ((bc_io_workers s)[w := f (wkr s w)]) q = box_of (bc_io_workers s) q" for q
    by (simp add: box_of_def fun_eq_iff th)
  moreover have "(map wk_owns_thread (bc_io_workers s))[w := wk_owns_thread (wkr s w)] =
      map wk_owns_thread (bc_io_workers s)" by (rule map_update_same)
  ultimately show ?thesis
    using assms(2) by (simp add: view_def upd_worker_def set_holds_def map_update)
qed

lemma finish_shutdown_refines:
  assumes "life_ok s"
  shows "refines_to s (finish_shutdown_on_app_thread env s) p_finish"
proof (rule refines_frame [OF assms])
  let ?d = "release_descriptor_on_app_thread env s"
  have d: "route ?d = route s" "st_queue ?d = st_queue s" "view ?d = (view s)\<lparr>pr_descriptor := False\<rparr>"
    by (simp_all add: release_descriptor_on_app_thread_def life_views) (simp_all add: outside_def view_def)
  show "route (finish_shutdown_on_app_thread env s) = route s"
    "st_queue (finish_shutdown_on_app_thread env s) = st_queue s"
    "view (finish_shutdown_on_app_thread env s) = p_finish (view s)"
    using d by (simp_all add: finish_shutdown_on_app_thread_def life_views p_finish_def)
      (simp add: upd_metrics_def)
qed

lemma worker_shutdown_refines:
  assumes "life_ok s"
  shows "refines_to s (on_io_worker_shutdown env s) p_worker_down"
proof -
  define s1 where "s1 = s\<lparr>bc_workers_shutting_down := bc_workers_shutting_down s - 1\<rparr>"
  have 1: "refines_to s s1 (\<lambda>p. p\<lparr>pr_stopping := pr_stopping p - 1\<rparr>)"
    unfolding s1_def by (rule refines_frame [OF assms]) (simp_all add: life_views)
  then have 2: "refines_to s1 (finish_shutdown_on_app_thread env s1) p_finish"
    by (intro finish_shutdown_refines) (simp add: refines_to_def)
  have "bc_workers_shutting_down s1 = bc_workers_shutting_down s - 1" by (simp add: s1_def)
  then show ?thesis
    using 1 2 unfolding on_io_worker_shutdown_def Let_def s1_def [symmetric]
    by (simp add: p_worker_down_def Let_def refines_to_def)
qed

lemma release_worker_pool_shape:
  assumes "w < length (bc_io_workers s)"
  obtains f d g where "release_worker_pool env w s = upd_metrics f (upd_worker w g (s\<lparr>st_world := d\<rparr>))"
    and "\<And>wk. wk_thread (g wk) = wk_thread wk" and "\<And>wk. wk_owns_thread (g wk) = wk_owns_thread wk"
    and "\<And>wk. wk_io_channel (g wk) = wk_io_channel wk" and "wk_buffer_pool (g (wkr s w)) = empty_pool"
    and "wk_dma_pool_allocated_bytes (g (wkr s w)) = 0"
proof -
  let ?wk = "wkr s w"
  obtain d where d: "pool_release_all (le_dma_free env) (wk_buffer_pool ?wk) (st_world s) = (empty_pool, d)"
    by (simp add: pool_release_all_def)
  show thesis
  proof (cases "wk_dma_pool_allocated_bytes ?wk = 0")
    case True
    then have "release_worker_pool env w s =
        upd_metrics id (upd_worker w (wk_buffer_pool_update (\<lambda>_. empty_pool)) (s\<lparr>st_world := d\<rparr>))"
      using assms by (simp add: release_worker_pool_def d Let_def upd_worker_def upd_metrics_def)
    then show thesis by (rule that) (simp_all add: True)
  next
    case False
    then have "release_worker_pool env w s = upd_metrics
        (\<lambda>m. m\<lparr>m_dma_buffer_pool_allocated_bytes :=
           m_dma_buffer_pool_allocated_bytes m - wk_dma_pool_allocated_bytes ?wk\<rparr>)
        (upd_worker w (\<lambda>wk. wk\<lparr>wk_buffer_pool := empty_pool, wk_dma_pool_allocated_bytes := 0\<rparr>)
          (s\<lparr>st_world := d\<rparr>))"
      using assms by (simp add: release_worker_pool_def d Let_def upd_worker_def upd_metrics_def)
    then show thesis by (rule that) simp_all
  qed
qed

lemma fail_parked_frame:
  "context_key (fail_parked w rs s) = context_key s \<and> worker_keys (fail_parked w rs s) = worker_keys s \<and>
   pool_col (fail_parked w rs s) = pool_col s \<and> st_queue (fail_parked w rs s) = st_queue s"
  by (induction rs arbitrary: s) (simp_all add: io_views)

text \<open>Releasing what worker \<open>w\<close> holds, in the first half of \<open>shutdown_io_worker\<close>.\<close>

lemma release_worker_refines:
  fixes env :: "'d life_env" and rs and s :: "'d spdk_state"
  assumes ok: "life_ok s" and w: "w < length (bc_io_workers s)"
  defines "s' \<equiv> put_worker_channel env w (release_worker_pool env w (fail_parked w rs s))"
  shows "refines_to s s' (set_holds w False)" and "wk_owns_thread (wkr s' w) = wk_owns_thread (wkr s w)"
proof -
  let ?s1 = "fail_parked w rs s"
  note f = fail_parked_frame [of w rs s]
  have v1: "view ?s1 = view s" "route ?s1 = route s" "life_ok ?s1"
    using f life_frame [of ?s1 s] ok by simp_all
  have w1: "w < length (bc_io_workers ?s1)" using route_eq(3) [OF v1(2)] w by simp
  have o1: "wk_owns_thread (wkr ?s1 w) = wk_owns_thread (wkr s w)"
  proof -
    have "worker_key (wkr ?s1 w) = worker_key (wkr s w)" using f w w1 by (metis column_nth(4))
    then show ?thesis by (simp add: worker_key_def)
  qed
  obtain h d g where s2: "release_worker_pool env w ?s1 = upd_metrics h (upd_worker w g (?s1\<lparr>st_world := d\<rparr>))"
    and g: "\<And>wk. wk_thread (g wk) = wk_thread wk" "\<And>wk. wk_owns_thread (g wk) = wk_owns_thread wk"
      "\<And>wk. wk_io_channel (g wk) = wk_io_channel wk" "wk_buffer_pool (g (wkr ?s1 w)) = empty_pool"
      "wk_dma_pool_allocated_bytes (g (wkr ?s1 w)) = 0"
    by (rule release_worker_pool_shape [OF w1, of env]) (rule that)
  let ?s2 = "upd_metrics h (upd_worker w g (?s1\<lparr>st_world := d\<rparr>))"
  have v2: "view ?s2 = set_holds w (wk_io_channel (wkr ?s1 w)) (view s)" "route ?s2 = route s"
    "st_queue ?s2 = st_queue s"
    using view_upd_worker [of g w "?s1\<lparr>st_world := d\<rparr>"] w1 v1 f g
    by (simp_all add: life_views io_views holds_resources_def empty_pool_def)
  have w2: "w < length (bc_io_workers ?s2)" "wkr ?s2 w = g (wkr ?s1 w)"
    using w1 by (simp_all add: upd_metrics_def upd_worker_def)
  show "wk_owns_thread (wkr s' w) = wk_owns_thread (wkr s w)"
    using w2 o1 g unfolding s'_def s2
    by (simp add: put_worker_channel_def outside_def upd_worker_def)
  have "view s' = set_holds w False (view s) \<and> route s' = route s \<and> st_queue s' = st_queue s"
  proof (cases "wk_io_channel (wkr ?s1 w)")
    case False
    then have "s' = ?s2" using w2(2) g unfolding s'_def s2 by (simp add: put_worker_channel_def)
    then show ?thesis using v2 False by simp
  next
    case True
    let ?s3 = "outside (le_put_io_channel env (wk_thread (wkr ?s2 w))) ?s2"
    have "s' = upd_worker w (wk_io_channel_update (\<lambda>_. False)) ?s3"
      using w2(2) True g unfolding s'_def s2 by (simp add: put_worker_channel_def)
    moreover have "wkr ?s3 w = g (wkr ?s1 w)" "w < length (bc_io_workers ?s3)"
      using w2 by (simp_all add: outside_def)
    ultimately show ?thesis
      using view_upd_worker [of "wk_io_channel_update (\<lambda>_. False)" w ?s3] v2 g
      by (simp add: life_views io_views holds_resources_def empty_pool_def set_holds_def outside_def)
  qed
  then show "refines_to s s' (set_holds w False)" by (intro refines_frame [OF ok]) simp_all
qed

lemma shutdown_io_worker_refines:
  assumes env: "reliable env" and ok: "life_ok s" and w: "w < length (bc_io_workers s)"
  shows "refines_to s (shutdown_io_worker env w s) (p_stop_worker w)"
proof -
  let ?s3 = "put_worker_channel env w (release_worker_pool env w (fail_parked w (wk_pending_io (wkr s w)) s))"
  note r3 = release_worker_refines [OF ok w, of env "wk_pending_io (wkr s w)"]
  have ok3: "life_ok ?s3" "route ?s3 = route s" "view ?s3 = set_holds w False (view s)"
    using r3(1) by (simp_all add: refines_to_def)
  obtain a where a: "bc_app_thread s = Some a" using life_ok_app [OF ok] by blast
  then have a3: "bc_app_thread ?s3 = Some a" using route_eq(2) [OF ok3(2)] by simp
  show ?thesis
  proof (cases "wk_owns_thread (wkr s w)")
    case False
    then have "shutdown_io_worker env w s = on_io_worker_shutdown env ?s3"
      using r3(2) by (simp add: shutdown_io_worker_def Let_def)
    then show ?thesis
      using worker_shutdown_refines [OF ok3(1), of env] ok3(2,3) False w
      by (simp add: refines_to_def p_stop_worker_def Let_def)
  next
    case True
    obtain d where d: "thread_send_msg (le_io env) a Msg_finish_shutdown ?s3 =
        (0, posted a Msg_finish_shutdown (?s3\<lparr>st_world := d\<rparr>))" by (rule send_reliable [OF env])
    let ?s4 = "posted a Msg_finish_shutdown (?s3\<lparr>st_world := d\<rparr>)"
    have eq: "shutdown_io_worker env w s = outside (le_thread_exit env (wk_thread (wkr ?s4 w))) ?s4"
      using r3(2) True a3 d by (simp add: shutdown_io_worker_def Let_def acknowledge_shutdown_def)
    have "life_ok ?s4"
      using a3 by (intro life_ok_posted life_okI [OF ok3(1)]) (simp_all add: life_views routed_message_def)
    moreover have "view ?s4 = post_app Msg_finish_shutdown (set_holds w False (view s))"
      using view_posted_context [of Msg_finish_shutdown ?s3 a] a3 ok3(3) by (simp add: view_world)
    moreover have "route ?s4 = route s" using ok3(2) by (simp add: life_views)
    ultimately have "refines_to s ?s4 (p_stop_worker w)"
      using True w by (simp add: refines_to_def p_stop_worker_def Let_def)
    moreover have "life_ok (outside f ?s4)" if "life_ok ?s4" for f
      by (rule life_okI [OF that]) (simp_all add: life_views outside_def)
    ultimately show ?thesis unfolding eq by (simp add: refines_to_def life_views)
  qed
qed


lemma post_each_Nil [simp]: "post_each f [] p = p"
  by (simp add: post_each_def)

lemma post_each_Cons:
  assumes "w \<notin> set ws"
  shows "post_each f (w # ws) p = post_each f ws (p\<lparr>pr_box := (pr_box p)(w := pr_box p w @ [f w])\<rparr>)"
  using assms by (auto simp: post_each_def fun_eq_iff)

text \<open>Both dispatch loops post one message to each worker when SPDK accepts them all.\<close>

lemma post_to_workers:
  assumes env: "reliable env" and ok: "life_ok s" and ws: "distinct ws" "\<forall>w\<in>set ws. w < length (bc_io_workers s)"
    and f: "\<And>w. about w (f w)"
    and loop: "\<And>s :: 'd spdk_state. loop [] s = s"
      "\<And>w ws s s1. thread_send_msg (le_io env) (wk_thread (wkr s w)) (f w) s = (0, s1) \<Longrightarrow>
         loop (w # ws) s = loop ws s1"
  shows "refines_to s (loop ws s) (post_each f ws)"
  using ok ws
proof (induction ws arbitrary: s)
  case Nil
  then show ?case by (simp add: loop refines_to_def)
next
  case (Cons w ws)
  let ?t = "wk_thread (wkr s w)"
  have w: "w < length (bc_io_workers s)" "w \<notin> set ws" using Cons.prems by simp_all
  obtain d where d: "thread_send_msg (le_io env) ?t (f w) s = (0, posted ?t (f w) (s\<lparr>st_world := d\<rparr>))"
    by (rule send_reliable [OF env])
  let ?s1 = "posted ?t (f w) (s\<lparr>st_world := d\<rparr>)"
  have "\<not> for_context (f w)" using f not_about_context by blast
  moreover have "v = w" if "about v (f w)" for v using f [of w] that by (cases "f w") auto
  ultimately have routed: "routed_message (s\<lparr>st_world := d\<rparr>) ?t (f w)"
    using w(1) by (auto simp: routed_message_def)
  have ok1: "life_ok ?s1"
    by (intro life_ok_posted life_okI [OF Cons.prems(1)] routed) (simp_all add: life_views)
  have v1: "view ?s1 = (view s)\<lparr>pr_box := (pr_box (view s))(w := pr_box (view s) w @ [f w])\<rparr>"
    using view_posted_worker [OF f w(1) refl] by (simp add: view_world)
  have r1: "route ?s1 = route s" by (simp add: life_views)
  have "\<forall>w\<in>set ws. w < length (bc_io_workers ?s1)" using Cons.prems(3) route_eq(3) [OF r1] by simp
  then have "refines_to ?s1 (loop ws ?s1) (post_each f ws)"
    using Cons.IH [OF ok1] Cons.prems(2) by simp
  then show ?case
    unfolding loop(2) [OF d] using v1 r1 by (simp add: refines_to_def post_each_Cons [OF w(2)])
qed

lemma begin_shutdown_refines:
  assumes env: "reliable env" and ok: "life_ok s"
  shows "refines_to s (begin_shutdown_on_app_thread env s) p_begin"
proof (cases "bc_shutdown_started s")
  case True
  then show ?thesis using ok by (simp add: begin_shutdown_on_app_thread_def p_begin_def refines_to_def)
next
  case False
  define s1 where "s1 = s\<lparr>bc_shutdown_started := True, bc_workers_shutting_down := length (bc_io_workers s)\<rparr>"
  have r1: "refines_to s s1 (\<lambda>p. p\<lparr>pr_started := True, pr_stopping := parties p\<rparr>)"
    unfolding s1_def by (rule refines_frame [OF ok]) (simp_all add: life_views)
  then have ok1: "life_ok s1" and l1: "length (bc_io_workers s1) = length (bc_io_workers s)"
    using route_eq(3) by (auto simp: refines_to_def)
  show ?thesis
  proof (cases "bc_io_workers s = []")
    case True
    then have "begin_shutdown_on_app_thread env s = finish_shutdown_on_app_thread env s1"
      using False l1 unfolding begin_shutdown_on_app_thread_def Let_def s1_def [symmetric] by simp
    then show ?thesis
      using r1 finish_shutdown_refines [OF ok1, of env] False True
      by (simp add: refines_to_def p_begin_def Let_def)
  next
    case nonempty: False
    let ?s2 = "dispatch_shutdown env [1..<length (bc_io_workers s1)] s1"
    have "refines_to s1 ?s2 (post_each Msg_shutdown_worker [1..<length (bc_io_workers s1)])"
      by (rule post_to_workers [OF env ok1]) (simp_all split: prod.split)
    then have r2: "life_ok ?s2" "route ?s2 = route s1"
      "view ?s2 = post_each Msg_shutdown_worker [1..<length (bc_io_workers s)] (view s1)"
      using l1 by (simp_all add: refines_to_def)
    have "0 < length (bc_io_workers ?s2)" using route_eq(3) [OF r2(2)] l1 nonempty by simp
    from shutdown_io_worker_refines [OF env r2(1) this]
    have "refines_to s (shutdown_io_worker env 0 ?s2) p_begin"
      using r1 r2 False nonempty by (simp add: refines_to_def p_begin_def Let_def)
    moreover have "begin_shutdown_on_app_thread env s = shutdown_io_worker env 0 ?s2"
      using False l1 nonempty unfolding begin_shutdown_on_app_thread_def Let_def s1_def [symmetric] by auto
    ultimately show ?thesis by simp
  qed
qed

section \<open>Initialisation\<close>

lemma worker_initialized_refines:
  assumes env: "reliable env" and ok: "life_ok s"
  shows "\<exists>b. refines_to s (on_io_worker_initialized env e s) (p_worker_up b)"
proof -
  define s1 where "s1 = (if e \<noteq> [] \<and> bc_last_error s = [] then s\<lparr>bc_last_error := e\<rparr> else s)"
  define s2 where "s2 = s1\<lparr>bc_workers_initializing := bc_workers_initializing s1 - 1\<rparr>"
  have v1: "view s1 = view s" "route s1 = route s" "st_queue s1 = st_queue s"
    by (simp_all add: s1_def life_views)
  have i1: "bc_workers_initializing s1 = bc_workers_initializing s" by (simp add: s1_def)
  have v2: "view s2 = (view s)\<lparr>pr_initializing := pr_initializing (view s) - 1\<rparr>" "route s2 = route s"
    "st_queue s2 = st_queue s" "bc_workers_initializing s2 = bc_workers_initializing s - 1"
    using v1 i1 by (simp_all add: s2_def life_views)
  note shape = on_io_worker_initialized_def [of env e s, unfolded Let_def, folded s1_def, folded s2_def]
  show ?thesis
  proof (cases "bc_workers_initializing s2 = 0")
    case False
    then have "refines_to s (on_io_worker_initialized env e s) (p_worker_up True)"
      unfolding shape using v2 by (intro refines_frame [OF ok]) (simp_all add: p_worker_up_def Let_def)
    then show ?thesis ..
  next
    case True
    define b where "b = (bc_last_error s2 = [])"
    define s3 where "s3 = s2\<lparr>bc_initialization_succeeded := b, bc_initialization_complete := True\<rparr>"
    have v3: "view s3 = (view s)\<lparr>pr_initializing := pr_initializing (view s) - 1, pr_initialized := True,
        pr_succeeded := b\<rparr>" "route s3 = route s" "st_queue s3 = st_queue s"
      using v2 by (simp_all add: s3_def life_views)
    then have ok3: "life_ok s3" by (intro life_okI [OF ok]) simp_all
    have eq: "on_io_worker_initialized env e s = (if b then s3 else request_shutdown env (- EINVAL) [] s3)"
      using True unfolding shape by (simp add: s3_def b_def)
    have "refines_to s (on_io_worker_initialized env e s) (p_worker_up b)"
      unfolding eq using v3 v2(4) True ok3 request_shutdown_refines [OF env ok3, of "- EINVAL" "[]"]
      by (cases b) (simp_all add: refines_to_def p_worker_up_def Let_def)
    then show ?thesis ..
  qed
qed

lemma set_holds_twice [simp]: "set_holds w a (set_holds w b p) = set_holds w a p"
  by (simp add: set_holds_def)

lemma set_holds_same:
  "set_holds w (holds_resources (wkr s w)) (view s) = view s"
  by (simp add: set_holds_def view_def)

text \<open>What one worker's handler may change.\<close>

definition worker_only :: "nat \<Rightarrow> 'd spdk_state \<Rightarrow> 'd spdk_state \<Rightarrow> bool" where
  "worker_only w s s' \<longleftrightarrow> (\<exists>h. view s' = set_holds w h (view s)) \<and> route s' = route s \<and>
     st_queue s' = st_queue s"

lemma worker_only_refl: "worker_only w s s"
  unfolding worker_only_def using set_holds_same by metis

lemma worker_only_trans: "worker_only w s s' \<Longrightarrow> worker_only w s' s'' \<Longrightarrow> worker_only w s s''"
  unfolding worker_only_def by auto

lemma worker_only_outside: "worker_only w s (s\<lparr>st_world := d\<rparr>)" "worker_only w s (upd_metrics f s)"
  "worker_only w s (outside h s)"
  using worker_only_refl [of w s] by (simp_all add: worker_only_def life_views) (simp_all add: upd_metrics_def outside_def)

lemma worker_only_upd:
  assumes "\<And>wk. wk_thread (f wk) = wk_thread wk" and "\<And>wk. wk_owns_thread (f wk) = wk_owns_thread wk"
    and "w < length (bc_io_workers s)"
  shows "worker_only w s (upd_worker w f s)"
  using view_upd_worker [OF assms] route_upd_worker [of f w s] assms(1)
  by (auto simp: worker_only_def upd_worker_def)

lemma prepare_worker_only:
  assumes w: "w < length (bc_io_workers s)"
  shows "worker_only w s (snd (prepare_io_worker env cur w s))"
proof -
  define s1 where "s1 = outside (le_thread_bind env (wk_thread (wkr s w))) s"
  obtain ch d where ch: "le_get_io_channel env (wk_thread (wkr s w)) (st_world s1) = (ch, d)" by fastforce
  define s2 where "s2 = upd_worker w (wk_io_channel_update (\<lambda>_. ch)) (s1\<lparr>st_world := d\<rparr>)"
  obtain r p d2 where r: "pool_initialize (le_zmalloc env) (le_dma_free env)
      (io_segment_size (bc_geometry s2)) (buffer_alignment (bc_geometry s2)) (spdk_buffer_count (bc_geometry s2))
      (wk_buffer_pool (wkr s2 w)) (st_world s2) = (r, p, d2)" by (metis prod_cases3)
  define s3 where "s3 = (upd_worker w (wk_buffer_pool_update (\<lambda>_. p)) s2)\<lparr>st_world := d2\<rparr>"
  have l1: "length (bc_io_workers s1) = length (bc_io_workers s)" by (simp add: s1_def outside_def)
  have l2: "length (bc_io_workers s2) = length (bc_io_workers s)" by (simp add: s2_def l1 io_views)
  have l3: "length (bc_io_workers s3) = length (bc_io_workers s)" by (simp add: s3_def l2 io_views)
  have w1: "worker_only w s s1" unfolding s1_def by (rule worker_only_outside)
  have w2: "worker_only w s s2"
    unfolding s2_def using w l1
    by (intro worker_only_trans [OF w1] worker_only_trans [OF worker_only_outside(1) worker_only_upd]) simp_all
  have w3: "worker_only w s s3"
    unfolding s3_def using w l2
    by (intro worker_only_trans [OF w2] worker_only_trans [OF worker_only_upd worker_only_outside(1)]) simp_all
  have w4: "worker_only w s (upd_worker w (wk_dma_pool_allocated_bytes_update (\<lambda>_. b)) (upd_metrics f s3))" for f b
    using w l3
    by (intro worker_only_trans [OF w3] worker_only_trans [OF worker_only_outside(2) worker_only_upd])
      (simp_all add: io_views)
  note shape = prepare_io_worker_def [of env cur w s, unfolded Let_def, folded s1_def, unfolded ch prod.case,
    folded s2_def, unfolded r prod.case, folded s3_def]
  show ?thesis
    unfolding shape using worker_only_refl [of w s] w1 w2 w3 w4 by (simp split: sum.split)
qed

lemma initialize_io_worker_refines:
  assumes env: "reliable env" and ok: "life_ok s" and w: "w < length (bc_io_workers s)"
  shows "\<exists>h b. refines_to s (initialize_io_worker env cur w s) (\<lambda>p. p_worker_up b (set_holds w h p))"
proof -
  obtain e s1 where p: "prepare_io_worker env cur w s = (e, s1)" by fastforce
  then obtain h where h: "view s1 = set_holds w h (view s)" "route s1 = route s" "st_queue s1 = st_queue s"
    using prepare_worker_only [OF w, of env cur] by (auto simp: worker_only_def)
  then have "life_ok s1" by (intro life_okI [OF ok]) simp_all
  from worker_initialized_refines [OF env this] h p show ?thesis
    by (fastforce simp: initialize_io_worker_def refines_to_def)
qed

end
