(* ===== verification/Bdev_Lifecycle_Io.thy ===== *)
theory Bdev_Lifecycle_Io
  imports Bdev_Lifecycle_Refinement
begin

text \<open>
  The I/O path is invisible to the protocol of \<open>Lifecycle_Protocol\<close>: it moves requests and leases,
  never the buffers, channels, flags or messages by which a context comes up and goes down.
\<close>

section \<open>The buffers of the workers\<close>

definition buffers_col :: "'d spdk_state \<Rightarrow> dma_ptr list list" where
  "buffers_col s = map pool_buffers (pool_col s)"

lemma buffers_cong: "pool_col s' = pool_col s \<Longrightarrow> buffers_col s' = buffers_col s"
  by (simp add: buffers_col_def)

lemma buffers_of_pool [io_views]:
  "buffers_col (upd_metrics f s) = buffers_col s" "buffers_col (upd_request r g s) = buffers_col s"
  "buffers_col (s\<lparr>st_world := d\<rparr>) = buffers_col s" "buffers_col (s\<lparr>st_queue := q\<rparr>) = buffers_col s"
  "buffers_col (s\<lparr>st_waiting := ws\<rparr>) = buffers_col s" "buffers_col (s\<lparr>st_memory := m\<rparr>) = buffers_col s"
  "buffers_col (note_start env r s) = buffers_col s" "buffers_col (park_request env r s) = buffers_col s"
  "buffers_col (note_lease env r i s) = buffers_col s" "buffers_col (stage_write r buf s) = buffers_col s"
  "buffers_col (snd (submit_blocks env r buf s)) = buffers_col s"
  "buffers_col (emit_io_event r ph cb s) = buffers_col s"
  "buffers_col (count_submitted r s) = buffers_col s"
  "buffers_col (complete_request r ok msg s) = buffers_col s"
  "buffers_col (set_draining w b s) = buffers_col s" "buffers_col (pop_pending w s) = buffers_col s"
  by (intro buffers_cong; simp add: io_views set_draining_def pop_pending_def)+

lemma buffers_upd_pool:
  assumes "pool_buffers p = pool_buffers (wk_buffer_pool (wkr s w))"
  shows "buffers_col (upd_worker w (wk_buffer_pool_update (\<lambda>_. p)) s) = buffers_col s"
proof -
  have "(map pool_buffers (pool_col s))[w := pool_buffers (wk_buffer_pool (wkr s w))] = map pool_buffers (pool_col s)"
    using map_update_same [of "pool_buffers \<circ> wk_buffer_pool" "bc_io_workers s" w] by (simp add: pool_col_def)
  then show ?thesis using assms by (simp add: buffers_col_def io_views map_update)
qed

lemma buffers_release [io_views]: "buffers_col (release_buffer r s) = buffers_col s"
proof (cases "rq_buffer_index (req s r)")
  case (Some i)
  obtain e p where p: "pool_release i (wk_buffer_pool (wkr s (rq_worker (req s r)))) = (e, p)" by fastforce
  have "pool_buffers p = pool_buffers (wk_buffer_pool (wkr s (rq_worker (req s r))))"
    using pool_buffers_release [of i "wk_buffer_pool (wkr s (rq_worker (req s r)))"] by (simp add: p)
  from buffers_upd_pool [OF this] show ?thesis
    using p Some by (cases e) (simp_all add: release_buffer_def Let_def io_views)
qed (simp add: release_buffer_def)

lemma buffers_wait [io_views]: "buffers_col (fst (wait_for_queue env r s)) = buffers_col s"
  by (simp add: wait_for_queue_def thread_send_msg_def Let_def io_views case_prod_unfold)

lemma buffers_fail [io_views]: "buffers_col (fst (fail_execute r m s)) = buffers_col s"
  by (simp add: fail_execute_def io_views)

lemma buffers_staged [io_views]: "buffers_col (fst (submit_staged env r buf s)) = buffers_col s"
  by (simp add: submit_staged_def Let_def io_views case_prod_unfold)

lemma buffers_execute_body [io_views]: "buffers_col (fst (execute_body env cur r s)) = buffers_col s"
proof -
  let ?s1 = "note_start env r s" and ?w = "rq_worker (req s r)"
  obtain acq p where a: "pool_try_acquire (wk_buffer_pool (wkr ?s1 ?w)) = (acq, p)" by fastforce
  have "pool_buffers p = pool_buffers (wk_buffer_pool (wkr ?s1 ?w))"
    using pool_buffers_acquire [of "wk_buffer_pool (wkr ?s1 ?w)"] by (simp add: a)
  from buffers_upd_pool [OF this]
  have "buffers_col (upd_worker ?w (wk_buffer_pool_update (\<lambda>_. p)) ?s1) = buffers_col s"
    by (simp add: io_views)
  then show ?thesis
    by (simp add: execute_body_def Let_def a io_views split: sum.split option.split)
qed

section \<open>Draining, executing and completing\<close>

text \<open>What the workers are known by: their threads and flags, and their buffers.\<close>

definition worker_frame :: "'d spdk_state \<Rightarrow> (nat \<times> u32 \<times> spdk_thread \<times> bool \<times> bool \<times> u64) list \<times> dma_ptr list list" where
  "worker_frame s = (worker_keys s, buffers_col s)"

lemma drain_loop_workers: "worker_frame (drain_loop env cur w s) = worker_frame s"
proof (induction env cur w s rule: drain_loop.induct)
  case (1 env cur w s)
  have "worker_keys (pop_pending w s) = worker_keys s" by (simp add: pop_pending_def io_views)
  then show ?case using 1 by (subst drain_loop.simps) (simp add: worker_frame_def io_views)
qed

lemma drain_pending_workers: "worker_frame (drain_pending_io env cur w s) = worker_frame s"
proof -
  have d: "worker_frame (set_draining w b x) = worker_frame x" for b and x :: "'a spdk_state"
    by (simp add: worker_frame_def io_views) (simp add: set_draining_def io_views)
  show ?thesis by (simp add: drain_pending_io_def d drain_loop_workers)
qed

lemma execute_io_workers: "worker_frame (execute_io_on_worker env cur r s) = worker_frame s"
proof -
  have "worker_frame (fst (execute_body env cur r s)) = worker_frame s"
    by (simp add: worker_frame_def io_views)
  then show ?thesis by (simp add: execute_io_on_worker_def case_prod_unfold drain_pending_workers)
qed

lemma execute_worker_batch_workers: "worker_frame (execute_worker_batch env cur rs s) = worker_frame s"
  by (induction rs arbitrary: s) (simp_all add: execute_io_workers)

lemma complete_io_workers: "worker_frame (complete_io_on_worker env cur r ok s) = worker_frame s"
proof -
  obtain ok' msg m where c: "complete_io_on_worker env cur r ok s =
     drain_pending_io env cur (rq_worker (req s r)) (complete_request r ok' msg (release_buffer r
       ((emit_io_event r ''callback'' (Some ok) s)\<lparr>st_memory := m\<rparr>)))"
    using complete_io_shape by blast
  show ?thesis unfolding c drain_pending_workers by (simp add: worker_frame_def io_views)
qed

lemma worker_frame_updates:
  "worker_frame (s\<lparr>st_queue := q\<rparr>) = worker_frame s" "worker_frame (s\<lparr>st_waiting := ws\<rparr>) = worker_frame s"
  "worker_frame (s\<lparr>st_world := d, st_in_flight := fl, st_dma := dma\<rparr>) = worker_frame s"
  by (simp_all add: worker_frame_def io_views) (simp add: column_defs buffers_col_def)

text \<open>The messages that are not about I/O.\<close>

abbreviation other_messages :: "spdk_message list \<Rightarrow> spdk_message list" where
  "other_messages \<equiv> filter (Not \<circ> is_io_message)"

lemma only_retries_other:
  assumes "only_retries q q'"
  shows "other_messages (q' t) = other_messages (q t)"
proof -
  obtain rs where "q' t = q t @ map Msg_retry rs" using assms unfolding only_retries_def by blast
  moreover have "other_messages (map Msg_retry rs) = []" for rs
    by (induction rs) (simp_all add: is_io_message_def)
  ultimately show ?thesis by simp
qed

lemma complete_bdev_io_shape:
  obtains cur r ok d fl dma where "complete_bdev_io env k s = complete_io_on_worker env cur r ok
      (s\<lparr>st_world := d, st_in_flight := fl, st_dma := dma\<rparr>)"
proof -
  let ?io = "st_in_flight s ! k"
  obtain ok data d where c: "se_complete env ?io
      (mem_read (st_dma s (bio_buffer ?io)) 0 (bio_length (bc_geometry s) ?io)) (st_world s) =
      (ok, data, d)" by (metis prod_cases3)
  show thesis
    by (rule that [where cur = "wk_thread (wkr s (rq_worker (req s (bio_request ?io))))"
          and r = "bio_request ?io" and ok = ok and d = d
          and fl = "remove_nth k (st_in_flight s)" and dma = "if bio_operation ?io = Op_read
            then (st_dma s)(bio_buffer ?io := mem_write (st_dma s (bio_buffer ?io)) 0 data) else st_dma s"])
      (simp add: complete_bdev_io_def Let_def c)
qed

lemma event_frame:
  assumes "handle_event env e s = Some s'"
  shows "worker_frame s' = worker_frame s \<and> (\<forall>t. other_messages (st_queue s' t) = other_messages (st_queue s t))"
proof (cases e)
  case (Ev_deliver w)
  then have d: "deliver_message env w s = Some s'" using assms by (simp split: if_splits)
  let ?t = "wk_thread (wkr s w)"
  obtain msg rest where q: "st_queue s ?t = msg # rest" and m: "is_io_message msg"
    using d by (auto simp: deliver_message_def Let_def is_io_message_def split: list.splits spdk_message.splits)
  let ?q = "(st_queue s)(?t := rest)"
  have "only_retries ?q (st_queue s')" and "worker_frame s' = worker_frame s"
    using d q execute_worker_batch_retries [of "s\<lparr>st_queue := ?q\<rparr>" env ?t]
      execute_io_retries [of "s\<lparr>st_queue := ?q\<rparr>" env ?t]
    by (auto simp: deliver_message_def Let_def execute_worker_batch_workers execute_io_workers
        worker_frame_updates split: spdk_message.splits)
  moreover have "other_messages (?q t) = other_messages (st_queue s t)" for t using q m by simp
  ultimately show ?thesis using only_retries_other by metis
next
  case (Ev_resume k)
  then have "only_retries (st_queue s) (st_queue s')" and "worker_frame s' = worker_frame s"
    using assms execute_io_retries [of "s\<lparr>st_waiting := remove_nth k (st_waiting s)\<rparr>" env]
    by (auto simp: resume_request_def Let_def execute_io_workers worker_frame_updates split: if_splits)
  then show ?thesis using only_retries_other by metis
next
  case (Ev_complete k)
  then have s': "s' = complete_bdev_io env k s" using assms by (simp split: if_splits)
  obtain cur r ok d fl dma where eq: "complete_bdev_io env k s = complete_io_on_worker env cur r ok
      (s\<lparr>st_world := d, st_in_flight := fl, st_dma := dma\<rparr>)"
    by (rule complete_bdev_io_shape)
  have "only_retries (st_queue s) (st_queue s')"
    using complete_io_retries [of "s\<lparr>st_world := d, st_in_flight := fl, st_dma := dma\<rparr>" env cur r ok]
    by (simp add: s' eq)
  moreover have "worker_frame s' = worker_frame s"
    by (simp only: s' eq complete_io_workers worker_frame_updates)
  ultimately show ?thesis using only_retries_other by metis
qed

section \<open>A step of the I/O path\<close>

definition io_same :: "'d spdk_state \<Rightarrow> 'd spdk_state \<Rightarrow> bool" where
  "io_same s s' \<longleftrightarrow> context_key s' = context_key s \<and> worker_frame s' = worker_frame s \<and>
     (\<forall>t. other_messages (st_queue s' t) = other_messages (st_queue s t))"

lemma io_same_refl: "io_same s s"
  by (simp add: io_same_def)

lemma io_same_trans: "io_same s s' \<Longrightarrow> io_same s' s'' \<Longrightarrow> io_same s s''"
  by (simp add: io_same_def)

lemma io_same_invisible:
  assumes "io_same s s'"
  shows "view s' = view s" and "route s' = route s" and "life_ok s \<Longrightarrow> life_ok s'"
proof -
  have c: "context_key s' = context_key s" and q: "\<forall>t. other_messages (st_queue s' t) = other_messages (st_queue s t)"
    and k: "worker_keys s' = worker_keys s" "map pool_buffers (pool_col s') = map pool_buffers (pool_col s)"
    using assms by (simp_all add: io_same_def worker_frame_def buffers_col_def)
  show "view s' = view s" "route s' = route s" "life_ok s \<Longrightarrow> life_ok s'"
    using life_frame [OF c k] q by blast+
qed

lemma complete_all_same: "io_same s (complete_all rs e s)"
proof (induction rs e s rule: complete_all.induct)
  case (2 r rs e s)
  have "io_same s (complete_request r False e s)" by (simp add: io_same_def worker_frame_def io_views)
  then show ?case using 2 io_same_trans by simp blast
qed (simp add: io_same_refl)

lemma context_send_same:
  assumes "context_send_message env t m s = (r, s')" and "is_io_message m"
  shows "io_same s s'"
proof -
  obtain c x where x: "thread_send_msg env (the t) m s = (c, x)" by fastforce
  have "s' = s \<or> s' = x"
    using assms(1) x by (cases t; cases "bc_runtime s"; cases "bc_closed s \<or> bc_shutdown_requested s";
      cases "runtime_is_available (the (bc_runtime s))") (simp_all add: context_send_message_def Let_def)
  moreover have "io_same s x"
    using x assms(2) by (auto simp: thread_send_msg_def io_same_def worker_frame_def io_views split: prod.splits if_splits)
  ultimately show ?thesis using io_same_refl by blast
qed

lemma send_dispatches_same: "io_same s (send_dispatches env dispatch ws s)"
proof (induction env dispatch ws s rule: send_dispatches.induct)
  case (2 env dispatch w ws s)
  define s1 where "s1 = (if dispatch w = [] then s
        else case context_send_message env (Some (wk_thread (wkr s w)))
                    (Msg_execute_batch (dispatch w)) s of
               (Inr _, s1) \<Rightarrow> s1
             | (Inl e, s1) \<Rightarrow> complete_all (dispatch w) (what e) s1)"
  obtain r s2 where c: "context_send_message env (Some (wk_thread (wkr s w))) (Msg_execute_batch (dispatch w)) s = (r, s2)"
    by fastforce
  have "io_same s s2" by (rule context_send_same [OF c]) (simp add: is_io_message_def)
  then have "io_same s (complete_all (dispatch w) e s2)" for e
    by (rule io_same_trans [OF _ complete_all_same])
  then have "io_same s s1"
    using \<open>io_same s s2\<close> unfolding s1_def c by (cases r) (simp_all add: io_same_refl)
  then show ?case
    using io_same_trans [OF _ "2.IH" [folded s1_def]] by (simp only: send_dispatches.simps s1_def [symmetric])
qed (simp add: io_same_refl)

lemma submit_refines:
  assumes sub: "submit_batch env operation items s = (res, s')"
  shows "view s' = view s" and "route s' = route s" and "life_ok s \<Longrightarrow> life_ok s'"
proof -
  let ?s1 = "s\<lparr>bc_next_io_worker := bc_next_io_worker s + 1\<rparr>"
  have 1: "view ?s1 = view s" "route ?s1 = route s" by (simp_all add: view_def route_def)
  have ok1: "life_ok ?s1" if "life_ok s" using life_okI [OF that 1(2)] by simp
  have announced: "io_same ?s1 ((announce k ?s1)\<lparr>st_world := d\<rparr>)" for k d
    by (simp add: io_same_def announce_def worker_frame_def io_views)
  have added: "io_same x (add_batch n qs x)" for n qs and x :: "'a spdk_state"
    by (simp add: io_same_def worker_frame_def buffers_col_def add_batch_def column_defs context_key_def)
  have "s' = s \<or> io_same ?s1 s'"
    using submit_batch_cases [OF sub] announced io_same_trans [OF announced io_same_trans [OF added send_dispatches_same]]
    by blast
  then show "view s' = view s" "route s' = route s" "life_ok s \<Longrightarrow> life_ok s'"
    using io_same_invisible [of ?s1 s'] 1 ok1 by auto
qed

lemma io_step_refines:
  assumes "io_step env s s'"
  shows "view s' = view s" and "life_ok s \<Longrightarrow> life_ok s'"
proof -
  have "view s' = view s \<and> (life_ok s \<longrightarrow> life_ok s')"
    using assms
  proof (cases rule: io_step.cases)
    case (step_submit operation items res)
    then show ?thesis using submit_refines by blast
  next
    case (step_event e)
    then have "io_same s s'" using event_frame event_context unfolding io_same_def by blast
    then show ?thesis using io_same_invisible by blast
  next
    case (step_outside d m)
    then have "io_same s s'"
      by (simp add: io_same_def worker_frame_def buffers_col_def column_defs context_key_def)
    then show ?thesis using io_same_invisible by blast
  qed
  then show "view s' = view s" and "life_ok s \<Longrightarrow> life_ok s'" by blast+
qed

end
