(* ===== verification/Bdev_Lifecycle_Steps.thy ===== *)
theory Bdev_Lifecycle_Steps
  imports Bdev_Lifecycle_Io
begin

text \<open>
  Opening the bdev, the delivery of messages and closing, as steps of the protocol; then every
  reachable context.
\<close>

section \<open>Opening\<close>

definition fresh_worker :: "spdk_thread \<Rightarrow> nat \<Rightarrow> io_worker \<Rightarrow> bool" where
  "fresh_worker app w wk \<longleftrightarrow> (\<exists>core t. wk = new_io_worker w core t (w \<noteq> 0) \<and> (w = 0 \<longrightarrow> t = app))"

lemma create_workers_shape:
  assumes "create_workers env app i cores s = (r, s')" and "length (bc_io_workers s) = i"
    and "\<forall>w<i. fresh_worker app w (wkr s w)"
  shows "\<exists>wks d. s' = s\<lparr>st_world := d, bc_io_workers := wks\<rparr> \<and> i \<le> length wks \<and>
    (\<forall>w<length wks. fresh_worker app w (wks ! w)) \<and>
    (r = Inr () \<longrightarrow> map wk_core wks = map wk_core (bc_io_workers s) @ cores)"
  using assms
proof (induction env app i cores s rule: create_workers.induct)
  case (1 env app i s)
  then show ?case
    by (intro exI [of _ "bc_io_workers s"] exI [of _ "st_world s"]) auto
next
  case (2 env app i core cores s)
  have step: "\<forall>w<Suc i. fresh_worker app w ((bc_io_workers s @ [new_io_worker i core t (i \<noteq> 0)]) ! w)"
    if "i = 0 \<longrightarrow> t = app" for t
    using "2.prems"(2,3) that by (auto simp: nth_append less_Suc_eq fresh_worker_def)
  have core: "wk_core (new_io_worker i core t b) = core" for t b by (simp add: new_io_worker_def)
  show ?case
  proof (cases "i = 0")
    case True
    let ?s1 = "s\<lparr>bc_io_workers := bc_io_workers s @ [new_io_worker i core app False]\<rparr>"
    have "create_workers env app (Suc i) cores ?s1 = (r, s')" using "2.prems"(1) True by simp
    moreover have "length (bc_io_workers ?s1) = Suc i" "\<forall>w<Suc i. fresh_worker app w (wkr ?s1 w)"
      using "2.prems"(2) step [of app] True by simp_all
    ultimately obtain wks d where "s' = ?s1\<lparr>st_world := d, bc_io_workers := wks\<rparr>" "Suc i \<le> length wks"
      "\<forall>w<length wks. fresh_worker app w (wks ! w)"
      "r = Inr () \<longrightarrow> map wk_core wks = map wk_core (bc_io_workers ?s1) @ cores"
      using "2.IH"(1) [OF True] by blast
    then show ?thesis by (intro exI [of _ wks] exI [of _ d]) (simp add: core)
  next
    case False
    obtain ot d1 where c: "le_thread_create env (''lmcache_io_'' @ nat_to_string i) core (st_world s) = (ot, d1)"
      by fastforce
    show ?thesis
    proof (cases ot)
      case None
      then show ?thesis using "2.prems" False c
        by (intro exI [of _ "bc_io_workers s"] exI [of _ d1]) auto
    next
      case (Some t)
      let ?s1 = "s\<lparr>st_world := d1, bc_io_workers := bc_io_workers s @ [new_io_worker i core t True]\<rparr>"
      have rec: "create_workers env app (Suc i) cores ?s1 = (r, s')"
        using "2.prems"(1) False c Some by simp
      moreover have "length (bc_io_workers ?s1) = Suc i" "\<forall>w<Suc i. fresh_worker app w (wkr ?s1 w)"
        using "2.prems"(2) step [of t] False by simp_all
      ultimately obtain wks d where "s' = ?s1\<lparr>st_world := d, bc_io_workers := wks\<rparr>" "Suc i \<le> length wks"
        "\<forall>w<length wks. fresh_worker app w (wks ! w)"
        "r = Inr () \<longrightarrow> map wk_core wks = map wk_core (bc_io_workers ?s1) @ cores"
        using "2.IH"(2) [OF False c [symmetric] Some] by blast
      then show ?thesis by (intro exI [of _ wks] exI [of _ d]) (simp add: core)
    qed
  qed
qed

lemma fresh_workers_view:
  assumes fresh: "\<forall>w<length wks. fresh_worker a w (wks ! w)"
    and none: "\<forall>t. \<forall>m\<in>set (st_queue s t). \<forall>w. \<not> about w m" and "bc_io_workers s = []"
  shows "view (s\<lparr>bc_descriptor_open := True, bc_io_workers := wks\<rparr>) = fresh_parties (length wks) (view s)"
proof -
  have "wk_owns_thread (wks ! w) = (w \<noteq> 0) \<and> \<not> holds_resources (wks ! w)" if w: "w < length wks" for w
  proof -
    have "fresh_worker a w (wks ! w)" using fresh w by blast
    then obtain core t where "wks ! w = new_io_worker w core t (w \<noteq> 0)" unfolding fresh_worker_def by blast
    then show ?thesis by (simp add: new_io_worker_def holds_resources_def empty_pool_def)
  qed
  then have "map wk_owns_thread wks = map (\<lambda>w. w \<noteq> 0) [0..<length wks]"
    and "map holds_resources wks = replicate (length wks) False"
    by (simp_all only: list_eq_iff_nth_eq length_map length_upt length_replicate nth_map nth_upt nth_replicate)
      simp_all
  moreover have "box_of ws (st_queue s) = (\<lambda>w. [])" for ws
    using none by (auto simp: box_of_def filter_empty_conv fun_eq_iff)
  ultimately show ?thesis
    unfolding view_def fresh_parties_def by simp
qed

lemma discover_geometry_cores:
  assumes "discover_geometry config bdev cores app_core g0 = (Inr (), g)" and "cfg_io_thread_count config \<noteq> 0"
  shows "spdk_io_cores g \<noteq> []"
proof -
  have "0 < unat (cfg_io_thread_count config)" using assms(2) by (simp add: unat_gt_0)
  moreover have "\<exists>xs. spdk_io_cores g = take (unat (cfg_io_thread_count config)) (app_core # xs)"
    using assms(1) by (auto simp: discover_geometry_def Let_def split: sum.splits if_splits)
  ultimately show ?thesis by auto
qed

lemma publish_failure_refines:
  assumes "life_ok s"
  shows "refines_to s (publish_initialization_failure e s) (\<lambda>p. p\<lparr>pr_initialized := True, pr_succeeded := False\<rparr>)"
proof (rule refines_frame [OF assms])
  show "route (publish_initialization_failure e s) = route s"
    "view (publish_initialization_failure e s) = (view s)\<lparr>pr_initialized := True, pr_succeeded := False\<rparr>"
    unfolding publish_initialization_failure_def by (simp_all only: route_def view_def) simp_all
qed (simp add: publish_initialization_failure_def)

lemma fail_open_refines:
  assumes "reliable env" and "life_ok s"
  shows "refines_to s (request_shutdown env c [] (publish_initialization_failure e s)) p_fail_open"
proof -
  note p = publish_failure_refines [OF assms(2), of e]
  have ok: "life_ok (publish_initialization_failure e s)" using p by (simp add: refines_to_def)
  have eq: "(\<lambda>p. p_request (p\<lparr>pr_initialized := True, pr_succeeded := False\<rparr>)) = p_fail_open"
    by (rule ext) (simp only: p_fail_open_def)
  show ?thesis
    using refines_trans [OF p request_shutdown_refines [OF assms(1) ok, of c "[]"]] unfolding eq .
qed

lemma discover_geometry_few:
  assumes "discover_geometry config bdev cores app_core g0 = (Inr (), g)"
  shows "length (spdk_io_cores g) < 2 ^ 64"
proof -
  have "\<exists>xs. spdk_io_cores g = take (unat (cfg_io_thread_count config)) xs"
    using assms by (auto simp: discover_geometry_def Let_def split: sum.splits if_splits)
  moreover have "unat (cfg_io_thread_count config) < 2 ^ 64"
    using unsigned_less [of "cfg_io_thread_count config"] by simp
  ultimately show ?thesis by (auto simp: min_less_iff_disj)
qed

lemma open_workers_shape:
  fixes env :: "'d life_env" and s :: "'d spdk_state"
  assumes ow: "open_workers env cur (s\<lparr>st_world := d, bc_descriptor_open := True\<rparr>) = (r, s1)"
    and nw: "bc_io_workers s = []" and a: "bc_app_thread s = Some a"
    and threads: "cfg_io_thread_count (bc_config s) \<noteq> 0"
  obtains wks d1 g where "s1 = s\<lparr>bc_descriptor_open := True, bc_io_workers := wks, bc_geometry := g, st_world := d1\<rparr>"
    and "\<forall>w<length wks. fresh_worker a w (wks ! w)"
    and "r = Inr () \<longrightarrow> wks \<noteq> [] \<and> length wks < 2 ^ 64"
proof -
  let ?x = "s\<lparr>st_world := d, bc_descriptor_open := True\<rparr>"
  obtain q g where dg: "discover_geometry (bc_config ?x) (le_bdev env (st_world ?x)) (le_cores env (st_world ?x))
      (le_current_core env cur (st_world ?x)) (bc_geometry ?x) = (q, g)" by fastforce
  show thesis
  proof (cases q)
    case (Inl e)
    then have "r = Inl e" and s1: "s1 = s\<lparr>st_world := d, bc_descriptor_open := True, bc_geometry := g\<rparr>"
      using ow dg by (auto simp: open_workers_def)
    from s1 nw have "s1 = s\<lparr>bc_descriptor_open := True, bc_io_workers := [], bc_geometry := g, st_world := d\<rparr>"
      by (cases s) simp
    then show thesis
      using \<open>r = Inl e\<close> that [where wks = "[]" and ?d1.0 = d and g = g]
      by (simp only: list.size not_less_zero simp_thms sum.distinct)
  next
    case (Inr u)
    let ?y = "?x\<lparr>bc_geometry := g\<rparr>"
    have cw: "create_workers env a 0 (spdk_io_cores g) ?y = (r, s1)"
      using ow dg Inr a by (simp add: open_workers_def)
    have "length (bc_io_workers ?y) = 0" "\<forall>w<0. fresh_worker a w (wkr ?y w)" using nw by simp_all
    from create_workers_shape [OF cw this] obtain wks d1 where w: "s1 = ?y\<lparr>st_world := d1, bc_io_workers := wks\<rparr>"
      "\<forall>w<length wks. fresh_worker a w (wks ! w)" "r = Inr () \<longrightarrow> map wk_core wks = spdk_io_cores g"
      using nw by auto
    have "cfg_io_thread_count (bc_config ?x) \<noteq> 0" using threads by simp
    then have cores: "spdk_io_cores g \<noteq> []" "length (spdk_io_cores g) < 2 ^ 64"
      using discover_geometry_cores discover_geometry_few dg Inr by simp_all
    have "r = Inr () \<longrightarrow> wks \<noteq> [] \<and> length wks < 2 ^ 64"
    proof
      assume "r = Inr ()"
      then have m: "map wk_core wks = spdk_io_cores g" using w(3) by simp
      show "wks \<noteq> [] \<and> length wks < 2 ^ 64"
        using cores length_map [of wk_core wks] unfolding m by auto
    qed
    then show thesis using w by (intro that [where wks = wks and ?d1.0 = d1 and g = g]) auto
  qed
qed

text \<open>
  The bdev is opened by the first message of the context: nothing about workers is under way and
  there are none.
\<close>

lemma on_runtime_ready_refines:
  fixes env :: "'d life_env" and cur and s :: "'d spdk_state"
  assumes env: "reliable env" and ok: "life_ok s" and nw: "bc_io_workers s = []"
    and none: "\<forall>t. \<forall>m\<in>set (st_queue s t). \<forall>w. \<not> about w m"
  defines "s' \<equiv> on_runtime_ready env cur s"
  shows "life_ok s' \<and> (view s' = p_fail_open (view s) \<or> (\<exists>n. view s' = p_fail_open (fresh_parties n (view s))) \<or>
    (\<exists>n ok h. 0 < n \<and> view s' = p_worker_up ok (set_holds 0 h (post_each Msg_initialize_worker [1..<n]
      ((fresh_parties n (view s))\<lparr>pr_initializing := n\<rparr>)))))"
proof -
  obtain a where a: "bc_app_thread s = Some a" using life_ok_app [OF ok] by blast
  obtain rc d where o: "le_open env (cfg_bdev_name (bc_config s)) (st_world s) = (rc, d)" by fastforce
  have fail: "life_ok (request_shutdown env c [] (publish_initialization_failure e x)) \<and>
      view (request_shutdown env c [] (publish_initialization_failure e x)) = p_fail_open (view x)"
    if "life_ok x" for x c e
    using fail_open_refines [OF env that, of c e] unfolding refines_to_def by blast
  show ?thesis
  proof (cases "rc = 0")
    case False
    let ?x = "s\<lparr>st_world := d\<rparr>"
    have "life_ok ?x" by (rule life_okI [OF ok]) (simp_all add: life_views)
    from fail [OF this] have "life_ok s' \<and> view s' = p_fail_open (view s)"
      unfolding s'_def using False o a by (simp add: on_runtime_ready_def life_views)
    then show ?thesis by blast
  next
    case True
    let ?x = "s\<lparr>st_world := d, bc_descriptor_open := True\<rparr>"
    obtain r s1 where ow: "open_workers env cur ?x = (r, s1)" by fastforce
    have threads: "cfg_io_thread_count (bc_config s) \<noteq> 0" using ok by (simp add: life_ok_def)
    obtain wks d1 g where s1: "s1 = s\<lparr>bc_descriptor_open := True, bc_io_workers := wks, bc_geometry := g, st_world := d1\<rparr>"
      and fresh: "\<forall>w<length wks. fresh_worker a w (wks ! w)" and n: "r = Inr () \<longrightarrow> wks \<noteq> []"
      by (rule open_workers_shape [OF ow nw a threads]) blast
    have v1: "view s1 = fresh_parties (length wks) (view s)"
      using fresh_workers_view [OF fresh none nw] unfolding s1 by (simp add: life_views)
    have ok1: "life_ok s1"
      using ok none unfolding s1 by (simp add: life_ok_def routed_message_def)
    show ?thesis
    proof (cases r)
      case (Inl e)
      then have "s' = request_shutdown env (- EINVAL) [] (publish_initialization_failure (what e) s1)"
        unfolding s'_def using True o a ow by (simp add: on_runtime_ready_def)
      then show ?thesis using fail [OF ok1] v1 by metis
    next
      case (Inr u)
      define s2 where "s2 = s1\<lparr>bc_workers_initializing := length (bc_io_workers s1)\<rparr>"
      have n0: "0 < length wks" and l1: "length (bc_io_workers s1) = length wks"
        using n Inr by (simp_all add: s1)
      have v2: "view s2 = (fresh_parties (length wks) (view s))\<lparr>pr_initializing := length wks\<rparr>" "route s2 = route s1"
        "length (bc_io_workers s2) = length wks"
        using v1 l1 by (simp_all add: s2_def life_views)
      have ok2: "life_ok s2" using v2(2) by (intro life_okI [OF ok1]) (simp_all add: s2_def)
      let ?s3 = "dispatch_initialize env [1..<length (bc_io_workers s2)] s2"
      have "refines_to s2 ?s3 (post_each Msg_initialize_worker [1..<length (bc_io_workers s2)])"
        by (rule post_to_workers [OF env ok2]) (simp_all split: prod.split)
      then have r3: "life_ok ?s3" "route ?s3 = route s2"
        "view ?s3 = post_each Msg_initialize_worker [1..<length wks] (view s2)"
        using v2(3) by (simp_all add: refines_to_def)
      have "0 < length (bc_io_workers ?s3)" using route_eq(3) [OF r3(2)] v2(3) n0 by simp
      from initialize_io_worker_refines [OF env r3(1) this]
      obtain h b where "refines_to ?s3 (initialize_io_worker env cur 0 ?s3) (\<lambda>p. p_worker_up b (set_holds 0 h p))"
        by blast
      moreover have "s' = initialize_io_worker env cur 0 ?s3"
        unfolding s'_def on_runtime_ready_def using True o a ow Inr by (simp add: Let_def s2_def)
      ultimately show ?thesis using r3(3) v2(1) n0 by (auto simp: refines_to_def)
    qed
  qed
qed

section \<open>Delivering\<close>

lemma deliver_context:
  assumes ok: "life_ok s" and q: "st_queue s t = m # rest" and m: "for_context m"
  defines "s1 \<equiv> s\<lparr>st_queue := (st_queue s)(t := rest)\<rparr>"
  shows "life_ok s1" and "pr_app_box (view s) = m # filter for_context rest"
    and "view s1 = (view s)\<lparr>pr_app_box := filter for_context rest\<rparr>"
proof -
  have t: "bc_app_thread s = Some t"
    using ok q m by (auto simp: life_ok_def routed_message_def) (metis list.set_intros(1))
  show "life_ok s1"
    unfolding s1_def by (rule life_okI [OF ok]) (use q in \<open>auto simp: life_views split: if_splits\<close>)
  show "pr_app_box (view s) = m # filter for_context rest" using t q m by (simp add: view_def)
  have "box_of (bc_io_workers s) ((st_queue s)(t := rest)) = box_of (bc_io_workers s) (st_queue s)"
    using q not_about_context [OF m] by (auto simp: box_of_def fun_eq_iff)
  then show "view s1 = (view s)\<lparr>pr_app_box := filter for_context rest\<rparr>"
    using t by (simp add: view_def s1_def)
qed

lemma deliver_worker:
  assumes ok: "life_ok s" and q: "st_queue s t = m # rest" and m: "about w m"
  defines "s1 \<equiv> s\<lparr>st_queue := (st_queue s)(t := rest)\<rparr>"
  shows "life_ok s1" and "w < length (bc_io_workers s)" and "pr_box (view s) w = m # filter (about w) rest"
    and "view s1 = (view s)\<lparr>pr_box := (pr_box (view s))(w := filter (about w) rest)\<rparr>"
proof -
  have w: "w < length (bc_io_workers s) \<and> wk_thread (wkr s w) = t"
    using ok q m unfolding life_ok_def routed_message_def by (metis list.set_intros(1))
  then show "w < length (bc_io_workers s)" by simp
  show "life_ok s1"
    unfolding s1_def by (rule life_okI [OF ok]) (use q in \<open>auto simp: life_views split: if_splits\<close>)
  show "pr_box (view s) w = m # filter (about w) rest" using w q m by (simp add: view_def box_of_def)
  have nc: "\<not> for_context m" using m not_about_context by blast
  have only: "about v m \<longleftrightarrow> v = w" for v using m by (cases m) auto
  have "box_of (bc_io_workers s) ((st_queue s)(t := rest)) v =
      ((box_of (bc_io_workers s) (st_queue s))(w := filter (about w) rest)) v" for v
  proof (cases "v = w")
    case False
    then have "filter (about v) (((st_queue s)(t := rest)) u) = filter (about v) (st_queue s u)" for u
      using q only by simp
    then show ?thesis unfolding fun_upd_other [OF False] box_of_def by (simp only:)
  qed (use w in \<open>simp add: box_of_def\<close>)
  then have "box_of (bc_io_workers s) ((st_queue s)(t := rest)) =
      (box_of (bc_io_workers s) (st_queue s))(w := filter (about w) rest)" by (rule ext)
  moreover have "filter for_context (((st_queue s)(t := rest)) u) = filter for_context (st_queue s u)" for u
    using q nc by simp
  ultimately show "view s1 = (view s)\<lparr>pr_box := (pr_box (view s))(w := filter (about w) rest)\<rparr>"
    by (simp add: view_def s1_def del: fun_upd_apply)
qed


lemma view_starts:
  assumes "proto_inv (view s)" and "pr_app_box (view s) = Msg_open # ms"
  shows "view s = proto_start" and "ms = []"
proof -
  show "view s = proto_start"
    using assms opened_app_head [of "view s" Msg_open ms] by (auto simp: proto_inv_def unopened_def)
  then show "ms = []" using assms(2) by (simp add: proto_start_def)
qed

lemma deliver_open:
  fixes env :: "'d life_env" and s :: "'d spdk_state"
  assumes env: "reliable env" and ok: "life_ok s" and inv: "proto_inv (view s)"
    and q: "st_queue s t = Msg_open # rest"
  defines "s1 \<equiv> s\<lparr>st_queue := (st_queue s)(t := rest)\<rparr>"
  shows "life_ok (on_runtime_ready env t s1) \<and> proto_deliver (view s) (view (on_runtime_ready env t s1))"
proof -
  note d = deliver_context [OF ok q, folded s1_def, simplified]
  define ms where "ms = filter for_context rest"
  have box: "pr_app_box (view s) = Msg_open # ms" and v1: "view s1 = (view s)\<lparr>pr_app_box := ms\<rparr>"
    using d(2,3) by (simp_all only: ms_def)
  have start: "view s = proto_start" using view_starts [OF inv box] by simp
  then have "length (bc_io_workers s1) = 0" using view_fields(10) [of s] by (simp add: s1_def proto_start_def)
  then have nw: "bc_io_workers s1 = []" by simp
  have none: "\<forall>t. \<forall>m\<in>set (st_queue s1 t). \<forall>w. \<not> about w m"
  proof (intro allI ballI notI)
    fix t m w assume "m \<in> set (st_queue s1 t)" "about w m"
    then have "w < length (bc_io_workers s1)"
      using d(1) unfolding life_ok_def routed_message_def by blast
    then show False using nw by simp
  qed
  from on_runtime_ready_refines [OF env d(1) nw none, of t] show ?thesis
  proof (elim conjE disjE exE)
    assume "life_ok (on_runtime_ready env t s1)" "view (on_runtime_ready env t s1) = p_fail_open (view s1)"
    then show ?thesis using open_failed [OF box] by (simp only: v1)
  next
    fix n assume "life_ok (on_runtime_ready env t s1)"
      "view (on_runtime_ready env t s1) = p_fail_open (fresh_parties n (view s1))"
    then show ?thesis using open_partly [OF box, of n] by (simp only: v1)
  next
    fix n b h assume "life_ok (on_runtime_ready env t s1)" "0 < n" and
      "view (on_runtime_ready env t s1) = p_worker_up b (set_holds 0 h (post_each Msg_initialize_worker
        [1..<n] ((fresh_parties n (view s1))\<lparr>pr_initializing := n\<rparr>)))"
    then show ?thesis using opened [OF box, of n b h] by (simp only: v1)
  qed
qed

lemma life_message_refines:
  fixes env :: "'d life_env" and s :: "'d spdk_state"
  assumes env: "reliable env" and ok: "life_ok s" and inv: "proto_inv (view s)"
    and d: "life_deliver env t s = Some s'"
  shows "life_ok s' \<and> proto_deliver (view s) (view s')"
proof -
  obtain m rest where q: "st_queue s t = m # rest"
    using d by (cases "st_queue s t") (simp_all add: life_deliver_def)
  define s1 where "s1 = s\<lparr>st_queue := (st_queue s)(t := rest)\<rparr>"
  note ctx = deliver_context [OF ok q, folded s1_def]
  note wkr = deliver_worker [OF ok q, folded s1_def]
  have len: "length (bc_io_workers s1) = length (bc_io_workers s)" by (simp add: s1_def)
  show ?thesis
  proof (cases m)
    case Msg_open
    then have "s' = on_runtime_ready env t s1" using d q by (simp add: life_deliver_def s1_def)
    then show ?thesis using deliver_open [OF env ok inv, of t rest] q Msg_open by (simp only: s1_def simp_thms)
  next
    case Msg_begin_shutdown
    then have c: "life_ok s1" "pr_app_box (view s) = Msg_begin_shutdown # filter for_context rest"
      "view s1 = (view s)\<lparr>pr_app_box := filter for_context rest\<rparr>" using ctx by simp_all
    note r = begin_shutdown_refines [OF env c(1), unfolded refines_to_def]
    have "s' = begin_shutdown_on_app_thread env s1" using d q Msg_begin_shutdown by (simp add: life_deliver_def s1_def)
    then show ?thesis using r begin_shutdown [OF c(2)] by (simp only: c(3))
  next
    case Msg_finish_shutdown
    then have c: "life_ok s1" "pr_app_box (view s) = Msg_finish_shutdown # filter for_context rest"
      "view s1 = (view s)\<lparr>pr_app_box := filter for_context rest\<rparr>" using ctx by simp_all
    note r = worker_shutdown_refines [OF c(1), of env, unfolded refines_to_def]
    have "s' = on_io_worker_shutdown env s1" using d q Msg_finish_shutdown by (simp add: life_deliver_def s1_def)
    then show ?thesis using r acknowledged [OF c(2)] by (simp only: c(3))
  next
    case (Msg_initialize_worker w)
    then have c: "life_ok s1" "w < length (bc_io_workers s1)" "pr_box (view s) w = Msg_initialize_worker w # filter (about w) rest"
      "view s1 = (view s)\<lparr>pr_box := (pr_box (view s))(w := filter (about w) rest)\<rparr>"
      using wkr [of w] len by simp_all
    obtain h b where "refines_to s1 (initialize_io_worker env t w s1) (\<lambda>p. p_worker_up b (set_holds w h p))"
      using initialize_io_worker_refines [OF env c(1,2)] by blast
    note r = this [unfolded refines_to_def]
    have "s' = initialize_io_worker env t w s1" using d q Msg_initialize_worker by (simp add: life_deliver_def s1_def)
    then show ?thesis using r initialize [OF c(3), of b h] by (simp only: c(4))
  next
    case (Msg_shutdown_worker w)
    then have c: "life_ok s1" "w < length (bc_io_workers s1)" "pr_box (view s) w = Msg_shutdown_worker w # filter (about w) rest"
      "view s1 = (view s)\<lparr>pr_box := (pr_box (view s))(w := filter (about w) rest)\<rparr>"
      using wkr [of w] len by simp_all
    note r = shutdown_io_worker_refines [OF env c(1,2), unfolded refines_to_def]
    have "s' = shutdown_io_worker env w s1" using d q Msg_shutdown_worker by (simp add: life_deliver_def s1_def)
    then show ?thesis using r stop_worker [OF c(3)] by (simp only: c(4))
  qed (use d q in \<open>simp_all add: life_deliver_def Let_def\<close>)
qed

section \<open>Events and closing\<close>

lemma bdev_event_refines:
  assumes env: "reliable env" and ok: "life_ok s" and "bc_descriptor_open s"
  shows "life_ok (on_bdev_event env e s) \<and>
    (view (on_bdev_event env e s) = view s \<or> proto_signal (view s) (view (on_bdev_event env e s)))"
proof (cases "on_bdev_event env e s = s")
  case False
  then obtain c msg where "on_bdev_event env e s = request_shutdown env c msg s"
    by (cases e) (auto simp: on_bdev_event_def)
  then have "refines_to s (on_bdev_event env e s) p_request"
    using request_shutdown_refines [OF env ok, of c msg] by simp
  moreover have "pr_descriptor (view s)" using assms(3) by simp
  ultimately show ?thesis using device_event unfolding refines_to_def by simp
qed (use ok in simp)

lemma close_begin_refines:
  assumes env: "reliable env" and ok: "life_ok s" and init: "bc_initialization_complete s"
  shows "life_ok (close_begin env s) \<and>
    (view (close_begin env s) = view s \<or> proto_signal (view s) (view (close_begin env s)))"
proof (cases "bc_closed s")
  case True
  then show ?thesis using ok by (simp add: close_begin_def)
next
  case False
  let ?s1 = "s\<lparr>bc_closed := True\<rparr>" and ?p1 = "(view s)\<lparr>pr_closed := True\<rparr>"
  obtain a where a: "bc_app_thread s = Some a" using life_ok_app [OF ok] by blast
  have 1: "life_ok ?s1" "view ?s1 = ?p1" by (rule life_okI [OF ok]) (simp_all add: life_views)
  have c: "proto_signal (view s) (if bc_descriptor_open s \<or> length (bc_io_workers s) \<noteq> 0
      then p_request ?p1 else ?p1\<lparr>pr_complete := True\<rparr>)"
    using closing [of "view s"] init False by (simp add: Let_def)
  show ?thesis
  proof (cases "bc_descriptor_open s \<or> bc_io_workers s \<noteq> []")
    case True
    then have "close_begin env s = request_shutdown env 0 [] ?s1" using False a by (simp add: close_begin_def)
    then show ?thesis
      using request_shutdown_refines [OF env 1(1), of 0 "[]"] c True 1(2) unfolding refines_to_def by simp
  next
    case idle: False
    then have eq: "close_begin env s = ?s1\<lparr>bc_shutdown_complete := True\<rparr>"
      using False by (simp add: close_begin_def Let_def)
    have "life_ok (?s1\<lparr>bc_shutdown_complete := True\<rparr>)" by (rule life_okI [OF 1(1)]) (simp_all add: life_views)
    moreover have "view (?s1\<lparr>bc_shutdown_complete := True\<rparr>) = ?p1\<lparr>pr_complete := True\<rparr>"
      using 1(2) by (simp add: life_views)
    ultimately show ?thesis using c idle unfolding eq by simp
  qed
qed

section \<open>Reachable contexts\<close>

definition other_step :: "'d life_env \<Rightarrow> 'd spdk_state \<Rightarrow> 'd spdk_state \<Rightarrow> bool" where
  "other_step env s s' \<longleftrightarrow> io_step (le_io env) s s' \<or>
     (bc_descriptor_open s \<and> (\<exists>e. s' = on_bdev_event env e s)) \<or>
     (bc_initialization_complete s \<and> s' = close_begin env s)"

lemma life_step_cases: "life_step env s s' \<longleftrightarrow> (\<exists>t. life_deliver env t s = Some s') \<or> other_step env s s'"
  unfolding other_step_def by (blast intro: life_step.intros elim: life_stepE)

lemma life_other_refines:
  assumes env: "reliable env" and ok: "life_ok s" and step: "other_step env s s'"
  shows "life_ok s' \<and> (view s' = view s \<or> proto_signal (view s) (view s'))"
  using step unfolding other_step_def
  using io_step_refines ok bdev_event_refines [OF env ok] close_begin_refines [OF env ok] by blast

lemma life_step_refines:
  assumes env: "reliable env" and ok: "life_ok s" and inv: "proto_inv (view s)" and step: "life_step env s s'"
  shows "life_ok s' \<and> (view s' = view s \<or> proto_step (view s) (view s'))"
  using life_message_refines [OF env ok inv] life_other_refines [OF env ok] step delivered signalled
  unfolding life_step_cases by blast

lemma open_context_shape:
  assumes "open_context env outcome stop_send stop_return config m p d = (Inr s, p', d')"
  obtains rt a d1 where "s = posted a Msg_open ((new_context config (bc_structured_events s) m d1)
        \<lparr>bc_runtime := Some rt, bc_bdev_claimed := True, bc_app_thread := Some a\<rparr>)"
    and "runtime_is_available rt" and "rt_app_thread rt = Some a" and "validate_config config = Inr ()"
proof -
  obtain structured where 1: "resolve_structured_events (host_getenv (le_host env)) (cfg_structured_events config) = Inr structured"
    and v: "validate_config config = Inr ()"
    using assms by (auto simp: open_context_def split: sum.splits)
  obtain rt0 p1 where 2: "acquire (le_host env) outcome config p = (Inr rt0, p1)"
    using assms 1 v by (auto simp: open_context_def split: sum.splits prod.splits)
  obtain u rt where 3: "claim_bdev (cfg_bdev_name config) rt0 = (Inr u, rt)"
    using assms 1 2 v by (auto simp: open_context_def split: sum.splits prod.splits)
  define s0 where "s0 = (new_context config structured m d)\<lparr>bc_runtime := Some rt,
    bc_bdev_claimed := True, bc_app_thread := rt_app_thread rt\<rparr>"
  obtain u' where 4: "runtime_post env (rt_app_thread rt) Msg_open rt s0 = (Inr u', s)"
    using assms 1 2 3 v by (auto simp: open_context_def s0_def Let_def split: sum.splits prod.splits)
  obtain a where a: "rt_app_thread rt = Some a" and av: "runtime_is_available rt"
    using 4 by (auto simp: runtime_post_def runtime_send_message_def split: option.splits if_splits prod.splits)
  obtain c d1 where c: "se_send_msg (le_io env) a (st_world s0) = (c, d1)" by fastforce
  have "c = 0" using 4 a av c
    by (auto simp: runtime_post_def runtime_send_message_def thread_send_msg_def split: if_splits)
  then have "s = posted a Msg_open (s0\<lparr>st_world := d1\<rparr>)"
    using 4 a av c by (simp add: runtime_post_def runtime_send_message_def thread_send_msg_def posted_def)
  then show thesis using that [where rt = rt and a = a and ?d1.0 = d1] a av v
    by (simp add: s0_def posted_def new_context_def)
qed

lemma open_context_starts:
  assumes "open_context env outcome stop_send stop_return config m p d = (Inr s, p', d')"
  shows "life_ok s" and "view s = proto_start"
proof -
  obtain rt a d1 where s: "s = posted a Msg_open ((new_context config (bc_structured_events s) m d1)
        \<lparr>bc_runtime := Some rt, bc_bdev_claimed := True, bc_app_thread := Some a\<rparr>)"
    and rt: "runtime_is_available rt" "rt_app_thread rt = Some a" and v: "validate_config config = Inr ()"
    by (rule open_context_shape [OF assms])
  have "cfg_io_thread_count config \<noteq> 0" using v by (auto simp: validate_config_def split: if_splits)
  then show "life_ok s" using rt
    by (subst s) (auto simp: life_ok_def posted_def new_context_def routed_message_def)
  show "view s = proto_start"
    by (subst s) (simp add: view_def posted_def new_context_def proto_start_def box_of_def fun_eq_iff)
qed

lemma life_reachable_refines:
  assumes env: "reliable env" and "life_reachable env s"
  shows "life_ok s \<and> proto_reachable (view s)"
  using assms(2)
proof (induction rule: life_reachable.induct)
  case (life_open outcome stop_send stop_return config m p d s p' d')
  then show ?case using open_context_starts proto_init by metis
next
  case (life_next s s')
  then show ?case
    using life_step_refines [OF env _ _ life_next.hyps(2)] proto_reachable_inv proto_next by metis
qed

text \<open>A run in which \<open>n\<close> messages of the lifecycle are delivered.\<close>

inductive life_run :: "'d life_env \<Rightarrow> 'd spdk_state \<Rightarrow> nat \<Rightarrow> 'd spdk_state \<Rightarrow> bool" for env where
  run_refl: "life_run env s 0 s"
| run_message: "life_run env s n s' \<Longrightarrow> life_deliver env t s' = Some s'' \<Longrightarrow> life_run env s (Suc n) s''"
| run_other: "life_run env s n s' \<Longrightarrow> other_step env s' s'' \<Longrightarrow> life_run env s n s''"

inductive_simps life_run_0: "life_run env s 0 s'"

lemma life_run_work:
  assumes "life_run env s n s'" and env: "reliable env" and "life_ok s" and "proto_inv (view s)"
    and "pr_requested (view s)"
  shows "life_ok s' \<and> proto_inv (view s') \<and> pr_requested (view s') \<and>
    n + shutdown_work (view s') \<le> shutdown_work (view s)"
  using assms(1,3-)
proof (induction rule: life_run.induct)
  case (run_message s n s' t s'')
  then have 1: "life_ok s'" "proto_inv (view s')" "pr_requested (view s')"
    "n + shutdown_work (view s') \<le> shutdown_work (view s)" by blast+
  then have d: "life_ok s''" "proto_deliver (view s') (view s'')"
    using life_message_refines [OF env 1(1,2) run_message.hyps(2)] by blast+
  note w = deliver_work [OF requested_opened [OF 1(2,3)] 1(3) d(2)]
  have "proto_inv (view s'')"
    using opened_deliver [OF requested_opened [OF 1(2,3)] d(2)] by (simp add: proto_inv_def)
  then show ?case using d(1) w 1(4) by simp
next
  case (run_other s n s' s'')
  then have 1: "life_ok s'" "proto_inv (view s')" "pr_requested (view s')"
    "n + shutdown_work (view s') \<le> shutdown_work (view s)" by blast+
  from life_other_refines [OF env 1(1) run_other.hyps(2)] show ?case
  proof (elim conjE disjE)
    assume "life_ok s''" "proto_signal (view s') (view s'')"
    moreover from this have "opened_inv (view s'')"
      using opened_step [OF requested_opened [OF 1(2,3)]] signalled by blast
    ultimately show ?thesis using 1 signal_work [of "view s'" "view s''"] by (simp add: proto_inv_def)
  qed (use 1 in simp)
qed simp

end
