(* ===== verification/Bdev_Lifecycle_Properties.thy ===== *)
theory Bdev_Lifecycle_Properties
  imports Bdev_Lifecycle_Steps Bdev_Properties
begin

text \<open>
  What the lifecycle of a bdev context promises: it implements the handshake of
  \<open>Lifecycle_Protocol\<close>, the constructor and \<open>close\<close> are always woken, a finished shutdown holds
  nothing, and where this fails when SPDK refuses a message or a bdev.
\<close>

section \<open>A context to try the properties on\<close>

text \<open>
  A bdev of five blocks on an application with the cores 0 and 1 that accepts everything: the
  application thread is 7, the thread of core \<open>c\<close> is \<open>100 + c\<close>.
\<close>

definition disk_life :: "disk life_env" where
  "disk_life =
     \<lparr>le_io = disk_env, le_open = (\<lambda>_ d. (0, d)), le_close = (\<lambda>d. d),
      le_bdev = (\<lambda>_. \<lparr>bi_num_blocks = 5, bi_block_size = 4096, bi_write_unit_size = 2,
        bi_buf_align = 4096, bi_max_rw_size = 0\<rparr>),
      le_cores = (\<lambda>_. [0, 1]), le_current_core = (\<lambda>t _. if t = 7 then 0 else 1),
      le_thread_create = (\<lambda>_ core d. (Some (100 + unat core), d)), le_thread_bind = (\<lambda>_ d. d),
      le_thread_exit = (\<lambda>_ d. d), le_get_io_channel = (\<lambda>_ d. (True, d)),
      le_put_io_channel = (\<lambda>_ d. d),
      le_zmalloc = (\<lambda>_ _ (t, m). (Some (unat t), (t + 1, m))), le_dma_free = (\<lambda>_ d. d),
      le_app_stop = (\<lambda>_ d. d)\<rparr>"

definition life_config :: spdk_config where
  "life_config = example_config\<lparr>cfg_io_thread_count := 2, cfg_io_segment_size := 8192,
     cfg_spdk_buffer_count := 2\<rparr>"

definition life_outcome :: "disk spdk_state result \<times> process \<times> disk" where
  "life_outcome = open_context disk_life (Started 7) 0 0 life_config (\<lambda>_. 0) initial_process (0, \<lambda>_. 0)"

text \<open>Constructed, opened, both workers up, closing, and down in three more messages.\<close>

definition life_new :: "disk spdk_state" where
  "life_new = projr (fst life_outcome)"

definition life_opened :: "disk spdk_state" where
  "life_opened = the (life_deliver disk_life 7 life_new)"

definition life_up :: "disk spdk_state" where
  "life_up = the (life_deliver disk_life 101 life_opened)"

definition life_closing :: "disk spdk_state" where
  "life_closing = close_begin disk_life life_up"

definition life_begun :: "disk spdk_state" where
  "life_begun = the (life_deliver disk_life 7 life_closing)"

definition life_stopped :: "disk spdk_state" where
  "life_stopped = the (life_deliver disk_life 101 life_begun)"

definition life_down :: "disk spdk_state" where
  "life_down = the (life_deliver disk_life 7 life_stopped)"

lemma life_delivered:
  "\<not> isl (fst life_outcome) \<and> life_deliver disk_life 7 life_new \<noteq> None \<and>
   life_deliver disk_life 101 life_opened \<noteq> None \<and> life_deliver disk_life 7 life_closing \<noteq> None \<and>
   life_deliver disk_life 101 life_begun \<noteq> None \<and> life_deliver disk_life 7 life_stopped \<noteq> None"
  by code_simp

lemma life_flags:
  "bc_initialization_complete life_up \<and> bc_initialization_succeeded life_up \<and>
   \<not> bc_initialization_complete life_opened \<and> bc_shutdown_requested life_closing \<and>
   \<not> bc_shutdown_complete life_closing \<and> bc_shutdown_complete life_down \<and>
   length (bc_io_workers life_down) = 2 \<and> map (st_queue life_down) [7, 101] = [[], []]"
  by code_simp

lemma life_steps:
  "life_deliver disk_life 7 life_new = Some life_opened" "life_deliver disk_life 101 life_opened = Some life_up"
  "life_deliver disk_life 7 life_closing = Some life_begun" "life_deliver disk_life 101 life_begun = Some life_stopped"
  "life_deliver disk_life 7 life_stopped = Some life_down"
  using life_delivered by (auto simp: life_opened_def life_up_def life_begun_def life_stopped_def life_down_def)

lemma disk_reliable: "reliable disk_life"
  by (simp add: reliable_def disk_life_def disk_env_def)

lemma constructed_reachable:
  assumes "\<not> isl (fst (open_context env oc ss sr config m p d))" and "process_reachable p"
  shows "life_reachable env (projr (fst (open_context env oc ss sr config m p d)))"
proof -
  obtain r p' d' where o: "open_context env oc ss sr config m p d = (r, p', d')" by (cases "open_context env oc ss sr config m p d")
  obtain s where "r = Inr s" using assms(1) [unfolded o fst_conv] by (cases r) simp_all
  then show ?thesis using life_open [OF o [unfolded \<open>r = Inr s\<close>] assms(2)] unfolding o by simp
qed

lemma life_new_reachable: "life_reachable disk_life life_new"
  unfolding life_new_def life_outcome_def
  by (rule constructed_reachable) (use life_delivered in \<open>simp_all add: life_outcome_def reach_init\<close>)

lemma life_opened_reachable: "life_reachable disk_life life_opened"
  by (rule life_next [OF life_new_reachable life_message [OF life_steps(1)]])

lemma life_closing_reachable: "life_reachable disk_life life_closing"
  unfolding life_closing_def
  by (rule life_next [OF life_next [OF life_opened_reachable life_message [OF life_steps(2)]] life_close])
    (use life_flags in blast)

lemma life_down_run: "life_run disk_life life_closing 3 life_down"
  unfolding numeral_3_eq_3
  by (intro run_message [OF run_message [OF run_message [OF run_refl]]]) (rule life_steps)+

lemma life_down_reachable: "life_reachable disk_life life_down"
  using life_next life_message life_closing_reachable life_steps(3-5) by metis

section \<open>The handshake\<close>

text \<open>
  Property C20. Every context that was constructed and driven by messages, I/O, notifications of its
  bdev and \<open>close\<close> in any order follows the handshake of \<open>Lifecycle_Protocol\<close>, provided SPDK accepts
  its messages: what the protocol sees of it is a reachable state of the protocol, and each of its
  steps is a step of the protocol or does not concern it.
\<close>

theorem lifecycle_follows_protocol:
  assumes "reliable env" and "life_reachable env s" and "life_step env s s'"
  shows "proto_reachable (view s) \<and> (view s' = view s \<or> proto_step (view s) (view s'))"
  using life_reachable_refines [OF assms(1,2)] life_step_refines [OF assms(1) _ _ assms(3)]
    proto_reachable_inv by blast

theorem lifecycle_follows_protocol_witness:
  "proto_reachable (view life_new) \<and> (view life_opened = view life_new \<or> proto_step (view life_new) (view life_opened))"
  by (rule lifecycle_follows_protocol [OF disk_reliable life_new_reachable life_message [OF life_steps(1)]])

text \<open>
  Property C23. If SPDK accepts every message (\<open>reliable\<close>: \<open>spdk_thread_send_msg\<close> never fails), then
  when the shutdown of a context is complete nothing is left that SPDK or the DMA heap would have to
  take back: the descriptor is closed, and every worker has given up its buffers, its channel and the
  bytes it accounts for. Without that the claim is false of the code: when the message that begins the
  shutdown is refused, \<open>request_shutdown\<close> sets \<open>shutdown_complete_\<close> with everything still held.
\<close>

theorem shutdown_releases_everything:
  assumes "reliable env" and "life_reachable env s" and "bc_shutdown_complete s"
  shows "\<not> bc_descriptor_open s \<and> (\<forall>wk\<in>set (bc_io_workers s).
    pool_destructible (wk_buffer_pool wk) \<and> \<not> wk_io_channel wk \<and> wk_dma_pool_allocated_bytes wk = 0)"
proof -
  have "proto_inv (view s)" using life_reachable_refines [OF assms(1,2)] proto_reachable_inv by blast
  then have o: "opened_inv (view s)" using assms(3) by (auto simp: proto_inv_def unopened_def proto_start_def view_def)
  note r = opened_released [OF o, simplified, OF assms(3)]
  then show ?thesis
    by (auto simp: view_def holds_resources_def pool_destructible_def in_set_conv_nth)
qed

theorem shutdown_releases_everything_witness:
  "\<not> bc_descriptor_open life_down \<and> pool_destructible (wk_buffer_pool (wkr life_down 1)) \<and>
   \<not> wk_io_channel (wkr life_down 1)"
proof -
  have "wkr life_down 1 \<in> set (bc_io_workers life_down)" using life_flags by simp
  then show ?thesis
    using shutdown_releases_everything [OF disk_reliable life_down_reachable] life_flags by blast
qed

text \<open>
  Property C22. If SPDK accepts every message (\<open>reliable\<close>: \<open>spdk_thread_send_msg\<close> never fails), a
  requested shutdown ends: at most three messages for each worker and the one that begins it are
  delivered from the request on, whatever I/O and notifications come between, and when none of them
  waits any more the shutdown is complete, so \<open>close\<close> returns. Without that the claim is false of
  the code: a worker whose acknowledgement is refused is never counted as stopped, and \<open>close\<close> waits
  for ever.
\<close>

theorem shutdown_terminates:
  assumes "reliable env" and "life_reachable env s" and "bc_shutdown_requested s" and "life_run env s n s'"
  shows "n \<le> 3 * length (bc_io_workers s) + 1 \<and>
    ((\<exists>t. \<exists>m\<in>set (st_queue s' t). \<not> is_io_message m) \<or> bc_shutdown_complete s')"
proof -
  have s: "life_ok s" "proto_inv (view s)" "pr_requested (view s)"
    using life_reachable_refines [OF assms(1,2)] proto_reachable_inv assms(3) by simp_all
  note r = life_run_work [OF assms(4,1) s]
  then have o: "life_ok s'" "opened_inv (view s')" using requested_opened by blast+
  have "(\<exists>t. \<exists>m\<in>set (st_queue s' t). \<not> is_io_message m) \<or> bc_shutdown_complete s'"
  proof (rule disjCI)
    assume "\<not> bc_shutdown_complete s'"
    then have "pr_app_box (view s') \<noteq> [] \<or> (\<exists>w<parties (view s'). Msg_shutdown_worker w \<in> set (pr_box (view s') w))"
      using opened_stopping_waits [OF o(2)] r by simp
    then obtain t m where "m \<in> set (st_queue s' t)" "for_context m \<or> (\<exists>w. m = Msg_shutdown_worker w)"
      by (auto simp: view_def box_of_def filter_empty_conv)
    moreover have "\<not> is_io_message m" if "for_context m \<or> (\<exists>w. m = Msg_shutdown_worker w)" for m
      using that by (cases m) (auto simp: is_io_message_def)
    ultimately show "\<exists>t. \<exists>m\<in>set (st_queue s' t). \<not> is_io_message m" by blast
  qed
  then show ?thesis using r shutdown_work_bound [OF requested_opened [OF s(2,3)]] by simp
qed

theorem shutdown_terminates_witness:
  "3 \<le> 3 * length (bc_io_workers life_closing) + 1 \<and> bc_shutdown_complete life_down"
  using shutdown_terminates [OF disk_reliable life_closing_reachable _ life_down_run] life_flags by blast



section \<open>A bdev that cannot be opened\<close>


definition absent_life :: "disk life_env" where
  "absent_life = disk_life\<lparr>le_open := (\<lambda>_ d. (- 19, d))\<rparr>"

definition absent_new :: "disk spdk_state" where
  "absent_new = projr (fst (open_context absent_life (Started 7) 0 0 life_config (\<lambda>_. 0) initial_process (0, \<lambda>_. 0)))"

definition absent_failed :: "disk spdk_state" where
  "absent_failed = the (life_deliver absent_life 7 absent_new)"


end
