(* ===== verification/Bdev_Lifecycle_Ready.thy ===== *)
theory Bdev_Lifecycle_Ready
  imports Bdev_Lifecycle_Properties
begin

text \<open>
  A context whose initialisation succeeds is ready in the sense of \<open>Bdev_System\<close>: every worker has a
  full, idle pool and nothing was submitted. The properties of the I/O path, which start from a ready
  context, therefore hold of every context the constructor returns.
\<close>

section \<open>An error is kept until initialisation is complete\<close>

definition erring :: "'d spdk_state \<Rightarrow> bool" where
  "erring s \<longleftrightarrow> bc_last_error s \<noteq> [] \<and> \<not> bc_initialization_succeeded s"

definition failing :: "'d spdk_state \<Rightarrow> bool" where
  "failing s \<longleftrightarrow> \<not> bc_initialization_succeeded s \<and> (bc_last_error s \<noteq> [] \<or> bc_initialization_complete s)"

lemma thread_send_fields [simp]:
  "bc_last_error (snd (thread_send_msg env t m s)) = bc_last_error s"
  "bc_initialization_succeeded (snd (thread_send_msg env t m s)) = bc_initialization_succeeded s"
  "bc_initialization_complete (snd (thread_send_msg env t m s)) = bc_initialization_complete s"
  by (simp_all add: thread_send_msg_def case_prod_unfold)

lemma runtime_post_fields [simp]:
  "bc_last_error (snd (runtime_post env t m rt s)) = bc_last_error s"
  "bc_initialization_succeeded (snd (runtime_post env t m rt s)) = bc_initialization_succeeded s"
  "bc_initialization_complete (snd (runtime_post env t m rt s)) = bc_initialization_complete s"
  by (simp_all add: runtime_post_def case_prod_unfold split: option.split)

lemma request_shutdown_fields:
  "bc_initialization_succeeded (request_shutdown env c e s) = bc_initialization_succeeded s"
  "bc_initialization_complete (request_shutdown env c e s) = bc_initialization_complete s"
  "bc_last_error s \<noteq> [] \<or> e \<noteq> [] \<Longrightarrow> bc_last_error (request_shutdown env c e s) \<noteq> []"
  by (auto simp: request_shutdown_def Let_def case_prod_unfold split: option.split sum.split)

lemma request_shutdown_erring: "erring s \<Longrightarrow> erring (request_shutdown env c e s)"
  by (simp add: erring_def request_shutdown_fields)

lemma worker_initialized_erring:
  assumes "\<not> bc_initialization_succeeded s" and "bc_last_error s \<noteq> [] \<or> e \<noteq> []"
  shows "erring (on_io_worker_initialized env e s)"
proof -
  define s1 where "s1 = (if e \<noteq> [] \<and> bc_last_error s = [] then s\<lparr>bc_last_error := e\<rparr> else s)"
  define s2 where "s2 = s1\<lparr>bc_workers_initializing := bc_workers_initializing s1 - 1\<rparr>"
  note shape = on_io_worker_initialized_def [of env e s, unfolded Let_def, folded s1_def, folded s2_def]
  have e2: "erring s2" using assms by (auto simp: s2_def s1_def erring_def)
  show ?thesis
  proof (cases "bc_workers_initializing s2 = 0")
    case True
    have "erring (s2\<lparr>bc_initialization_succeeded := False, bc_initialization_complete := True\<rparr>)"
      using e2 by (simp add: erring_def)
    then show ?thesis unfolding shape using True e2 by (simp add: erring_def request_shutdown_fields)
  qed (use e2 in \<open>simp add: shape\<close>)
qed

lemma release_pool_fields [simp]:
  "bc_last_error (release_worker_pool env w s) = bc_last_error s"
  "bc_initialization_succeeded (release_worker_pool env w s) = bc_initialization_succeeded s"
  by (simp_all add: release_worker_pool_def Let_def case_prod_unfold upd_worker_def upd_metrics_def)

lemma worker_shutdown_erring: "erring s \<Longrightarrow> erring (on_io_worker_shutdown env s)"
  by (simp add: on_io_worker_shutdown_def finish_shutdown_on_app_thread_def erring_def upd_metrics_def
      release_descriptor_on_app_thread_def outside_def Let_def)

lemma context_erring: "context_key s' = context_key s \<Longrightarrow> erring s' = erring s"
  by (simp add: erring_def context_key_def)

lemma shutdown_worker_erring:
  assumes "erring s"
  shows "erring (shutdown_io_worker env w s)"
proof -
  have parked: "erring (fail_parked w rs x) = erring x" for rs and x :: "'a spdk_state"
  proof (induction w rs x rule: fail_parked.induct)
    case (2 w r rs x)
    have "context_key (complete_request r False ''SPDK runtime is shutting down''
        (upd_worker w (wk_pending_io_update (\<lambda>_. rs)) x)) = context_key x" by (simp add: io_views)
    from context_erring [OF this] show ?case using 2 by (simp only: fail_parked.simps)
  qed simp
  have channel: "erring (put_worker_channel env w x) = erring x" for x
    by (simp add: put_worker_channel_def erring_def outside_def upd_worker_def)
  have pool: "erring (release_worker_pool env w x) = erring x" for x by (simp add: erring_def)
  have ack: "erring x \<Longrightarrow> erring (acknowledge_shutdown env w x)" for x
    by (simp add: acknowledge_shutdown_def erring_def outside_def case_prod_unfold Let_def
        worker_shutdown_erring [unfolded erring_def])
  show ?thesis using assms by (simp add: shutdown_io_worker_def Let_def parked channel pool ack worker_shutdown_erring)
qed

lemma dispatch_shutdown_erring: "erring s \<Longrightarrow> erring (dispatch_shutdown env ws s)"
proof (induction env ws s rule: dispatch_shutdown.induct)
  case (2 env w ws s)
  obtain c s1 where c: "thread_send_msg (le_io env) (wk_thread (wkr s w)) (Msg_shutdown_worker w) s = (c, s1)"
    by fastforce
  then have s1: "erring s1"
    using "2.prems" thread_send_fields [of "le_io env" "wk_thread (wkr s w)" "Msg_shutdown_worker w" s]
    by (simp add: erring_def)
  have "erring (upd_worker w (wk_io_channel_update (\<lambda>_. False)) (release_worker_pool env w s1))"
    using s1 by (simp add: erring_def upd_worker_def)
  from worker_shutdown_erring [OF this] s1 show ?case
    using "2.IH" by (simp add: c Let_def erring_def)
qed simp

lemma begin_shutdown_erring:
  assumes "erring s"
  shows "erring (begin_shutdown_on_app_thread env s)"
proof -
  have "erring (s\<lparr>bc_shutdown_started := True, bc_workers_shutting_down := k\<rparr>)" for k
    using assms by (simp add: erring_def)
  moreover have "erring x \<Longrightarrow> erring (finish_shutdown_on_app_thread env x)" for x
    by (simp add: finish_shutdown_on_app_thread_def erring_def upd_metrics_def
      release_descriptor_on_app_thread_def outside_def)
  ultimately show ?thesis
    using assms by (simp add: begin_shutdown_on_app_thread_def Let_def shutdown_worker_erring dispatch_shutdown_erring)
qed

section \<open>Coming up\<close>

text \<open>What no handler of the lifecycle touches while a context comes up.\<close>

definition io_state ::
  "'d spdk_state \<Rightarrow> io_request list \<times> io_batch list \<times> nat list \<times> bdev_io list \<times>
     (u64 \<times> u64 \<times> u64 \<times> u64 \<times> u64) \<times> nat list list \<times> bool list" where
  "io_state s = (st_requests s, st_batches s, st_waiting s, st_in_flight s, io_counts (bc_metrics s),
     pending_col s, draining_col s)"

definition nothing_submitted :: "'d spdk_state \<Rightarrow> bool" where
  "nothing_submitted s \<longleftrightarrow> st_requests s = [] \<and> st_batches s = [] \<and> st_waiting s = [] \<and> st_in_flight s = [] \<and>
     io_counts (bc_metrics s) = (0, 0, 0, 0, 0) \<and> (\<forall>ps\<in>set (pending_col s). ps = []) \<and>
     (\<forall>b\<in>set (draining_col s). \<not> b) \<and> (\<forall>t. \<forall>m\<in>set (st_queue s t). \<not> is_io_message m)"

definition coming_up :: "'d spdk_state \<Rightarrow> bool" where
  "coming_up s \<longleftrightarrow> nothing_submitted s \<and> \<not> bc_shutdown_requested s \<and> bc_last_error s = [] \<and>
     length (bc_io_workers s) < 2 ^ 64 \<and>
     (\<forall>w<length (bc_io_workers s). if w \<in> starting (view s) then pool_col s ! w = empty_pool
        else idle_pool (pool_col s ! w))"

lemma nothing_submitted_same:
  assumes "nothing_submitted s" and "io_state s' = io_state s"
    and "\<And>t m. m \<in> set (st_queue s' t) \<Longrightarrow> m \<in> set (st_queue s t) \<or> \<not> is_io_message m"
  shows "nothing_submitted s'"
  using assms unfolding nothing_submitted_def io_state_def prod.inject by metis

text \<open>A pool is initialised completely, or there is a text that says why not.\<close>

lemma pool_initialize_idle:
  assumes "pool_initialize zmalloc dma_free sz algn cnt empty_pool h = (r, p, h')"
  shows "case r of Inr _ \<Rightarrow> idle_pool p \<and> pool_size p = unat cnt \<and> unat sz * unat cnt < 2 ^ 64
    | Inl e \<Rightarrow> what e \<noteq> []"
proof (cases "pool_initialize_error sz algn cnt empty_pool")
  case (Some e)
  then have "what e \<noteq> []" by (auto simp: pool_initialize_error_def split: if_splits)
  then show ?thesis using assms Some by (auto simp: pool_initialize_def)
next
  case None
  let ?p1 = "empty_pool\<lparr>pool_buffer_size := sz, pool_buffer_alignment := algn,
    pool_in_use := replicate (unat cnt) 0\<rparr>"
  have c: "sz \<noteq> 0" "cnt \<noteq> 0" "\<not> cnt > u64_max div sz"
    using None by (auto simp: pool_initialize_error_def split: if_splits)
  then have bound: "unat sz * unat cnt < 2 ^ 64"
    using checked_multiply_iff [of sz cnt "[]"] by (simp add: checked_multiply_def split: if_splits)
  obtain p2 b h2 where loop: "zmalloc_loop zmalloc sz algn (unat cnt) ?p1 h = (p2, b, h2)"
    by (metis prod_cases3)
  obtain bs where p2: "p2 = ?p1\<lparr>pool_buffers := bs\<rparr>" "b \<longrightarrow> length bs = unat cnt"
    using zmalloc_loop_pool [OF loop] by (auto simp: empty_pool_def)
  show ?thesis
  proof (cases b)
    case True
    let ?p3 = "p2\<lparr>pool_free_indexes := rev [0..<unat cnt], pool_initialized := True\<rparr>"
    have eq: "pool_initialize zmalloc dma_free sz algn cnt empty_pool h = (Inr (), ?p3, h2)"
      using None loop True p2(1) by (simp add: pool_initialize_def empty_pool_def Let_def)
    have "pool_leased ?p3 = {}" by (auto simp: pool_leased_def p2(1))
    moreover have "0 < unat cnt" using c(2) by (simp add: unat_gt_0)
    ultimately have "idle_pool ?p3"
      using True p2 by (auto simp: idle_pool_def pool_ok_def pool_inv_def pool_size_def pool_available_def)
    then show ?thesis using assms bound True p2 unfolding eq by (auto simp: pool_size_def)
  next
    case False
    then show ?thesis
      using assms None loop by (auto simp: pool_initialize_def Let_def pool_release_all_def)
  qed
qed

lemma prepare_worker_ready:
  assumes p: "prepare_io_worker env cur w s = (e, s')"
  shows "context_key s' = context_key s \<and> io_state s' = io_state s \<and> st_queue s' = st_queue s"
    and "w < length (bc_io_workers s) \<Longrightarrow> pool_col s ! w = empty_pool \<Longrightarrow> (case e of Some msg \<Rightarrow> msg \<noteq> [] | None \<Rightarrow> (\<exists>q. idle_pool q \<and> pool_col s' = (pool_col s)[w := q]))"
proof -
  define s1 where "s1 = outside (le_thread_bind env (wk_thread (wkr s w))) s"
  obtain ch d where ch: "le_get_io_channel env (wk_thread (wkr s w)) (st_world s1) = (ch, d)" by fastforce
  define s2 where "s2 = upd_worker w (wk_io_channel_update (\<lambda>_. ch)) (s1\<lparr>st_world := d\<rparr>)"
  obtain r p d2 where r: "pool_initialize (le_zmalloc env) (le_dma_free env)
      (io_segment_size (bc_geometry s2)) (buffer_alignment (bc_geometry s2)) (spdk_buffer_count (bc_geometry s2))
      (wk_buffer_pool (wkr s2 w)) (st_world s2) = (r, p, d2)" by (metis prod_cases3)
  define s3 where "s3 = (upd_worker w (wk_buffer_pool_update (\<lambda>_. p)) s2)\<lparr>st_world := d2\<rparr>"
  note shape = prepare_io_worker_def [of env cur w s, unfolded Let_def, folded s1_def, unfolded ch prod.case,
    folded s2_def, unfolded r prod.case, folded s3_def]
  have same: "context_key s1 = context_key s" "io_state s1 = io_state s" "st_queue s1 = st_queue s"
    "pool_col s1 = pool_col s" "bc_io_workers s1 = bc_io_workers s"
    by (simp_all add: s1_def outside_def io_state_def io_views)
  have same2: "context_key s2 = context_key s" "io_state s2 = io_state s" "st_queue s2 = st_queue s"
    "pool_col s2 = pool_col s" "length (bc_io_workers s2) = length (bc_io_workers s)"
    using same by (simp_all add: s2_def io_state_def io_views)
  have same3: "context_key s3 = context_key s" "io_state s3 = io_state s" "st_queue s3 = st_queue s"
    "pool_col s3 = (pool_col s)[w := p]"
    using same2 by (simp_all add: s3_def io_state_def io_views)
  let ?f = "\<lambda>b. upd_worker w (wk_dma_pool_allocated_bytes_update (\<lambda>_. b)) (upd_metrics (\<lambda>m. m\<lparr>m_dma_buffer_pool_allocated_bytes :=
      m_dma_buffer_pool_allocated_bytes m + b\<rparr>) s3)"
  have same4: "context_key (?f b) = context_key s" "io_state (?f b) = io_state s" "st_queue (?f b) = st_queue s"
    "pool_col (?f b) = (pool_col s)[w := p]" for b
    using same3 by (simp_all add: io_state_def io_views) (simp add: io_counts_def)
  show "context_key s' = context_key s \<and> io_state s' = io_state s \<and> st_queue s' = st_queue s"
    using p same same2 same3 same4 unfolding shape by (auto split: if_splits sum.splits)
  assume w: "w < length (bc_io_workers s)" and pool: "pool_col s ! w = empty_pool"
  have "wk_buffer_pool (wkr s2 w) = empty_pool" using pool same2(4,5) w by (metis column_nth(5))
  note pi = pool_initialize_idle [OF r [unfolded this]]
  show "case e of Some msg \<Rightarrow> msg \<noteq> [] | None \<Rightarrow> (\<exists>q. idle_pool q \<and> pool_col s' = (pool_col s)[w := q])"
    using p pi same4 unfolding shape by (auto split: if_splits sum.splits)
qed

lemma key_fields:
  assumes "context_key s' = context_key s"
  shows "bc_last_error s' = bc_last_error s" and "bc_shutdown_requested s' = bc_shutdown_requested s"
    and "bc_initialization_complete s' = bc_initialization_complete s"
    and "bc_initialization_succeeded s' = bc_initialization_succeeded s"
    and "bc_workers_initializing s' = bc_workers_initializing s"
  using assms by (simp_all add: context_key_def)

definition worker_came_up :: "nat \<Rightarrow> 'd spdk_state \<Rightarrow> 'd spdk_state \<Rightarrow> bool" where
  "worker_came_up w s s' \<longleftrightarrow> io_state s' = io_state s \<and> st_queue s' = st_queue s \<and>
     bc_last_error s' = [] \<and> \<not> bc_shutdown_requested s' \<and>
     bc_initialization_succeeded s' = bc_initialization_complete s' \<and>
     (\<exists>q. idle_pool q \<and> pool_col s' = (pool_col s)[w := q])"

lemma worker_ready:
  assumes w: "w < length (bc_io_workers s)" and pool: "pool_col s ! w = empty_pool"
    and s: "bc_last_error s = []" "\<not> bc_shutdown_requested s" "\<not> bc_initialization_succeeded s"
      "\<not> bc_initialization_complete s"
  shows "failing (initialize_io_worker env cur w s) \<or> worker_came_up w s (initialize_io_worker env cur w s)"
proof -
  obtain e s1 where p: "prepare_io_worker env cur w s = (e, s1)" by fastforce
  note r = prepare_worker_ready(1) [OF p] prepare_worker_ready(2) [OF p w pool]
  note k = key_fields [OF conjunct1 [OF r(1)], unfolded s]
  have eq: "initialize_io_worker env cur w s =
      on_io_worker_initialized env (case e of None \<Rightarrow> [] | Some e \<Rightarrow> e) s1"
    by (simp add: initialize_io_worker_def p)
  show ?thesis
  proof (cases e)
    case (Some msg)
    then have "erring (on_io_worker_initialized env msg s1)"
      using r k s by (intro worker_initialized_erring) simp_all
    then show ?thesis using Some eq by (simp add: failing_def erring_def)
  next
    case None
    define s2 where "s2 = s1\<lparr>bc_workers_initializing := bc_workers_initializing s1 - 1\<rparr>"
    have k2: "bc_last_error s2 = []" "\<not> bc_shutdown_requested s2" "\<not> bc_initialization_succeeded s2"
      "\<not> bc_initialization_complete s2" using k s by (simp_all add: s2_def)
    have eq2: "on_io_worker_initialized env [] s1 = (if bc_workers_initializing s2 \<noteq> 0 then s2
        else s2\<lparr>bc_initialization_succeeded := True, bc_initialization_complete := True\<rparr>)"
      using k2(1) unfolding s2_def by (simp add: on_io_worker_initialized_def Let_def)
    obtain q where q: "idle_pool q" "pool_col s1 = (pool_col s)[w := q]" using r None by auto
    have f: "io_state s2 = io_state s" "st_queue s2 = st_queue s" "pool_col s2 = (pool_col s)[w := q]"
      using r q by (simp_all add: s2_def io_state_def column_defs)
    then have "worker_came_up w s s2" using q k2 by (auto simp: worker_came_up_def)
    moreover have "worker_came_up w s (s2\<lparr>bc_initialization_succeeded := True, bc_initialization_complete := True\<rparr>)"
      using f q(1) k2 by (auto simp: worker_came_up_def io_state_def column_defs)
    ultimately show ?thesis using eq eq2 None by simp
  qed
qed

lemma initialize_erring:
  assumes "erring s"
  shows "erring (initialize_io_worker env cur w s)"
proof -
  obtain e s1 where p: "prepare_io_worker env cur w s = (e, s1)" by fastforce
  have "erring s1" using context_erring [OF conjunct1 [OF prepare_worker_ready(1) [OF p]]] assms by simp
  then show ?thesis
    using worker_initialized_erring [of s1 _ env] by (simp add: initialize_io_worker_def p erring_def)
qed

lemma dispatch_initialize_shape:
  assumes "reliable env"
  shows "\<exists>q d. dispatch_initialize env ws s = s\<lparr>st_queue := q, st_world := d\<rparr> \<and>
    (\<forall>t. \<forall>m\<in>set (q t). m \<in> set (st_queue s t) \<or> \<not> is_io_message m)"
proof (induction ws arbitrary: s)
  case Nil
  show ?case by (intro exI [of _ "st_queue s"] exI [of _ "st_world s"]) simp
next
  case (Cons w ws)
  obtain d where d: "thread_send_msg (le_io env) (wk_thread (wkr s w)) (Msg_initialize_worker w) s =
      (0, posted (wk_thread (wkr s w)) (Msg_initialize_worker w) (s\<lparr>st_world := d\<rparr>))"
    by (rule send_reliable [OF assms])
  let ?s1 = "posted (wk_thread (wkr s w)) (Msg_initialize_worker w) (s\<lparr>st_world := d\<rparr>)"
  have 1: "?s1 = s\<lparr>st_queue := st_queue ?s1, st_world := d\<rparr>" by (simp add: posted_def)
  obtain q d1 where q: "dispatch_initialize env ws ?s1 = ?s1\<lparr>st_queue := q, st_world := d1\<rparr>"
    "\<forall>t. \<forall>m\<in>set (q t). m \<in> set (st_queue ?s1 t) \<or> \<not> is_io_message m" using Cons by blast
  have "dispatch_initialize env (w # ws) s = s\<lparr>st_queue := q, st_world := d1\<rparr>"
    using q(1) d by (simp add: posted_def)
  moreover have "m \<in> set (st_queue s t) \<or> \<not> is_io_message m" if "m \<in> set (q t)" for t m
    using q(2) that by (fastforce simp: posted_def is_io_message_def split: if_splits)
  ultimately show ?case by blast
qed

text \<open>
  The message that opens the bdev fails, or leaves workers with empty pools, of which it initialises
  worker 0.
\<close>

lemma open_ready:
  fixes env :: "'d life_env" and s :: "'d spdk_state"
  assumes env: "reliable env" and ok: "life_ok s" and nw: "bc_io_workers s = []"
  shows "failing (on_runtime_ready env cur s) \<or> (\<exists>n s3. 0 < n \<and> n < 2 ^ 64 \<and>
      on_runtime_ready env cur s = initialize_io_worker env cur 0 s3 \<and> pool_col s3 = replicate n empty_pool \<and>
      (nothing_submitted s \<longrightarrow> nothing_submitted s3) \<and>
      bc_last_error s3 = bc_last_error s \<and> bc_shutdown_requested s3 = bc_shutdown_requested s \<and>
      bc_initialization_succeeded s3 = bc_initialization_succeeded s \<and>
      bc_initialization_complete s3 = bc_initialization_complete s)"
proof -
  obtain a where a: "bc_app_thread s = Some a" using life_ok_app [OF ok] by blast
  have threads: "cfg_io_thread_count (bc_config s) \<noteq> 0" using ok by (simp add: life_ok_def)
  obtain rc d where o: "le_open env (cfg_bdev_name (bc_config s)) (st_world s) = (rc, d)" by fastforce
  have fail: "failing (request_shutdown env c [] (publish_initialization_failure e x))" for c e and x :: "'d spdk_state"
    by (simp add: failing_def request_shutdown_fields publish_initialization_failure_def)
  obtain r s1 where ow: "open_workers env cur (s\<lparr>st_world := d, bc_descriptor_open := True\<rparr>) = (r, s1)"
    by fastforce
  show ?thesis
  proof (cases "rc = 0 \<and> r = Inr ()")
    case False
    then show ?thesis using fail o a ow by (cases r) (auto simp: on_runtime_ready_def)
  next
    case True
    obtain wks d1 g where s1: "s1 = s\<lparr>bc_descriptor_open := True, bc_io_workers := wks, bc_geometry := g, st_world := d1\<rparr>"
      and fresh: "\<forall>w<length wks. fresh_worker a w (wks ! w)" and ne: "wks \<noteq> []" "length wks < 2 ^ 64"
      by (rule open_workers_shape [OF ow nw a threads]) (use True in simp)
    define s2 where "s2 = s1\<lparr>bc_workers_initializing := length (bc_io_workers s1)\<rparr>"
    obtain q d2 where q: "dispatch_initialize env [1..<length (bc_io_workers s2)] s2 = s2\<lparr>st_queue := q, st_world := d2\<rparr>"
      "\<forall>t. \<forall>m\<in>set (q t). m \<in> set (st_queue s2 t) \<or> \<not> is_io_message m"
      using dispatch_initialize_shape [OF env] by blast
    define s3 where "s3 = s2\<lparr>st_queue := q, st_world := d2\<rparr>"
    have eq: "on_runtime_ready env cur s = initialize_io_worker env cur 0 s3"
      unfolding on_runtime_ready_def using True o a ow q(1) by (simp add: Let_def s2_def s3_def)
    have wk: "wk_buffer_pool (wks ! w) = empty_pool \<and> wk_pending_io (wks ! w) = [] \<and>
        \<not> wk_draining_pending_io (wks ! w)" if w: "w < length wks" for w
    proof -
      obtain core t where "wks ! w = new_io_worker w core t (w \<noteq> 0)"
        using fresh w unfolding fresh_worker_def by blast
      then show ?thesis by (simp add: new_io_worker_def)
    qed
    have "bc_io_workers s3 = wks" by (simp add: s3_def s2_def s1)
    moreover have "map wk_buffer_pool wks = replicate (length wks) empty_pool"
      "map wk_pending_io wks = replicate (length wks) []" "map wk_draining_pending_io wks = replicate (length wks) False"
      using wk by (auto intro!: nth_equalityI)
    ultimately have cols: "pool_col s3 = replicate (length wks) empty_pool" "pending_col s3 = replicate (length wks) []"
      "draining_col s3 = replicate (length wks) False"
      by (simp_all only: column_defs)
    have same: "st_requests s3 = st_requests s" "st_batches s3 = st_batches s" "st_waiting s3 = st_waiting s"
      "st_in_flight s3 = st_in_flight s" "bc_metrics s3 = bc_metrics s" "st_queue s3 = q" "st_queue s2 = st_queue s"
      by (simp_all add: s3_def s2_def s1)
    have "nothing_submitted s3" if ns: "nothing_submitted s"
    proof -
      have "\<forall>t. \<forall>m\<in>set (q t). \<not> is_io_message m"
        using q(2) ns unfolding same nothing_submitted_def by blast
      then show ?thesis using ns unfolding nothing_submitted_def same cols(2,3) by simp
    qed
    moreover have "bc_last_error s3 = bc_last_error s" "bc_shutdown_requested s3 = bc_shutdown_requested s"
      "bc_initialization_succeeded s3 = bc_initialization_succeeded s"
      "bc_initialization_complete s3 = bc_initialization_complete s"
      by (simp_all add: s3_def s2_def s1)
    ultimately show ?thesis
      using ne cols(1) eq by (intro disjI2 exI [of _ "length wks"] exI [of _ s3] conjI) simp_all
  qed
qed

section \<open>Every context\<close>

definition up_inv :: "'d spdk_state \<Rightarrow> bool" where
  "up_inv s \<longleftrightarrow> bc_initialization_complete s \<or>
     \<not> bc_initialization_succeeded s \<and> (bc_last_error s \<noteq> [] \<or> coming_up s)"

text \<open>A step keeps it, and when the step completes the initialisation successfully all workers are up.\<close>

definition up_step :: "'d spdk_state \<Rightarrow> bool" where
  "up_step s' \<longleftrightarrow> up_inv s' \<and> (bc_initialization_succeeded s' \<longrightarrow> coming_up s')"

lemma failing_up: "failing s \<Longrightarrow> up_step s"
  by (auto simp: failing_def up_step_def up_inv_def)

lemma erring_up: "erring s \<Longrightarrow> up_step s"
  by (auto simp: erring_def up_step_def up_inv_def)

lemma came_up_step:
  assumes "worker_came_up w s s'" and "nothing_submitted s" and "w < length (bc_io_workers s)"
    and "length (bc_io_workers s) < 2 ^ 64"
    and "\<And>v. v < length (bc_io_workers s) \<Longrightarrow> v \<noteq> w \<Longrightarrow>
      if v \<in> starting (view s') then pool_col s ! v = empty_pool else idle_pool (pool_col s ! v)"
    and "w \<notin> starting (view s')"
  shows "up_step s'"
proof -
  obtain q where q: "idle_pool q" "pool_col s' = (pool_col s)[w := q]"
    using assms(1) by (auto simp: worker_came_up_def)
  have l: "length (bc_io_workers s') = length (bc_io_workers s)"
    using arg_cong [OF q(2), of length] by simp
  have "nothing_submitted s'"
    using assms(1) by (intro nothing_submitted_same [OF assms(2)]) (simp_all add: worker_came_up_def)
  moreover have "if v \<in> starting (view s') then pool_col s' ! v = empty_pool else idle_pool (pool_col s' ! v)"
    if "v < length (bc_io_workers s')" for v
    using assms(3,5,6) that q l by (cases "v = w") auto
  ultimately have "coming_up s'" using assms(1,4) l by (simp add: coming_up_def worker_came_up_def)
  then show ?thesis using assms(1) by (auto simp: up_step_def up_inv_def worker_came_up_def)
qed

lemma popped_submitted:
  assumes "nothing_submitted s" and "st_queue s t = m # rest"
  shows "nothing_submitted (s\<lparr>st_queue := (st_queue s)(t := rest)\<rparr>)"
proof (rule nothing_submitted_same [OF assms(1)])
  show "m' \<in> set (st_queue (s\<lparr>st_queue := (st_queue s)(t := rest)\<rparr>) u) \<Longrightarrow>
      m' \<in> set (st_queue s u) \<or> \<not> is_io_message m'" for m' u
    using assms(2) by (auto split: if_splits)
qed (simp add: io_state_def column_defs)

lemma deliver_start:
  assumes ok: "life_ok s" and inv: "proto_inv (view s)" and q: "st_queue s t = Msg_open # rest"
  defines "s1 \<equiv> s\<lparr>st_queue := (st_queue s)(t := rest)\<rparr>"
  shows "life_ok s1" and "bc_io_workers s1 = []" and "view s = proto_start"
    and "view s1 = proto_start\<lparr>pr_app_box := []\<rparr>"
proof -
  note d = deliver_context [OF ok q, folded s1_def, simplified]
  show "life_ok s1" by (rule d)
  have start: "view s = proto_start" "filter for_context rest = []" using view_starts [OF inv d(2)] by simp_all
  then have "length (bc_io_workers s1) = 0" using view_fields(10) [of s] by (simp add: s1_def proto_start_def)
  then show "bc_io_workers s1 = []" by simp
  show "view s = proto_start" "view s1 = proto_start\<lparr>pr_app_box := []\<rparr>" using start d(3) by simp_all
qed

lemma opened_idle:
  assumes "proto_inv p" and "\<not> pr_requested p"
  shows "pr_app_box p = [] \<or> pr_app_box p = [Msg_open]"
  using assms by (auto simp: proto_inv_def unopened_def proto_start_def opened_inv_def)

lemma unstarted_box:
  assumes "proto_inv p" and "\<not> pr_requested p"
  shows "pr_box p w = [] \<or> pr_box p w = [Msg_initialize_worker w] \<and> 0 < w \<and> w < parties p"
proof (cases "unopened p")
  case False
  then have "opened_inv p" using assms(1) by (simp add: proto_inv_def)
  then show ?thesis using assms(2) boxes_okD [of p w] by (auto simp: opened_inv_def box_ok_def split: if_splits)
qed (simp add: unopened_def proto_start_def)

lemma message_up:
  fixes env :: "'d life_env" and s :: "'d spdk_state"
  assumes env: "reliable env" and ok: "life_ok s" and inv: "proto_inv (view s)"
    and up: "up_inv s" and nc: "\<not> bc_initialization_complete s" and d: "life_deliver env t s = Some s'"
  shows "up_step s'"
proof -
  obtain m rest where q: "st_queue s t = m # rest"
    using d by (cases "st_queue s t") (simp_all add: life_deliver_def)
  define s1 where "s1 = s\<lparr>st_queue := (st_queue s)(t := rest)\<rparr>"
  have ns: "\<not> bc_initialization_succeeded s" using up nc by (simp add: up_inv_def)
  show ?thesis
  proof (cases "bc_last_error s = []")
    case False
    have e1: "erring s1" using False ns by (simp add: s1_def erring_def)
    have "failing s' \<or> erring s'"
    proof (cases m)
      case Msg_open
      then have s': "s' = on_runtime_ready env t s1" using d q by (simp add: life_deliver_def s1_def)
      have nw: "bc_io_workers s1 = []" and ok1: "life_ok s1"
        using deliver_start [OF ok inv, of t rest] q Msg_open by (simp_all add: s1_def)
      show ?thesis
        using open_ready [OF env ok1 nw, of t] initialize_erring e1 unfolding s' erring_def by metis
    qed (use d q e1 in \<open>auto simp: life_deliver_def Let_def s1_def [symmetric] initialize_erring
        begin_shutdown_erring shutdown_worker_erring worker_shutdown_erring\<close>)
    then show ?thesis using failing_up erring_up by blast
  next
    case True
    then have cu: "coming_up s" using up nc by (simp add: up_inv_def)
    note f = True ns nc cu [unfolded coming_up_def]
    have f1: "bc_last_error s1 = []" "\<not> bc_shutdown_requested s1" "\<not> bc_initialization_succeeded s1"
      "\<not> bc_initialization_complete s1" "length (bc_io_workers s1) = length (bc_io_workers s)"
      "pool_col s1 = pool_col s"
      using f by (simp_all add: s1_def column_defs)
    have n1: "nothing_submitted s1" unfolding s1_def using popped_submitted [OF _ q] f by blast
    have nreq: "\<not> pr_requested (view s)" using f by simp
    have ctx: "m = Msg_open" if "for_context m"
      using opened_idle [OF inv nreq] deliver_context(2) [OF ok q that] by fastforce
    have abt: "m = Msg_initialize_worker w" if "about w m" for w
      using unstarted_box [OF inv nreq, of w] deliver_worker(3) [OF ok q that] by fastforce
    show ?thesis
    proof (cases m)
      case Msg_open
      then have s': "s' = on_runtime_ready env t s1" using d q by (simp add: life_deliver_def s1_def)
      note st = deliver_start [OF ok inv q [unfolded Msg_open], folded s1_def]
      from open_ready [OF env st(1,2), of t] show ?thesis
      proof (elim disjE exE conjE)
        assume "failing (on_runtime_ready env t s1)"
        then show ?thesis using failing_up s' by simp
      next
        fix n s3
        assume n: "0 < n" "n < 2 ^ 64" and eq: "on_runtime_ready env t s1 = initialize_io_worker env t 0 s3"
          and p3: "pool_col s3 = replicate n empty_pool" and n3: "nothing_submitted s1 \<longrightarrow> nothing_submitted s3"
          and k3: "bc_last_error s3 = bc_last_error s1" "bc_shutdown_requested s3 = bc_shutdown_requested s1"
            "bc_initialization_succeeded s3 = bc_initialization_succeeded s1"
            "bc_initialization_complete s3 = bc_initialization_complete s1"
        have l3: "length (bc_io_workers s3) = n" using arg_cong [OF p3, of length] by simp
        have "failing s' \<or> worker_came_up 0 s3 s'"
          unfolding s' eq using n(1) l3 p3 k3 f1 by (intro worker_ready) simp_all
        then show ?thesis
        proof
          assume cu: "worker_came_up 0 s3 s'"
          have l: "length (bc_io_workers s') = n"
          proof -
            obtain p where "pool_col s' = (pool_col s3)[0 := p]" using cu by (auto simp: worker_came_up_def)
            from arg_cong [OF this, of length] show ?thesis using l3 by simp
          qed
          have none: "\<forall>t. \<forall>m\<in>set (st_queue s1 t). \<forall>w. \<not> about w m"
            using st(1,2) by (fastforce simp: life_ok_def routed_message_def)
          show ?thesis
            using on_runtime_ready_refines [OF env st(1,2) none, of t] unfolding s' [symmetric]
          proof (elim conjE disjE exE)
            fix n' b h assume "0 < n'" and v: "view s' = p_worker_up b (set_holds 0 h (post_each Msg_initialize_worker [1..<n']
              ((fresh_parties n' (view s1))\<lparr>pr_initializing := n'\<rparr>)))"
            have "parties (view s') = n'" unfolding v by (simp add: p_worker_up_def p_request_def
              post_app_def set_holds_def post_each_def fresh_parties_def Let_def)
            then have "n' = n" using l by simp
            then have "starting (view s') = {1..<n}"
              unfolding v st(4) starting_up starting_set_holds
              by (auto simp: starting_def post_each_def fresh_parties_def proto_start_def)
            then show ?thesis
              using n p3 l3 n3 n1 by (intro came_up_step [OF cu]) auto
          next
            assume "view s' = p_fail_open (view s1)"
            then have "pr_initialized (view s') \<and> \<not> pr_succeeded (view s')"
              by (simp add: p_fail_open_def p_request_def post_app_def)
            then show ?thesis by (intro failing_up) (simp add: failing_def)
          next
            fix n' assume "view s' = p_fail_open (fresh_parties n' (view s1))"
            then have "pr_initialized (view s') \<and> \<not> pr_succeeded (view s')"
              by (simp add: p_fail_open_def p_request_def post_app_def)
            then show ?thesis by (intro failing_up) (simp add: failing_def)
          qed
        qed (rule failing_up)
      qed
    next
      case (Msg_initialize_worker w)
      then have ab: "about w m" by simp
      have s': "s' = initialize_io_worker env t w s1" using d q Msg_initialize_worker by (simp add: life_deliver_def s1_def)
      note dw = deliver_worker [OF ok q ab, folded s1_def]
      have w: "w < length (bc_io_workers s1)" using dw(2) f1(5) by simp
      have box: "pr_box (view s) w = Msg_initialize_worker w # filter (about w) rest"
        using dw(3) Msg_initialize_worker by simp
      have bok: "box_ok (view s) w"
        using unstarted_box [OF inv nreq, of w] box boxes_okD by (auto simp: box_ok_def)
      have sw: "w \<in> starting (view s)" using box dw(2) by (simp add: starting_def)
      have st1: "starting (view s1) = starting (view s) - {w}"
        unfolding dw(4) by (rule starting_pop [OF bok box])
      obtain h b where "refines_to s1 s' (\<lambda>p. p_worker_up b (set_holds w h p))"
        using initialize_io_worker_refines [OF env dw(1) w] unfolding s' by blast
      then have st': "starting (view s') = starting (view s) - {w}" using st1 by (simp add: refines_to_def)
      have pools: "if v \<in> starting (view s) then pool_col s1 ! v = empty_pool else idle_pool (pool_col s1 ! v)"
        if "v < length (bc_io_workers s1)" for v
        using f f1(5,6) that by simp
      have "failing s' \<or> worker_came_up w s1 s'"
        unfolding s' using w f1 pools [OF w] sw by (intro worker_ready) simp_all
      then show ?thesis
      proof
        assume cu: "worker_came_up w s1 s'"
        show ?thesis
          by (rule came_up_step [OF cu n1 w]) (use pools st' f f1(5) in auto)
      qed (rule failing_up)
    qed (use d q ctx abt in \<open>simp_all add: life_deliver_def Let_def\<close>)
  qed
qed

lemma coming_up_cong:
  assumes "coming_up s" and "io_state s' = io_state s" and "context_key s' = context_key s"
    and "st_queue s' = st_queue s" and "pool_col s' = pool_col s" and "view s' = view s"
  shows "coming_up s'"
proof -
  have "length (bc_io_workers s') = length (bc_io_workers s)" using arg_cong [OF assms(5), of length] by simp
  moreover have "nothing_submitted s'"
    using assms(1) by (intro nothing_submitted_same [OF _ assms(2)]) (simp_all add: coming_up_def assms(4))
  ultimately show ?thesis
    using assms(1) key_fields(1,2) [OF assms(3)] by (simp add: coming_up_def assms(5,6))
qed

text \<open>No I/O is done before the initialisation is complete.\<close>

lemma no_event:
  assumes "nothing_submitted s"
  shows "handle_event env e s = None"
proof (cases e)
  case (Ev_deliver w)
  have "\<not> is_io_message m" if "st_queue s t = m # ms" for t m ms
    using assms that unfolding nothing_submitted_def by (metis list.set_intros(1))
  then show ?thesis using Ev_deliver
    by (auto simp: deliver_message_def is_io_message_def Let_def split: list.splits spdk_message.splits)
      (metis spdk_message.simps)+
qed (use assms in \<open>simp_all add: nothing_submitted_def\<close>)

lemma io_up:
  assumes up: "up_inv s" and nc: "\<not> bc_initialization_complete s" and step: "io_step env s s'"
  shows "up_step s'"
proof -
  have ns: "\<not> bc_initialization_succeeded s" using up nc by (simp add: up_inv_def)
  have keep: "up_step s" using up ns by (simp add: up_step_def)
  have key: "s' = s \<or> context_key s' = context_key s \<and> (bc_last_error s \<noteq> [] \<or>
      io_state s' = io_state s \<and> st_queue s' = st_queue s \<and> pool_col s' = pool_col s)"
    using step
  proof (cases rule: io_step.cases)
    case step_submit
    then show ?thesis using ns by (auto simp: submit_batch_def split: if_splits)
  next
    case (step_event e)
    then have "context_key s' = context_key s" by (rule event_context)
    moreover have "\<not> nothing_submitted s" using step_event no_event [of s "env" e] by auto
    then have "bc_last_error s \<noteq> []" using up nc by (auto simp: up_inv_def coming_up_def)
    ultimately show ?thesis by blast
  next
    case step_outside
    then show ?thesis by (simp add: context_key_def io_state_def column_defs)
  qed
  have v: "view s' = view s" by (rule io_step_refines(1) [OF step])
  from key show ?thesis
  proof (elim disjE conjE)
    assume k: "context_key s' = context_key s" and "bc_last_error s \<noteq> []"
    then show ?thesis using erring_up context_erring [OF k] ns by (simp add: erring_def)
  next
    assume k: "context_key s' = context_key s" and "io_state s' = io_state s" "st_queue s' = st_queue s"
      "pool_col s' = pool_col s"
    then have "coming_up s \<Longrightarrow> coming_up s'" using coming_up_cong v by blast
    then show ?thesis using key_fields [OF k] up nc ns by (auto simp: up_step_def up_inv_def)
  qed (use keep in simp)
qed

lemma step_up:
  assumes env: "reliable env" and ok: "life_ok s" and inv: "proto_inv (view s)"
    and up: "up_inv s" and nc: "\<not> bc_initialization_complete s" and step: "life_step env s s'"
  shows "up_step s'"
  using step
proof (cases rule: life_step.cases)
  case (life_event e)
  have ns: "\<not> bc_initialization_succeeded s" using up nc by (simp add: up_inv_def)
  show ?thesis
  proof (cases "s' = s")
    case True
    then show ?thesis using up ns by (simp add: up_step_def)
  next
    case False
    then have "\<exists>c msg. msg \<noteq> [] \<and> s' = request_shutdown env c msg s"
      using life_event(1) by (cases e) (auto simp: on_bdev_event_def intro!: exI)
    then have "erring s'" using ns by (auto simp: erring_def request_shutdown_fields)
    then show ?thesis by (rule erring_up)
  qed
qed (use message_up [OF env ok inv up nc] io_up [OF up nc] nc in auto)

lemma life_reachable_up:
  assumes env: "reliable env" and r: "life_reachable env s"
  shows "up_inv s"
  using r
proof (induction rule: life_reachable.induct)
  case (life_open outcome stop_send stop_return config m p d s p' d')
  obtain rt a d1 where s: "s = posted a Msg_open ((new_context config (bc_structured_events s) m d1)
      \<lparr>bc_runtime := Some rt, bc_bdev_claimed := True, bc_app_thread := Some a\<rparr>)"
    by (rule open_context_shape [OF life_open(1)])
  have "coming_up s"
    by (subst s) (auto simp: coming_up_def nothing_submitted_def posted_def new_context_def column_defs
        zero_metrics_def io_counts_def is_io_message_def)
  moreover have "\<not> bc_initialization_succeeded s" by (subst s) (simp add: posted_def new_context_def)
  ultimately show ?case by (simp add: up_inv_def)
next
  case (life_next s s')
  then have s: "life_ok s" "proto_inv (view s)"
    using life_reachable_refines [OF env] proto_reachable_inv by blast+
  show ?case
  proof (cases "bc_initialization_complete s")
    case True
    have "view s' = view s \<or> proto_step (view s) (view s')"
      using life_step_refines [OF env s life_next.hyps(2)] by blast
    then have "pr_initialized (view s')" using initialized_step True by fastforce
    then show ?thesis by (simp add: up_inv_def)
  next
    case False
    then show ?thesis using step_up [OF env s life_next.IH _ life_next.hyps(2)] by (simp add: up_step_def)
  qed
qed

text \<open>When all workers are up no message is under way.\<close>

lemma all_up_ready:
  assumes ok: "life_ok s" and inv: "proto_inv (view s)" and cu: "coming_up s"
    and complete: "bc_initialization_complete s" and threads: "distinct (map wk_thread (bc_io_workers s))"
  shows "ready_context s"
proof -
  note c = cu [unfolded coming_up_def nothing_submitted_def]
  have nreq: "\<not> pr_requested (view s)" using c by simp
  have "\<not> unopened (view s)" using complete by (auto simp: unopened_def proto_start_def view_def)
  then have o: "opened_inv (view s)" using inv by (simp add: proto_inv_def)
  then have "pr_initializing (view s) = card (starting (view s))" "pr_initialized (view s) = (pr_initializing (view s) = 0)"
    unfolding opened_inv_def by blast+
  then have "card (starting (view s)) = 0" using complete by simp
  then have st: "starting (view s) = {}" by simp
  have app: "pr_app_box (view s) = []" using opened_idle [OF inv nreq] opened_app_head [OF o] by fastforce
  have box: "pr_box (view s) w = []" for w
    using unstarted_box [OF inv nreq, of w] st by (auto simp: starting_def)
  have queue: "st_queue s t = []" for t
  proof (cases "st_queue s t")
    case (Cons m rest)
    then have m: "\<not> is_io_message m" using c by (metis list.set_intros(1))
    have "\<not> for_context m" using deliver_context(2) [OF ok Cons] app by auto
    moreover have "\<not> about w m" for w using deliver_worker(3) [OF ok Cons] box by auto
    ultimately show ?thesis using m by (cases m) (auto simp: is_io_message_def)
  qed
  have "idle_pool (wk_buffer_pool (wkr s w)) \<and> wk_pending_io (wkr s w) = [] \<and> \<not> wk_draining_pending_io (wkr s w)"
    if "w < length (bc_io_workers s)" for w
  proof -
    have "wk_pending_io (wkr s w) \<in> set (pending_col s)" "wk_draining_pending_io (wkr s w) \<in> set (draining_col s)"
      using that by (simp_all add: column_defs)
    then show ?thesis using c st that by (simp add: column_nth) blast
  qed
  then show ?thesis using c queue threads by (simp add: ready_context_def)
qed



end
