(* ===== verification/Bdev_Workers.thy ===== *)
theory Bdev_Workers
  imports Bdev_Lifecycle_Properties
begin

text \<open>
  The workers of a context: how many are created, on which cores and threads, and that no handler
  changes them afterwards. Opening the bdev is the only step that makes workers.
\<close>

section \<open>What the geometry asks for\<close>

lemma built_cores:
  assumes "build_storage_geometry nb bs wub align seg mrw buffers = Inr g"
  shows "spdk_reactor_cores g = []"
  using assms by (auto simp: build_storage_geometry_def finish_geometry_def default_geometry_def Let_def
      split: if_splits sum.splits)

lemma discovered_cores:
  assumes d: "discover_geometry config bdev cores app_core g0 = (Inr (), g)"
    and cores: "length cores < 2 ^ 64" "distinct cores"
  shows "length (spdk_io_cores g) = unat (cfg_io_thread_count config)" and "distinct (spdk_io_cores g)"
    and "set (spdk_io_cores g) \<subseteq> set cores"
    and "cfg_io_thread_count config \<noteq> 0 \<Longrightarrow> hd (spdk_io_cores g) = app_core"
    and "cfg_io_thread_count config \<noteq> 0 \<Longrightarrow> unat (total_spdk_buffer_count g) =
      unat (cfg_spdk_buffer_count config) * unat (cfg_io_thread_count config)"
proof -
  let ?n = "cfg_io_thread_count config" and ?b = "cfg_spdk_buffer_count config"
  obtain g1 where g1: "build_storage_geometry (bi_num_blocks bdev) (bi_block_size bdev) (bi_write_unit_size bdev)
      (bi_buf_align bdev) (cfg_io_segment_size config) (bi_max_rw_size bdev) ?b = Inr g1"
    using d by (auto simp: discover_geometry_def split: sum.splits)
  note r = built_cores [OF g1]
  have c: "\<not> ?n > of_nat (length cores)" "\<not> ?b > u64_max div ?n" "app_core \<in> set cores"
    and g: "spdk_io_cores g = take (unat ?n) (app_core # remove1 app_core cores)"
      "total_spdk_buffer_count g = ?b * ?n"
    using d by (auto simp: discover_geometry_def Let_def g1 r split: if_splits)
  have le: "unat ?n \<le> length cores"
    using c(1) cores(1) by (simp add: not_less word_le_nat_alt unsigned_of_nat take_bit_nat_eq_self)
  have len: "length (app_core # remove1 app_core cores) = length cores"
    using c(3) length_pos_if_in_set [OF c(3)] by (simp add: length_remove1)
  have dist: "distinct (app_core # remove1 app_core cores)" using cores(2) by simp
  have sub: "set (app_core # remove1 app_core cores) \<subseteq> set cores"
    using c(3) set_remove1_subset [of app_core cores] by auto
  show "length (spdk_io_cores g) = unat ?n" using le len unfolding g by (simp del: take_Cons)
  show "distinct (spdk_io_cores g)" unfolding g using dist by (rule distinct_take)
  show "set (spdk_io_cores g) \<subseteq> set cores"
    unfolding g using sub set_take_subset by (rule order_trans [rotated])
  show "hd (spdk_io_cores g) = app_core" if "?n \<noteq> 0"
    using that unfolding g by (cases "unat ?n") (simp_all add: unat_eq_iff)
  show "unat (total_spdk_buffer_count g) = unat ?b * unat ?n" if "?n \<noteq> 0"
  proof -
    have "unat ?n * unat ?b < 2 ^ 64"
      using checked_multiply_iff [of ?n ?b "[]"] c(2) that by (simp add: checked_multiply_def split: if_splits)
    then show ?thesis unfolding g using unat_mult_u64 [of ?b ?n] by (simp add: mult.commute)
  qed
qed

section \<open>The workers of a context\<close>

text \<open>
  The crew: as many workers as the configuration says, numbered from 0, on the different cores the
  geometry lists; worker 0 runs on the application thread, every other one owns its thread; and the
  number of all their buffers was computed without overflow.
\<close>

definition worker_post :: "io_worker \<Rightarrow> nat \<times> u32 \<times> spdk_thread \<times> bool" where
  "worker_post wk = (wk_index wk, wk_core wk, wk_thread wk, wk_owns_thread wk)"

definition crew :: "'d spdk_state \<Rightarrow>
    spdk_config \<times> storage_geometry \<times> spdk_thread option \<times> (nat \<times> u32 \<times> spdk_thread \<times> bool) list" where
  "crew s = (bc_config s, bc_geometry s, bc_app_thread s, map worker_post (bc_io_workers s))"

definition staffed :: "'d spdk_state \<Rightarrow> bool" where
  "staffed s \<longleftrightarrow>
     length (bc_io_workers s) = unat (cfg_io_thread_count (bc_config s)) \<and>
     map wk_index (bc_io_workers s) = [0..<length (bc_io_workers s)] \<and>
     map wk_owns_thread (bc_io_workers s) = map (\<lambda>w. w \<noteq> 0) [0..<length (bc_io_workers s)] \<and>
     bc_app_thread s = Some (wk_thread (wkr s 0)) \<and>
     map wk_core (bc_io_workers s) = spdk_io_cores (bc_geometry s) \<and>
     distinct (spdk_io_cores (bc_geometry s)) \<and>
     unat (total_spdk_buffer_count (bc_geometry s)) =
       unat (cfg_spdk_buffer_count (bc_config s)) * unat (cfg_io_thread_count (bc_config s))"

lemma crew_length:
  assumes "crew s' = crew s"
  shows "length (bc_io_workers s') = length (bc_io_workers s)"
    and "bc_io_workers s' = [] \<longleftrightarrow> bc_io_workers s = []"
proof -
  show l: "length (bc_io_workers s') = length (bc_io_workers s)"
    using assms by (auto simp: crew_def dest: map_eq_imp_length_eq)
  show "bc_io_workers s' = [] \<longleftrightarrow> bc_io_workers s = []"
    using l by (simp only: length_0_conv [symmetric])
qed

lemma staffed_crew:
  assumes "crew s' = crew s" and "bc_io_workers s \<noteq> []"
  shows "staffed s' = staffed s"
proof -
  have p: "map worker_post (bc_io_workers s') = map worker_post (bc_io_workers s)"
    using assms(1) by (simp add: crew_def)
  have comp: "map (f \<circ> worker_post) (bc_io_workers s') = map (f \<circ> worker_post) (bc_io_workers s)"
    for f :: "nat \<times> u32 \<times> spdk_thread \<times> bool \<Rightarrow> 'x"
    using arg_cong [OF p, of "map f"] by (simp only: map_map)
  have "map wk_index (bc_io_workers s') = map wk_index (bc_io_workers s)"
    "map wk_core (bc_io_workers s') = map wk_core (bc_io_workers s)"
    "map wk_owns_thread (bc_io_workers s') = map wk_owns_thread (bc_io_workers s)"
    using comp [of fst] comp [of "fst \<circ> snd"] comp [of "snd \<circ> snd \<circ> snd"]
    by (simp_all add: worker_post_def comp_def)
  moreover have "wk_thread (wkr s' 0) = wk_thread (wkr s 0)"
    using arg_cong [OF p, of "\<lambda>xs. fst (snd (snd (xs ! 0)))"] assms(2) crew_length(1) [OF assms(1)]
    by (simp add: worker_post_def)
  ultimately show ?thesis
    using assms(1) crew_length(1) [OF assms(1)] by (simp add: staffed_def crew_def)
qed

text \<open>Every other operation leaves the crew as it is.\<close>

named_theorems crew_views

lemma crew_frame [crew_views]:
  "crew (s\<lparr>st_world := d\<rparr>) = crew s" "crew (s\<lparr>bc_last_error := e\<rparr>) = crew s"
  "crew (s\<lparr>bc_shutdown_return_code := i\<rparr>) = crew s" "crew (upd_metrics f s) = crew s"
  "crew (outside h s) = crew s" "crew (s\<lparr>bc_shutdown_requested := b\<rparr>) = crew s"
  "crew (s\<lparr>bc_shutdown_started := b\<rparr>) = crew s" "crew (s\<lparr>bc_shutdown_complete := b\<rparr>) = crew s"
  "crew (s\<lparr>bc_descriptor_open := b\<rparr>) = crew s" "crew (s\<lparr>bc_closed := b\<rparr>) = crew s"
  "crew (s\<lparr>bc_initialization_complete := b\<rparr>) = crew s"
  "crew (s\<lparr>bc_initialization_succeeded := b\<rparr>) = crew s"
  "crew (s\<lparr>bc_workers_initializing := k\<rparr>) = crew s" "crew (s\<lparr>bc_workers_shutting_down := k\<rparr>) = crew s"
  "crew (s\<lparr>st_queue := q\<rparr>) = crew s"
  by (simp_all add: crew_def outside_def upd_metrics_def)

lemma crew_upd_worker [crew_views]:
  "(\<And>wk. worker_post (f wk) = worker_post wk) \<Longrightarrow> crew (upd_worker w f s) = crew s"
  by (simp add: crew_def upd_worker_def map_update)

lemma worker_post_frame [crew_views]:
  "worker_post (wk\<lparr>wk_buffer_pool := p\<rparr>) = worker_post wk"
  "worker_post (wk\<lparr>wk_io_channel := b\<rparr>) = worker_post wk"
  "worker_post (wk\<lparr>wk_dma_pool_allocated_bytes := k\<rparr>) = worker_post wk"
  "worker_post (wk\<lparr>wk_pending_io := rs\<rparr>) = worker_post wk"
  by (simp_all add: worker_post_def)

lemma crew_thread_send [crew_views]: "crew (snd (thread_send_msg env t m s)) = crew s"
  by (simp add: thread_send_msg_def case_prod_unfold crew_def)

lemma crew_runtime_post [crew_views]: "crew (snd (runtime_post env t m rt s)) = crew s"
  by (simp add: runtime_post_def case_prod_unfold crew_views split: option.split)

lemma crew_request_shutdown [crew_views]: "crew (request_shutdown env c e s) = crew s"
  by (auto simp: request_shutdown_def Let_def case_prod_unfold crew_views split: option.split sum.split)

lemma crew_io:
  assumes "context_key s' = context_key s" and "worker_keys s' = worker_keys s"
  shows "crew s' = crew s" and "bc_initialization_succeeded s' = bc_initialization_succeeded s"
proof -
  have "map worker_post (bc_io_workers s') = map worker_post (bc_io_workers s)"
    using arg_cong [OF assms(2), of "map (\<lambda>(i, c, t, b, _). (i, c, t, b))"]
    by (simp add: worker_keys_def comp_def worker_post_def [abs_def] worker_key_def)
  then show "crew s' = crew s" using assms(1) by (simp add: crew_def context_key_def)
  show "bc_initialization_succeeded s' = bc_initialization_succeeded s"
    using assms(1) by (simp add: context_key_def)
qed

lemma crew_complete [crew_views]:
  "crew (complete_request r ok e s) = crew s"
  by (rule crew_io) (simp_all add: io_views)

lemma crew_fail_parked [crew_views]: "crew (fail_parked w rs s) = crew s"
  by (induction w rs s rule: fail_parked.induct) (simp_all add: crew_views)

lemma crew_finish [crew_views]:
  "crew (finish_shutdown_on_app_thread env s) = crew s" "crew (on_io_worker_shutdown env s) = crew s"
  by (simp_all add: on_io_worker_shutdown_def finish_shutdown_on_app_thread_def
      release_descriptor_on_app_thread_def Let_def crew_views)

lemma crew_release [crew_views]:
  "crew (release_worker_pool env w s) = crew s" "crew (put_worker_channel env w s) = crew s"
  by (simp_all add: release_worker_pool_def put_worker_channel_def Let_def case_prod_unfold crew_views)

lemma crew_acknowledge [crew_views]: "crew (acknowledge_shutdown env w s) = crew s"
  by (simp add: acknowledge_shutdown_def Let_def case_prod_unfold crew_views)

lemma crew_shutdown [crew_views]: "crew (shutdown_io_worker env w s) = crew s"
  by (simp add: shutdown_io_worker_def Let_def crew_views)

lemma crew_dispatch_shutdown [crew_views]: "crew (dispatch_shutdown env ws s) = crew s"
  by (induction env ws s rule: dispatch_shutdown.induct) (simp_all add: case_prod_unfold Let_def crew_views)

lemma crew_begin_shutdown [crew_views]: "crew (begin_shutdown_on_app_thread env s) = crew s"
  by (simp add: begin_shutdown_on_app_thread_def Let_def crew_views)

lemma crew_initialized [crew_views]: "crew (on_io_worker_initialized env e s) = crew s"
  by (simp add: on_io_worker_initialized_def Let_def crew_views)

lemma crew_prepare [crew_views]: "crew (snd (prepare_io_worker env cur w s)) = crew s"
  by (simp add: prepare_io_worker_def Let_def case_prod_unfold crew_views split: sum.split)

lemma crew_initialize [crew_views]: "crew (initialize_io_worker env cur w s) = crew s"
  by (simp add: initialize_io_worker_def case_prod_unfold crew_views)

lemma crew_dispatch_initialize [crew_views]: "crew (dispatch_initialize env ws s) = crew s"
  by (induction env ws s rule: dispatch_initialize.induct) (simp_all add: case_prod_unfold crew_views)

text \<open>Stopping never makes a context succeed.\<close>

lemma request_shutdown_succeeded [simp]:
  "bc_initialization_succeeded (request_shutdown env c e s) = bc_initialization_succeeded s"
  by (auto simp: request_shutdown_def Let_def case_prod_unfold runtime_post_def thread_send_msg_def
      split: option.split sum.split)

lemma complete_succeeded [simp]:
  "bc_initialization_succeeded (complete_request r ok e s) = bc_initialization_succeeded s"
  by (rule crew_io) (simp_all add: io_views)

lemma fail_parked_succeeded [simp]:
  "bc_initialization_succeeded (fail_parked w rs s) = bc_initialization_succeeded s"
  by (induction w rs s rule: fail_parked.induct) (simp_all add: upd_worker_def)

lemma stopping_succeeded [simp]:
  "bc_initialization_succeeded (on_io_worker_shutdown env s) = bc_initialization_succeeded s"
  "bc_initialization_succeeded (finish_shutdown_on_app_thread env s) = bc_initialization_succeeded s"
  "bc_initialization_succeeded (release_worker_pool env w s) = bc_initialization_succeeded s"
  "bc_initialization_succeeded (put_worker_channel env w s) = bc_initialization_succeeded s"
  "bc_initialization_succeeded (acknowledge_shutdown env w s) = bc_initialization_succeeded s"
  "bc_initialization_succeeded (upd_worker w f s) = bc_initialization_succeeded s"
  by (simp_all add: on_io_worker_shutdown_def finish_shutdown_on_app_thread_def release_worker_pool_def
      put_worker_channel_def acknowledge_shutdown_def release_descriptor_on_app_thread_def outside_def
      upd_metrics_def upd_worker_def thread_send_msg_def Let_def case_prod_unfold)

lemma shutdown_worker_succeeded [simp]:
  "bc_initialization_succeeded (shutdown_io_worker env w s) = bc_initialization_succeeded s"
  by (simp add: shutdown_io_worker_def Let_def)

lemma dispatch_shutdown_succeeded [simp]:
  "bc_initialization_succeeded (dispatch_shutdown env ws s) = bc_initialization_succeeded s"
  by (induction env ws s rule: dispatch_shutdown.induct)
    (simp_all add: case_prod_unfold Let_def thread_send_msg_def)

lemma begin_shutdown_succeeded [simp]:
  "bc_initialization_succeeded (begin_shutdown_on_app_thread env s) = bc_initialization_succeeded s"
  by (simp add: begin_shutdown_on_app_thread_def Let_def)

section \<open>Opening\<close>

text \<open>SPDK lists every reactor core once, which is how \<open>SPDK_ENV_FOREACH_CORE\<close> is documented.\<close>

definition cores_listed_once :: "'d life_env \<Rightarrow> bool" where
  "cores_listed_once env \<longleftrightarrow> (\<forall>d. distinct (le_cores env d) \<and> length (le_cores env d) < 2 ^ 64)"

lemma fresh_crew:
  assumes fresh: "\<forall>w<length wks. fresh_worker a w (wks ! w)"
  shows "map wk_index wks = [0..<length wks]" and "map wk_owns_thread wks = map (\<lambda>w. w \<noteq> 0) [0..<length wks]"
    and "wks \<noteq> [] \<Longrightarrow> wk_thread (wks ! 0) = a"
proof -
  have w: "wk_index (wks ! w) = w" "wk_owns_thread (wks ! w) = (w \<noteq> 0)" "w = 0 \<longrightarrow> wk_thread (wks ! w) = a"
    if "w < length wks" for w
    using fresh that by (auto simp: fresh_worker_def new_io_worker_def)
  show "map wk_index wks = [0..<length wks]" "map wk_owns_thread wks = map (\<lambda>w. w \<noteq> 0) [0..<length wks]"
    by (rule nth_equalityI; simp add: w)+
  show "wks \<noteq> [] \<Longrightarrow> wk_thread (wks ! 0) = a" using w(3) [of 0] by simp
qed

lemma open_workers_staffed:
  assumes ow: "open_workers env cur s = (Inr u, s')" and nw: "bc_io_workers s = []"
    and a: "bc_app_thread s = Some a" and threads: "cfg_io_thread_count (bc_config s) \<noteq> 0"
    and cores: "cores_listed_once env"
  shows "staffed s' \<and> bc_io_workers s' \<noteq> []"
proof -
  obtain q g where dg: "discover_geometry (bc_config s) (le_bdev env (st_world s)) (le_cores env (st_world s))
      (le_current_core env cur (st_world s)) (bc_geometry s) = (q, g)" by fastforce
  then obtain v where q: "q = Inr v" using ow by (cases q) (simp_all add: open_workers_def)
  then have dg: "discover_geometry (bc_config s) (le_bdev env (st_world s)) (le_cores env (st_world s))
      (le_current_core env cur (st_world s)) (bc_geometry s) = (Inr (), g)" using dg by simp
  let ?y = "s\<lparr>bc_geometry := g\<rparr>"
  have cw: "create_workers env a 0 (spdk_io_cores g) ?y = (Inr u, s')"
    using ow dg a by (simp add: open_workers_def)
  have "length (bc_io_workers ?y) = 0" "\<forall>w<0. fresh_worker a w (wkr ?y w)" using nw by simp_all
  from create_workers_shape [OF cw this] obtain wks d1 where w: "s' = ?y\<lparr>st_world := d1, bc_io_workers := wks\<rparr>"
    "\<forall>w<length wks. fresh_worker a w (wks ! w)" "map wk_core wks = spdk_io_cores g"
    using nw by auto
  have l: "length (le_cores env (st_world s)) < 2 ^ 64" "distinct (le_cores env (st_world s))"
    using cores by (simp_all add: cores_listed_once_def)
  note dc = discovered_cores [OF dg l]
  have n: "length wks = unat (cfg_io_thread_count (bc_config s))"
    using dc(1) arg_cong [OF w(3), of length] by simp
  moreover have "0 < unat (cfg_io_thread_count (bc_config s))" using threads by (simp add: unat_gt_0)
  ultimately have ne: "wks \<noteq> []" by auto
  note fc = fresh_crew [OF w(2)]
  have fields: "bc_io_workers s' = wks" "bc_config s' = bc_config s" "bc_geometry s' = g" "bc_app_thread s' = Some a"
    using a by (simp_all add: w(1))
  show ?thesis
    unfolding staffed_def fields
    using n ne fc(1,2) fc(3) [OF ne] w(3) dc(2) dc(5) [OF threads] by simp
qed

text \<open>The message that opens the bdev fails, or leaves a full crew.\<close>

lemma on_runtime_ready_staffed:
  assumes nw: "bc_io_workers s = []" and a: "bc_app_thread s = Some a"
    and threads: "cfg_io_thread_count (bc_config s) \<noteq> 0" and cores: "cores_listed_once env"
  shows "(bc_initialization_complete (on_runtime_ready env cur s) \<and>
      \<not> bc_initialization_succeeded (on_runtime_ready env cur s)) \<or> staffed (on_runtime_ready env cur s)"
proof -
  have fail: "bc_initialization_complete (request_shutdown env c [] (publish_initialization_failure e x)) \<and>
      \<not> bc_initialization_succeeded (request_shutdown env c [] (publish_initialization_failure e x))" for c e x
    by (simp add: publish_initialization_failure_def)
      (simp add: request_shutdown_def Let_def case_prod_unfold runtime_post_def thread_send_msg_def
        split: option.split sum.split)
  obtain rc d where o: "le_open env (cfg_bdev_name (bc_config s)) (st_world s) = (rc, d)" by fastforce
  let ?x = "s\<lparr>st_world := d, bc_descriptor_open := True\<rparr>"
  obtain r s1 where ow: "open_workers env cur ?x = (r, s1)" by fastforce
  show ?thesis
  proof (cases "rc = 0 \<and> r = Inr ()")
    case False
    then show ?thesis using fail o a ow by (cases r) (auto simp: on_runtime_ready_def)
  next
    case True
    have st: "staffed s1 \<and> bc_io_workers s1 \<noteq> []"
      by (rule open_workers_staffed [OF ow [unfolded conjunct2 [OF True]]])
        (use nw a threads cores in simp_all)
    define s2 where "s2 = s1\<lparr>bc_workers_initializing := length (bc_io_workers s1)\<rparr>"
    have eq: "on_runtime_ready env cur s =
        initialize_io_worker env cur 0 (dispatch_initialize env [1..<length (bc_io_workers s2)] s2)"
      unfolding on_runtime_ready_def using True o a ow by (simp add: Let_def s2_def)
    have "crew (on_runtime_ready env cur s) = crew s1" unfolding eq by (simp add: crew_views s2_def)
    then show ?thesis using staffed_crew st by blast
  qed
qed

section \<open>Every context\<close>

definition crew_inv :: "'d spdk_state \<Rightarrow> bool" where
  "crew_inv s \<longleftrightarrow>
     (bc_initialization_succeeded s \<longrightarrow> staffed s \<and> bc_io_workers s \<noteq> []) \<and>
     (\<not> bc_initialization_complete s \<longrightarrow> bc_io_workers s = [] \<or> staffed s)"

lemma crew_inv_same:
  assumes "crew_inv s" and "crew s' = crew s"
    and "bc_initialization_succeeded s' \<Longrightarrow> bc_initialization_succeeded s"
    and "bc_initialization_complete s \<Longrightarrow> bc_initialization_complete s'"
  shows "crew_inv s'"
  using assms staffed_crew [OF assms(2)] crew_length(2) [OF assms(2)] unfolding crew_inv_def by blast

lemma staffed_nonempty:
  "staffed s \<Longrightarrow> cfg_io_thread_count (bc_config s) \<noteq> 0 \<Longrightarrow> bc_io_workers s \<noteq> []"
  by (auto simp: staffed_def unat_eq_0)

lemma crew_message:
  fixes env :: "'d life_env" and s :: "'d spdk_state"
  assumes env: "reliable env" and cores: "cores_listed_once env" and ok: "life_ok s"
    and inv: "proto_inv (view s)" and ci: "crew_inv s" and d: "life_deliver env t s = Some s'"
    and mono: "bc_initialization_complete s \<Longrightarrow> bc_initialization_complete s'"
  shows "crew_inv s'"
proof -
  obtain m rest where q: "st_queue s t = m # rest"
    using d by (cases "st_queue s t") (simp_all add: life_deliver_def)
  define s1 where "s1 = s\<lparr>st_queue := (st_queue s)(t := rest)\<rparr>"
  have s1: "crew s1 = crew s" "bc_initialization_succeeded s1 = bc_initialization_succeeded s"
    by (simp_all add: s1_def crew_views)
  show ?thesis
  proof (cases m)
    case Msg_open
    then have s': "s' = on_runtime_ready env t s1" using d q by (simp add: life_deliver_def s1_def)
    note dc = deliver_context [OF ok q, folded s1_def, unfolded Msg_open, simplified]
    have "view s = proto_start" using view_starts [OF inv dc(2)] by simp
    then have "length (bc_io_workers s1) = 0" using view_fields(10) [of s] by (simp add: s1_def proto_start_def)
    then have nw: "bc_io_workers s1 = []" by simp
    obtain a where a: "bc_app_thread s1 = Some a" using life_ok_app [OF dc(1)] by blast
    have th: "cfg_io_thread_count (bc_config s1) \<noteq> 0" using dc(1) by (simp add: life_ok_def)
    have "life_ok s'" using life_message_refines [OF env ok inv d] by blast
    then have th': "cfg_io_thread_count (bc_config s') \<noteq> 0" by (simp add: life_ok_def)
    from on_runtime_ready_staffed [OF nw a th cores, of t, folded s'] show ?thesis
      using staffed_nonempty [OF _ th'] by (auto simp: crew_inv_def)
  next
    case (Msg_initialize_worker w)
    then have s': "s' = initialize_io_worker env t w s1" using d q by (simp add: life_deliver_def s1_def)
    have ab: "about w m" using Msg_initialize_worker by simp
    note dw = deliver_worker [OF ok q ab]
    have ne: "bc_io_workers s \<noteq> []" using dw(2) by auto
    have "\<not> unopened (view s)" using dw(3) by (auto simp: unopened_def proto_start_def)
    then have o: "opened_inv (view s)" using inv by (simp add: proto_inv_def)
    have "w \<in> starting (view s)" using dw(2,3) Msg_initialize_worker by (simp add: starting_def)
    moreover have "finite (starting (view s))" by (simp add: starting_def)
    ultimately have "card (starting (view s)) \<noteq> 0" by auto
    then have "\<not> bc_initialization_complete s" using o by (auto simp: opened_inv_def view_fields)
    then have "staffed s" using ci ne by (simp add: crew_inv_def)
    moreover have "crew s' = crew s" unfolding s' by (simp add: crew_views s1)
    ultimately show ?thesis using staffed_crew ne crew_length(2) unfolding crew_inv_def by blast
  next
    case Msg_begin_shutdown
    then have s': "s' = begin_shutdown_on_app_thread env s1" using d q by (simp add: life_deliver_def s1_def)
    show ?thesis by (rule crew_inv_same [OF ci _ _ mono]) (simp_all add: s' s1 crew_views)
  next
    case Msg_finish_shutdown
    then have s': "s' = on_io_worker_shutdown env s1" using d q by (simp add: life_deliver_def s1_def)
    show ?thesis by (rule crew_inv_same [OF ci _ _ mono]) (simp_all add: s' s1 crew_views)
  next
    case (Msg_shutdown_worker w)
    then have s': "s' = shutdown_io_worker env w s1" using d q by (simp add: life_deliver_def s1_def)
    show ?thesis by (rule crew_inv_same [OF ci _ _ mono]) (simp_all add: s' s1 crew_views)
  qed (use d q in \<open>simp_all add: life_deliver_def Let_def\<close>)
qed

lemma crew_io_step:
  assumes "io_step env s s'"
  shows "crew s' = crew s \<and> bc_initialization_succeeded s' = bc_initialization_succeeded s"
  using assms
proof (cases rule: io_step.cases)
  case (step_submit operation items res)
  let ?s1 = "s\<lparr>bc_next_io_worker := bc_next_io_worker s + 1\<rparr>"
  have 1: "crew ?s1 = crew s" by (simp add: crew_def)
  have same: "crew y = crew x \<and> bc_initialization_succeeded y = bc_initialization_succeeded x" if "io_same x y"
    for x y :: "'a spdk_state"
    using crew_io [of y x] that by (simp add: io_same_def worker_frame_def)
  have announced: "io_same ?s1 ((announce k ?s1)\<lparr>st_world := d\<rparr>)" for k d
    by (simp add: io_same_def announce_def worker_frame_def io_views)
  have added: "io_same x (add_batch n qs x)" for n qs and x :: "'a spdk_state"
    by (simp add: io_same_def worker_frame_def buffers_col_def add_batch_def column_defs context_key_def)
  have "s' = s \<or> io_same ?s1 s'"
    using submit_batch_cases [OF step_submit] announced io_same_trans [OF announced io_same_trans [OF added send_dispatches_same]]
    by blast
  then show ?thesis using same [of ?s1 s'] 1 by auto
next
  case (step_event e)
  have "worker_keys s' = worker_keys s" using event_frame [OF step_event] by (simp add: worker_frame_def)
  then show ?thesis using crew_io [OF event_context [OF step_event]] by simp
next
  case (step_outside d m)
  have "context_key s' = context_key s" "worker_keys s' = worker_keys s"
    by (simp_all add: step_outside io_views)
  then show ?thesis using crew_io by blast
qed

lemma crew_step:
  assumes env: "reliable env" and cores: "cores_listed_once env" and ok: "life_ok s"
    and inv: "proto_inv (view s)" and ci: "crew_inv s" and step: "life_step env s s'"
  shows "crew_inv s'"
proof -
  have "view s' = view s \<or> proto_step (view s) (view s')"
    using life_step_refines [OF env ok inv step] by blast
  then have mono: "bc_initialization_complete s \<Longrightarrow> bc_initialization_complete s'"
    using initialized_step [of "view s" "view s'"] view_fields by metis
  show ?thesis
    using step
  proof (cases rule: life_step.cases)
    case (life_message t)
    then show ?thesis by (rule crew_message [OF env cores ok inv ci _ mono])
  next
    case life_io
    then show ?thesis using crew_io_step by (intro crew_inv_same [OF ci _ _ mono]) auto
  next
    case (life_event e)
    then have "crew s' = crew s \<and> bc_initialization_succeeded s' = bc_initialization_succeeded s"
      by (cases e) (simp_all add: on_bdev_event_def crew_views)
    then show ?thesis by (intro crew_inv_same [OF ci _ _ mono]) auto
  next
    case life_close
    then have "crew s' = crew s \<and> bc_initialization_succeeded s' = bc_initialization_succeeded s"
      by (simp add: close_begin_def Let_def crew_views)
    then show ?thesis by (intro crew_inv_same [OF ci _ _ mono]) auto
  qed
qed

lemma crew_inv_reachable:
  assumes env: "reliable env" and cores: "cores_listed_once env" and "life_reachable env s"
  shows "crew_inv s"
  using assms(3)
proof (induction rule: life_reachable.induct)
  case (life_open outcome stop_send stop_return config m p d s p' d')
  obtain rt a d1 where s: "s = posted a Msg_open ((new_context config (bc_structured_events s) m d1)
      \<lparr>bc_runtime := Some rt, bc_bdev_claimed := True, bc_app_thread := Some a\<rparr>)"
    by (rule open_context_shape [OF life_open(1)])
  show ?case by (subst s) (simp add: crew_inv_def posted_def new_context_def)
next
  case (life_next s s')
  then have "life_ok s" "proto_inv (view s)"
    using life_reachable_refines [OF env] proto_reachable_inv by blast+
  then show ?case using crew_step [OF env cores] life_next by blast
qed

text \<open>
  Property C25. In every context whose constructor has succeeded, however long it has been running or
  shutting down, there are exactly \<open>spdk_io_thread_count\<close> workers, at least one, numbered in order, on
  different reactor cores; worker 0 runs on the application thread and only the others own their
  threads; and the total number of buffers is the product of the configured numbers, without overflow.
  While the constructor waits there is no worker yet, or all of them. SPDK accepts every message and
  lists every core once.
\<close>

theorem workers_as_configured:
  assumes "reliable env" and "cores_listed_once env" and "life_reachable env s"
  defines "n \<equiv> unat (cfg_io_thread_count (bc_config s))" and "g \<equiv> bc_geometry s"
    and "workers \<equiv> bc_io_workers s"
  shows "(bc_initialization_succeeded s \<longrightarrow> workers \<noteq> []) \<and>
    (bc_initialization_succeeded s \<or> \<not> bc_initialization_complete s \<and> workers \<noteq> [] \<longrightarrow>
      length workers = n \<and> map wk_index workers = [0..<n] \<and>
      map wk_core workers = spdk_io_cores g \<and> distinct (map wk_core workers) \<and>
      bc_app_thread s = Some (wk_thread (workers ! 0)) \<and>
      map wk_owns_thread workers = map (\<lambda>w. w \<noteq> 0) [0..<n] \<and>
      unat (total_spdk_buffer_count g) = unat (cfg_spdk_buffer_count (bc_config s)) * n)"
proof -
  note ci = crew_inv_reachable [OF assms(1-3)]
  have "length workers = n \<and> map wk_index workers = [0..<n] \<and>
      map wk_core workers = spdk_io_cores g \<and> distinct (map wk_core workers) \<and>
      bc_app_thread s = Some (wk_thread (workers ! 0)) \<and>
      map wk_owns_thread workers = map (\<lambda>w. w \<noteq> 0) [0..<n] \<and>
      unat (total_spdk_buffer_count g) = unat (cfg_spdk_buffer_count (bc_config s)) * n" if "staffed s"
    using that unfolding staffed_def n_def g_def workers_def by simp
  then show ?thesis using ci unfolding crew_inv_def workers_def by blast
qed

lemma disk_cores: "cores_listed_once disk_life"
  by (simp add: cores_listed_once_def disk_life_def)

theorem workers_as_configured_witness:
  "length (bc_io_workers life_up) = 2 \<and> map wk_index (bc_io_workers life_up) = [0, 1]"
proof -
  have r: "life_reachable disk_life life_up"
    by (rule life_next [OF life_opened_reachable life_message [OF life_steps(2)]])
  have c: "unat (cfg_io_thread_count (bc_config life_up)) = 2" by code_simp
  show ?thesis
    using workers_as_configured [OF disk_reliable disk_cores r] life_flags c
    by (simp add: upt_rec)
qed

end
