(* ===== verification/Segments.thy ===== *)
theory Segments
  imports Page_Allocator Bdev_Context
begin

text \<open>
  How the connector (\<open>bdev/csrc/spdk_connector.cpp\<close>) turns a value into storage: the number of
  pages it needs, the entry that records where it lies, and the segments of at most one DMA
  buffer in which it is moved.
\<close>

section \<open>Entries and segments\<close>

record entry =
  en_logical_size :: u64
  en_extents :: "page_extent list"

definition pages_for_bytes :: "u64 \<Rightarrow> u64 \<Rightarrow> u64 result" where
  "pages_for_bytes page value =
     (if value > u64_max - (page - 1)
      then Inl (Overflow_error ''value page count overflows uint64_t'')
      else Inr ((value + page - 1) div page))"

definition no_trace :: io_trace_context where
  "no_trace = \<lparr>tr_future_id = 0, tr_item_index = 0, tr_segment_index = 0, tr_segment_count = 0,
     tr_first_page = 0, tr_page_count = 0, tr_logical_offset = 0\<rparr>"

text \<open>
  The inner loop of \<open>AppendSegments\<close>: the segments of one extent that starts on byte \<open>start\<close>
  and has \<open>bytes\<close> bytes, from \<open>physical\<close> on; \<open>logical\<close> bytes of the value lie before.
\<close>

function append_extent ::
  "u64 \<Rightarrow> u64 \<Rightarrow> u64 \<Rightarrow> u64 \<Rightarrow> u64 \<Rightarrow> u64 \<Rightarrow> u64 \<Rightarrow> (io_batch_item list \<times> u64) result" where
  "append_extent seg sz buffer start bytes physical logical =
     (if physical < bytes
      then
        let segment_physical = min seg (bytes - physical);
            segment_logical = min segment_physical (sz - logical)
        in if segment_logical = 0
           then Inl (Logic_error ''entry extents exceed its logical size'')
           else
             (case append_extent seg sz buffer start bytes (physical + segment_physical)
                     (logical + segment_logical) of
                Inl e \<Rightarrow> Inl e
              | Inr (items, l) \<Rightarrow>
                  Inr (\<lparr>it_buffer = buffer + logical, it_logical_length = segment_logical,
                        it_byte_offset = start + physical, it_physical_length = segment_physical,
                        it_trace = no_trace\<rparr> # items, l))
      else Inr ([], logical))"
  by pat_completeness auto
termination
proof (relation "measure (\<lambda>(seg, sz, buffer, start, bytes, physical, logical). unat (bytes - physical))")
  fix seg sz buffer start bytes physical logical sp sl :: u64
  assume lt: "physical < bytes" and sp: "sp = min seg (bytes - physical)"
    and "sl = min sp (sz - logical)" and "sl \<noteq> 0"
  then have pos: "sp \<noteq> 0" by (auto simp: min_def split: if_splits)
  have le: "sp \<le> bytes - physical" using sp by simp
  have eq: "bytes - (physical + sp) = (bytes - physical) - sp" by simp
  have "unat (bytes - (physical + sp)) = unat (bytes - physical) - unat sp"
    unfolding eq by (rule unat_sub [OF le])
  moreover have "0 < unat sp" using pos by (simp add: unat_gt_0)
  moreover have "0 < unat (bytes - physical)" using lt by (simp add: unat_gt_0)
  ultimately show "((seg, sz, buffer, start, bytes, physical + sp, logical + sl),
      seg, sz, buffer, start, bytes, physical, logical) \<in>
      measure (\<lambda>(seg, sz, buffer, start, bytes, physical, logical). unat (bytes - physical))"
    by simp
qed simp

declare append_extent.simps [simp del]

fun append_extents ::
  "storage_geometry \<Rightarrow> u64 \<Rightarrow> u64 \<Rightarrow> page_extent list \<Rightarrow> u64 \<Rightarrow> (io_batch_item list \<times> u64) result" where
  "append_extents g sz buffer [] logical = Inr ([], logical)"
| "append_extents g sz buffer (e # es) logical =
     (case append_extent (io_segment_size g) sz buffer (first_page e * page_size g)
             (page_count e * page_size g) 0 logical of
        Inl err \<Rightarrow> Inl err
      | Inr (items, l) \<Rightarrow>
          (case append_extents g sz buffer es l of
             Inl err \<Rightarrow> Inl err
           | Inr (items', l') \<Rightarrow> Inr (items @ items', l')))"

definition append_segments ::
  "storage_geometry \<Rightarrow> entry \<Rightarrow> u64 \<Rightarrow> io_batch_item list result" where
  "append_segments g en buffer =
     (case append_extents g (en_logical_size en) buffer (en_extents en) 0 of
        Inl err \<Rightarrow> Inl err
      | Inr (items, logical) \<Rightarrow>
          if logical \<noteq> en_logical_size en
          then Inl (Logic_error ''entry extents do not cover its logical size'')
          else Inr items)"

section \<open>Pages\<close>

lemma pages_for_bytes_ok:
  assumes "page \<noteq> 0" and "unat v + unat page \<le> 2 ^ 64"
  shows "\<exists>n. pages_for_bytes page v = Inr n \<and> unat n = (unat v + unat page - 1) div unat page"
proof -
  have p: "0 < unat page" using assms(1) by (simp add: unat_gt_0)
  have pm: "unat (page - 1) = unat page - 1" using p by (simp add: unat_minus_one assms(1))
  have le: "page - 1 \<le> u64_max" by (simp add: word_le_nat_alt unat_le_u64_max)
  have "unat (u64_max - (page - 1)) = 2 ^ 64 - 1 - (unat page - 1)"
    using le by (simp add: unat_sub pm)
  then have c: "\<not> v > u64_max - (page - 1)" using assms(2) p by (simp add: word_less_nat_alt)
  have eq: "v + page - 1 = v + (page - 1)" by simp
  have "unat v + unat (page - 1) < 2 ^ 64" using assms(2) p pm by simp
  then have "unat (v + page - 1) = unat v + unat page - 1"
    unfolding eq using p by (simp add: unat_add_u64 pm)
  then show ?thesis using c by (simp add: pages_for_bytes_def unat_div)
qed

lemma pages_for_bytes_overflow:
  assumes "page \<noteq> 0" and "2 ^ 64 < unat v + unat page"
  shows "pages_for_bytes page v = Inl (Overflow_error ''value page count overflows uint64_t'')"
proof -
  have p: "0 < unat page" using assms(1) by (simp add: unat_gt_0)
  have pm: "unat (page - 1) = unat page - 1" using p by (simp add: unat_minus_one assms(1))
  have le: "page - 1 \<le> u64_max" by (simp add: word_le_nat_alt unat_le_u64_max)
  have "unat (u64_max - (page - 1)) = 2 ^ 64 - 1 - (unat page - 1)"
    using le by (simp add: unat_sub pm)
  moreover have "18446744073709551616 - unat page < unat v"
    using assms(2) [simplified] p unat_u64_bound [of page] by linarith
  ultimately have "unat (u64_max - (page - 1)) < unat v" using p by simp
  then have "v > u64_max - (page - 1)" by (simp add: word_less_nat_alt)
  then show ?thesis by (simp add: pages_for_bytes_def)
qed

section \<open>The segments of an extent\<close>

text \<open>
  The byte addresses a list of items covers on the bdev and in the value, in order. \<open>moved\<close>
  counts the physical bytes.
\<close>

definition item_disk :: "io_batch_item \<Rightarrow> nat list" where
  "item_disk it = [unat (it_byte_offset it) ..< unat (it_byte_offset it) + unat (it_physical_length it)]"

definition item_value :: "u64 \<Rightarrow> io_batch_item \<Rightarrow> nat list" where
  "item_value buffer it = [unat (it_buffer it - buffer) ..< unat (it_buffer it - buffer) + unat (it_logical_length it)]"

definition moved :: "io_batch_item list \<Rightarrow> nat" where
  "moved items = (\<Sum>it\<leftarrow>items. unat (it_physical_length it))"

lemma moved_simps [simp]:
  "moved [] = 0" "moved (it # items) = unat (it_physical_length it) + moved items"
  "moved (items @ items') = moved items + moved items'"
  by (simp_all add: moved_def)

text \<open>
  What one segment must look like when \<open>t\<close> bytes of a value of \<open>v\<close> bytes lie before it; the
  geometry and the buffer are those of the entry.
\<close>

definition segment_ok :: "storage_geometry \<Rightarrow> nat \<Rightarrow> u64 \<Rightarrow> nat \<Rightarrow> io_batch_item \<Rightarrow> bool" where
  "segment_ok g v buffer t it \<longleftrightarrow>
     it_buffer it = buffer + of_nat t \<and> t < v \<and>
     unat (it_logical_length it) = min (unat (it_physical_length it)) (v - t) \<and>
     unat (it_physical_length it) \<le> unat (io_segment_size g) \<and>
     unat (page_size g) dvd unat (it_byte_offset it) \<and>
     unat (page_size g) dvd unat (it_physical_length it) \<and> 0 < unat (it_physical_length it)"

fun segments_ok :: "storage_geometry \<Rightarrow> nat \<Rightarrow> u64 \<Rightarrow> nat \<Rightarrow> io_batch_item list \<Rightarrow> bool" where
  "segments_ok g v buffer t [] \<longleftrightarrow> True"
| "segments_ok g v buffer t (it # items) \<longleftrightarrow>
     segment_ok g v buffer t it \<and> segments_ok g v buffer (t + unat (it_physical_length it)) items"

lemma segments_ok_append:
  "segments_ok g v buffer t (items @ items') \<longleftrightarrow>
     segments_ok g v buffer t items \<and> segments_ok g v buffer (t + moved items) items'"
  by (induction items arbitrary: t) (simp_all add: ac_simps)

text \<open>
  The inner loop, in unbounded numbers: \<open>t\<close> bytes lie before, \<open>ph\<close> of this extent are done. The
  whole pages the entry has, \<open>n\<close> bytes, hold the value but are not a page longer than it.
\<close>

lemma append_extent_ok:
  assumes g: "unat page dvd unat (io_segment_size g)" "unat page \<le> unat (io_segment_size g)"
      "page = page_size g" "0 < unat page"
    and ph: "unat ph \<le> unat bytes" "unat page dvd unat ph" "unat page dvd unat bytes"
    and st: "unat page dvd unat start" "unat start + unat bytes < 2 ^ 64"
    and t: "t + (unat bytes - unat ph) \<le> n" "unat page dvd t" "unat page dvd n"
      "unat v \<le> n" "n < unat v + unat page"
    and l: "unat l = min t (unat v)"
  shows "\<exists>items l'. append_extent (io_segment_size g) v buffer start bytes ph l = Inr (items, l') \<and>
    segments_ok g (unat v) buffer t items \<and> moved items = unat bytes - unat ph \<and>
    unat l' = min (t + (unat bytes - unat ph)) (unat v) \<and>
    concat (map item_disk items) = [unat start + unat ph ..< unat start + unat bytes]"
  using ph t l
proof (induction "unat bytes - unat ph" arbitrary: ph t l rule: less_induct)
  case less
  let ?seg = "io_segment_size g"
  show ?case
  proof (cases "ph < bytes")
    case False
    then have "unat ph = unat bytes" using less.prems(1) by (simp add: word_less_nat_alt)
    then show ?thesis using False less.prems(9)
      by (subst append_extent.simps) simp
  next
    case True
    then have ltn: "unat ph < unat bytes" by (simp add: word_less_nat_alt)
    define sp where "sp = min ?seg (bytes - ph)"
    have ub: "unat (bytes - ph) = unat bytes - unat ph" using True by (simp add: unat_sub word_less_nat_alt less_imp_le)
    have usp: "unat sp = min (unat ?seg) (unat bytes - unat ph)" by (simp add: sp_def ub)
    have spb: "unat sp \<le> unat bytes - unat ph" "unat sp \<le> unat ?seg"
      unfolding usp by simp_all
    have "unat page dvd min (unat ?seg) (unat bytes - unat ph)"
      using g(1) less.prems(2,3) by (simp add: min_def)
    then have spd: "unat page dvd unat sp" by (simp only: usp)
    have sp0: "0 < unat sp" using usp g(2,4) ltn by simp
    have spl: "unat page \<le> unat sp" using spd sp0 by (rule dvd_imp_le)
    have tn: "t + unat page \<le> n"
      using less.prems(4) ltn spb(1) spl by linarith
    then have tv: "t < unat v" using less.prems(8) by linarith
    then have lt: "unat l = t" using less.prems(9) by simp
    then have lb: "l = of_nat t" by (simp add: lt [symmetric])
    have ul: "unat (v - l) = unat v - t" using tv lt by (simp add: unat_sub word_le_nat_alt)
    define sl where "sl = min sp (v - l)"
    have usl: "unat sl = min (unat sp) (unat v - t)" by (simp only: sl_def unat_min_u64 ul)
    have "unat sl \<noteq> 0" using usl sp0 tv by simp
    then have sl0: "sl \<noteq> 0" by (metis unat_0)
    have "unat ph + unat sp \<le> unat bytes" using spb(1) ltn by linarith
    also have "\<dots> < 2 ^ 64" using unat_u64_bound [of bytes] by simp
    finally have uph: "unat (ph + sp) = unat ph + unat sp" by (rule unat_add_u64)
    have ul': "unat (l + sl) = t + unat sl"
    proof -
      have "unat l + unat sl \<le> unat v" unfolding usl using lt tv by simp
      also have "\<dots> < 2 ^ 64" using unat_u64_bound [of v] by simp
      finally show ?thesis unfolding lt [symmetric] by (rule unat_add_u64)
    qed
    let ?it = "\<lparr>it_buffer = buffer + l, it_logical_length = sl, it_byte_offset = start + ph,
      it_physical_length = sp, it_trace = no_trace\<rparr>"
    have off: "unat (start + ph) = unat start + unat ph"
      using st(2) ltn by (intro unat_add_u64) simp
    have it: "segment_ok g (unat v) buffer t ?it"
      using tv lb usl spb(2) spd sp0 st(1) less.prems(2) off
      by (simp add: segment_ok_def g(3) [symmetric])
    have "unat l + unat sl = min (t + unat sp) (unat v)" using usl lt tv by simp
    then have l': "unat (l + sl) = min (t + unat sp) (unat v)" using ul' lt by simp
    have "t + unat sp + (unat bytes - unat (ph + sp)) \<le> n"
      using less.prems(4) spb(1) uph ltn by simp
    moreover have "unat (ph + sp) \<le> unat bytes" using uph spb(1) ltn by simp
    moreover have "unat bytes - unat (ph + sp) < unat bytes - unat ph" using uph sp0 ltn by simp
    moreover have "unat page dvd unat (ph + sp)" "unat page dvd t + unat sp"
      using uph spd less.prems(2,5) by simp_all
    ultimately obtain items l'' where rec:
      "append_extent ?seg v buffer start bytes (ph + sp) (l + sl) = Inr (items, l'')"
      "segments_ok g (unat v) buffer (t + unat sp) items" "moved items = unat bytes - unat (ph + sp)"
      "unat l'' = min (t + unat sp + (unat bytes - unat (ph + sp))) (unat v)"
      "concat (map item_disk items) = [unat start + unat (ph + sp) ..< unat start + unat bytes]"
      using less.hyps [of "ph + sp" "t + unat sp" "l + sl"] less.prems(3,6-8) l' by blast
    have e: "append_extent ?seg v buffer start bytes ph l = Inr (?it # items, l'')"
      using True sl0 rec(1) by (subst append_extent.simps) (simp add: Let_def sp_def [symmetric] sl_def [symmetric])
    have "item_disk ?it = [unat start + unat ph ..< unat start + unat (ph + sp)]"
      by (simp add: item_disk_def off uph add.assoc)
    then have "concat (map item_disk (?it # items)) = [unat start + unat ph ..< unat start + unat bytes]"
      using rec(5) uph spb(1) ltn by (simp add: upt_join add.assoc)
    moreover have "moved (?it # items) = unat bytes - unat ph"
      using rec(3) uph spb(1) ltn by simp
    moreover have "t + unat sp + (unat bytes - unat (ph + sp)) = t + (unat bytes - unat ph)"
      using uph spb(1) ltn by simp
    ultimately show ?thesis using e it rec(2,4) by simp
  qed
qed

section \<open>The segments of an entry\<close>

definition extent_disk :: "storage_geometry \<Rightarrow> page_extent \<Rightarrow> nat list" where
  "extent_disk g e = [unat (first_page e) * unat (page_size g) ..<
     (unat (first_page e) + unat (page_count e)) * unat (page_size g)]"

definition extents_disk :: "storage_geometry \<Rightarrow> page_extent list \<Rightarrow> nat list" where
  "extents_disk g es = concat (map (extent_disk g) es)"

definition extents_bytes :: "storage_geometry \<Rightarrow> page_extent list \<Rightarrow> nat" where
  "extents_bytes g es = length (extents_pages es) * unat (page_size g)"

lemma extents_bytes_simps [simp]:
  "extents_bytes g [] = 0"
  "extents_bytes g (e # es) = unat (page_count e) * unat (page_size g) + extents_bytes g es"
  by (simp_all add: extents_bytes_def add_mult_distrib)

lemma extent_words:
  assumes g: "geometry_ok g" and e: "extent_in_range (geo_page_count g) e"
  shows "unat (first_page e * page_size g) = unat (first_page e) * unat (page_size g)"
    and "unat (page_count e * page_size g) = unat (page_count e) * unat (page_size g)"
    and "(unat (first_page e) + unat (page_count e)) * unat (page_size g) \<le> unat (usable_capacity_bytes g)"
proof -
  have u: "unat (usable_capacity_bytes g) = unat (geo_page_count g) * unat (page_size g)"
    using g by (simp add: geometry_ok_def)
  have "unat (first_page e) + unat (page_count e) \<le> unat (geo_page_count g)"
    using e by (simp add: extent_in_range_def)
  then show le: "(unat (first_page e) + unat (page_count e)) * unat (page_size g)
      \<le> unat (usable_capacity_bytes g)"
    unfolding u by (rule mult_right_mono) simp
  have "unat (usable_capacity_bytes g) < 2 ^ 64" using unat_u64_bound [of "usable_capacity_bytes g"] by simp
  then have b: "(unat (first_page e) + unat (page_count e)) * unat (page_size g) < 2 ^ 64"
    by (rule order_le_less_trans [OF le])
  show "unat (first_page e * page_size g) = unat (first_page e) * unat (page_size g)"
    using b by (intro unat_mult_u64) (simp add: add_mult_distrib)
  show "unat (page_count e * page_size g) = unat (page_count e) * unat (page_size g)"
    using b by (intro unat_mult_u64) (simp add: add_mult_distrib)
qed

lemma append_extents_ok:
  assumes g: "geometry_ok g" and es: "\<forall>e\<in>set es. extent_in_range (geo_page_count g) e"
    and t: "t + extents_bytes g es \<le> n" "unat (page_size g) dvd t" "unat (page_size g) dvd n"
      "unat v \<le> n" "n < unat v + unat (page_size g)"
    and l: "unat l = min t (unat v)"
  shows "\<exists>items l'. append_extents g v buffer es l = Inr (items, l') \<and>
    segments_ok g (unat v) buffer t items \<and> moved items = extents_bytes g es \<and>
    unat l' = min (t + extents_bytes g es) (unat v) \<and>
    concat (map item_disk items) = extents_disk g es"
  using es t l
proof (induction es arbitrary: t l)
  case Nil
  then show ?case by (simp add: extents_disk_def)
next
  case (Cons e es)
  let ?p = "unat (page_size g)"
  have gp: "?p dvd unat (io_segment_size g)" "?p \<le> unat (io_segment_size g)" "0 < ?p"
    using g by (simp_all add: geometry_ok_def)
  have e: "extent_in_range (geo_page_count g) e" using Cons.prems(1) by simp
  note w = extent_words [OF g e]
  let ?start = "first_page e * page_size g" and ?bytes = "page_count e * page_size g"
  have "unat (usable_capacity_bytes g) < 2 ^ 64" using unat_u64_bound [of "usable_capacity_bytes g"] by simp
  then have "(unat (first_page e) + unat (page_count e)) * ?p < 2 ^ 64"
    by (rule order_le_less_trans [OF w(3)])
  then have sb: "unat ?start + unat ?bytes < 2 ^ 64"
    unfolding w(1,2) by (simp add: add_mult_distrib)
  have "\<exists>items l'. append_extent (io_segment_size g) v buffer ?start ?bytes 0 l = Inr (items, l') \<and>
      segments_ok g (unat v) buffer t items \<and> moved items = unat ?bytes - unat (0 :: u64) \<and>
      unat l' = min (t + (unat ?bytes - unat (0 :: u64))) (unat v) \<and>
      concat (map item_disk items) = [unat ?start + unat (0 :: u64) ..< unat ?start + unat ?bytes]"
    by (rule append_extent_ok [OF gp(1,2) refl gp(3)]) (use Cons.prems sb w in simp_all)
  then obtain items l1 where a: "append_extent (io_segment_size g) v buffer ?start ?bytes 0 l = Inr (items, l1)"
    "segments_ok g (unat v) buffer t items" "moved items = unat (page_count e) * ?p"
    "unat l1 = min (t + unat (page_count e) * ?p) (unat v)"
    "concat (map item_disk items) = extent_disk g e"
    by (auto simp: w extent_disk_def add_mult_distrib)
  have "\<exists>items' l'. append_extents g v buffer es l1 = Inr (items', l') \<and>
      segments_ok g (unat v) buffer (t + unat (page_count e) * ?p) items' \<and>
      moved items' = extents_bytes g es \<and>
      unat l' = min (t + unat (page_count e) * ?p + extents_bytes g es) (unat v) \<and>
      concat (map item_disk items') = extents_disk g es"
    by (rule Cons.IH) (use Cons.prems a(4) in simp_all)
  then show ?case
    using a by (auto simp: segments_ok_append extents_disk_def ac_simps)
qed

text \<open>The pages an entry must own: enough for its bytes, and not one more.\<close>

definition entry_ok :: "storage_geometry \<Rightarrow> entry \<Rightarrow> bool" where
  "entry_ok g en \<longleftrightarrow> 0 < unat (en_logical_size en) \<and>
     (\<forall>e\<in>set (en_extents en). extent_in_range (geo_page_count g) e) \<and>
     distinct (extents_pages (en_extents en)) \<and>
     unat (en_logical_size en) \<le> extents_bytes g (en_extents en) \<and>
     extents_bytes g (en_extents en) < unat (en_logical_size en) + unat (page_size g)"

definition buffer_ok :: "u64 \<Rightarrow> u64 \<Rightarrow> bool" where
  "buffer_ok buffer sz \<longleftrightarrow> buffer \<noteq> 0 \<and> unat buffer + unat sz \<le> 2 ^ 64"

lemma append_segments_ok:
  assumes "geometry_ok g" and "entry_ok g en"
  shows "\<exists>items. append_segments g en buffer = Inr items \<and>
    segments_ok g (unat (en_logical_size en)) buffer 0 items \<and>
    moved items = extents_bytes g (en_extents en) \<and>
    concat (map item_disk items) = extents_disk g (en_extents en)"
proof -
  have "\<exists>items l'. append_extents g (en_logical_size en) buffer (en_extents en) 0 = Inr (items, l') \<and>
    segments_ok g (unat (en_logical_size en)) buffer 0 items \<and>
    moved items = extents_bytes g (en_extents en) \<and>
    unat l' = min (0 + extents_bytes g (en_extents en)) (unat (en_logical_size en)) \<and>
    concat (map item_disk items) = extents_disk g (en_extents en)"
    using assms by (intro append_extents_ok [where n = "extents_bytes g (en_extents en)"])
      (simp_all add: entry_ok_def extents_bytes_def)
  then obtain items l' where a: "append_extents g (en_logical_size en) buffer (en_extents en) 0 = Inr (items, l')"
    "segments_ok g (unat (en_logical_size en)) buffer 0 items"
    "moved items = extents_bytes g (en_extents en)"
    "unat l' = min (extents_bytes g (en_extents en)) (unat (en_logical_size en))"
    "concat (map item_disk items) = extents_disk g (en_extents en)" by auto
  have "l' = en_logical_size en" using a(4) assms(2) by (simp add: entry_ok_def word_unat_eq_iff)
  with a show ?thesis by (simp add: append_segments_def)
qed

lemma segments_nth:
  assumes "segments_ok g v buffer t items" and "k < length items"
  shows "segment_ok g v buffer (t + moved (take k items)) (items ! k)"
  using assms
proof (induction items arbitrary: t k)
  case (Cons it items)
  show ?case
  proof (cases k)
    case 0
    then show ?thesis using Cons.prems by simp
  next
    case (Suc j)
    then show ?thesis using Cons.IH [of "t + unat (it_physical_length it)" j] Cons.prems
      by (simp add: ac_simps)
  qed
qed simp

lemma extents_disk_bound:
  assumes g: "geometry_ok g" and es: "\<forall>e\<in>set es. extent_in_range (geo_page_count g) e"
    and x: "x \<in> set (extents_disk g es)"
  shows "x < unat (usable_capacity_bytes g)"
proof -
  obtain e where e: "e \<in> set es" "x \<in> set (extent_disk g e)"
    using x by (auto simp: extents_disk_def)
  then have "x < (unat (first_page e) + unat (page_count e)) * unat (page_size g)"
    by (simp add: extent_disk_def)
  also have "\<dots> \<le> unat (usable_capacity_bytes g)" using extent_words(3) [OF g] es e(1) by blast
  finally show ?thesis .
qed

text \<open>Distinct pages have distinct bytes.\<close>

lemma extents_disk_pages:
  assumes "0 < unat (page_size g)"
  shows "extents_disk g es = concat (map (\<lambda>p. [p * unat (page_size g) ..< (p + 1) * unat (page_size g)])
    (extents_pages es))"
proof (induction es)
  case (Cons e es)
  have "[a * P ..< (a + n) * P] = concat (map (\<lambda>p. [p * P ..< (p + 1) * P]) [a ..< a + n])" for a n P :: nat
  proof (induction n)
    case (Suc n)
    have "[a * P ..< (a + Suc n) * P] = [a * P ..< (a + n) * P] @ [(a + n) * P ..< (a + n + 1) * P]"
      by (subst upt_join) (auto simp: add_mult_distrib)
    then show ?case using Suc by simp
  qed simp
  then show ?case using Cons by (simp add: extents_disk_def extent_disk_def ext_pages_def)
qed (simp add: extents_disk_def)

lemma distinct_page_bytes:
  fixes P :: nat
  assumes "distinct ps"
  shows "distinct (concat (map (\<lambda>p. [p * P ..< (p + 1) * P]) ps))"
proof -
  have disj: "{p * P ..< (p + 1) * P} \<inter> {q * P ..< (q + 1) * P} = {}" if "p < q" for p q
  proof -
    have "(p + 1) * P \<le> q * P" using that by (intro mult_right_mono) simp_all
    then show ?thesis by auto
  qed
  have "{p * P ..< (p + 1) * P} \<inter> {q * P ..< (q + 1) * P} = {}" if "p \<noteq> q" for p q
    using that disj [of p q] disj [of q p] by (cases "p < q") auto
  then have "q * P \<le> x \<Longrightarrow> x < (q + 1) * P \<Longrightarrow> p * P \<le> x \<Longrightarrow> x < (p + 1) * P \<Longrightarrow> p = q" for p q x
    by (metis atLeastLessThan_iff disjoint_iff)
  note same = this
  show ?thesis
    using assms
  proof (induction ps)
    case (Cons p ps)
    have "x \<notin> set (concat (map (\<lambda>p. [p * P ..< (p + 1) * P]) ps))" if "x \<in> set [p * P ..< (p + 1) * P]" for x
      using that Cons.prems same [of _ x p] by auto
    then show ?case using Cons by auto
  qed simp
qed

section \<open>Exactness\<close>

lemma segments_value:
  assumes "segments_ok g v buffer t items" and "unat buffer + v \<le> 2 ^ 64" and "v < 2 ^ 64"
  shows "concat (map (item_value buffer) items) = [min t v ..< min (t + moved items) v]"
  using assms
proof (induction items arbitrary: t)
  case (Cons it items)
  let ?p = "unat (it_physical_length it)"
  have s: "segment_ok g v buffer t it" using Cons.prems(1) by simp
  then have t: "t < v" "it_buffer it - buffer = of_nat t" "unat (it_logical_length it) = min ?p (v - t)"
    by (simp_all add: segment_ok_def)
  have "unat (of_nat t :: u64) = t" using t(1) Cons.prems(3) by (simp add: unat_of_nat)
  then have "item_value buffer it = [min t v ..< min (t + ?p) v]"
    using t by (simp add: item_value_def) (simp add: min_def)
  moreover have "concat (map (item_value buffer) items) = [min (t + ?p) v ..< min (t + ?p + moved items) v]"
    using Cons by simp
  ultimately show ?case by (simp add: upt_join ac_simps)
qed simp

lemma segment_valid:
  assumes g: "geometry_ok g" and s: "segment_ok g v buffer t it"
    and b: "buffer \<noteq> 0" "unat buffer + v \<le> 2 ^ 64"
    and d: "\<forall>x\<in>set (item_disk it). x < unat (usable_capacity_bytes g)"
  shows "validate_item g it = Inr ()"
proof -
  have t: "t < v" "it_buffer it = buffer + of_nat t" using s by (simp_all add: segment_ok_def)
  have ut: "unat (of_nat t :: u64) = t" using t(1) b(2) by (simp add: unat_of_nat)
  have "unat (it_buffer it) = unat buffer + t"
    unfolding t(2) using t(1) b(2) by (subst unat_add_u64) (simp_all add: ut)
  then have "it_buffer it \<noteq> 0" using b(1) by (auto simp: unat_eq_iff)
  moreover have p: "0 < unat (it_physical_length it)" using s by (simp add: segment_ok_def)
  then have "unat (it_byte_offset it) + unat (it_physical_length it) - 1 \<in> set (item_disk it)"
    by (auto simp: item_disk_def)
  then have "unat (it_byte_offset it) + unat (it_physical_length it) - 1 < unat (usable_capacity_bytes g)"
    using d by blast
  then have "unat (it_byte_offset it) + unat (it_physical_length it) \<le> unat (usable_capacity_bytes g)"
    using p by linarith
  ultimately show ?thesis
    using s unfolding validate_item_iff segment_ok_def by simp
qed

text \<open>
  Property C19. The segments of a published entry are exactly right: the two \<open>logic_error\<close>
  checks of \<open>AppendSegments\<close> never fire, every segment passes \<open>validate_item\<close>, together the
  segments cover the bytes of the entry's pages once, in order, and the bytes of the caller's
  buffer once, in order.
\<close>

theorem entry_segments_exact:
  assumes "geometry_ok g" and "entry_ok g en" and "buffer_ok buffer (en_logical_size en)"
  shows "\<exists>items. append_segments g en buffer = Inr items \<and>
    (\<forall>it\<in>set items. validate_item g it = Inr ()) \<and>
    concat (map item_disk items) = extents_disk g (en_extents en) \<and>
    distinct (concat (map item_disk items)) \<and>
    concat (map (item_value buffer) items) = [0 ..< unat (en_logical_size en)]"
proof -
  let ?v = "unat (en_logical_size en)"
  obtain items where it: "append_segments g en buffer = Inr items" "segments_ok g ?v buffer 0 items"
    "moved items = extents_bytes g (en_extents en)"
    "concat (map item_disk items) = extents_disk g (en_extents en)"
    using append_segments_ok [OF assms(1,2)] by blast
  have b: "buffer \<noteq> 0" "unat buffer + ?v \<le> 2 ^ 64" using assms(3) by (simp_all add: buffer_ok_def)
  have "validate_item g x = Inr ()" if x: "x \<in> set items" for x
  proof -
    obtain k where "k < length items" "x = items ! k" using x by (auto simp: in_set_conv_nth)
    then have "segment_ok g ?v buffer (0 + moved (take k items)) x"
      using segments_nth [OF it(2)] by blast
    moreover have "set (item_disk x) \<subseteq> set (extents_disk g (en_extents en))"
      using x by (auto simp: it(4) [symmetric])
    then have "\<forall>y\<in>set (item_disk x). y < unat (usable_capacity_bytes g)"
      using extents_disk_bound [OF assms(1)] assms(2) by (auto simp: entry_ok_def)
    ultimately show ?thesis by (rule segment_valid [OF assms(1) _ b])
  qed
  moreover have "distinct (concat (map item_disk items))"
    using assms(1,2) distinct_page_bytes by (simp add: it(4) extents_disk_pages entry_ok_def geometry_ok_def)
  moreover have "concat (map (item_value buffer) items) = [0 ..< ?v]"
    using segments_value [OF it(2) b(2)] it(3) assms(2) by (simp add: entry_ok_def)
  ultimately show ?thesis using it(1,4) by blast
qed

text \<open>An entry of 10 bytes on two fragments, pages of 4 bytes and segments of 8.\<close>

definition small_geometry :: storage_geometry where
  "small_geometry = default_geometry
     \<lparr>capacity_bytes := 64, usable_capacity_bytes := 64, page_size := 4, geo_page_count := 16,
      io_segment_size := 8, block_size := 4, write_unit_blocks := 1, buffer_alignment := 8,
      spdk_buffer_count := 1\<rparr>"

definition small_entry :: entry where
  "small_entry = \<lparr>en_logical_size = 10,
     en_extents = [\<lparr>first_page = 1, page_count = 1\<rparr>, \<lparr>first_page = 5, page_count = 2\<rparr>]\<rparr>"

lemma small_geometry_ok: "geometry_ok small_geometry"
  by (simp add: geometry_ok_def small_geometry_def is_power_of_two_def)

theorem entry_segments_exact_witness:
  "\<exists>items. append_segments small_geometry small_entry 100 = Inr items \<and>
    (\<forall>it\<in>set items. validate_item small_geometry it = Inr ()) \<and>
    concat (map item_disk items) = extents_disk small_geometry (en_extents small_entry) \<and>
    distinct (concat (map item_disk items)) \<and>
    concat (map (item_value 100) items) = [0 ..< unat (en_logical_size small_entry)]"
  by (rule entry_segments_exact [OF small_geometry_ok])
    (simp_all add: entry_ok_def small_entry_def small_geometry_def extent_in_range_def ext_pages_def
      extents_bytes_def buffer_ok_def)

end
