(* ===== verification/Connector.thy ===== *)
theory Connector
  imports Segments Bdev_Batch
begin

text \<open>
  The connector of \<open>bdev/csrc/spdk_connector.cpp\<close>: keys are mapped to entries, values are
  written before they are published, pages are owned by exactly one entry.

  \<open>ConnectorBase\<close> is the client: it calls one operation per request on its worker threads. An
  operation holds the mutexes of the keys it names from its first access to their entries to
  its end, so operations are steps; the page allocator and the bdev context are shared and
  have atomic operations of their own. An operation returns \<open>None\<close> when its batch does not
  return.
\<close>

section \<open>State\<close>

text \<open>
  \<open>key_states_\<close>: a key state is made by the first use of its key and never removed, so a key
  stands for the pointer to it; what is inside is the entry, if any.
\<close>

record 'd connector =
  cn_context :: "'d spdk_state"
  cn_allocator :: page_allocator
  cn_key_states :: "(string, entry option) map"
  cn_worker_cpus :: "int list"
  cn_next_worker_cpu :: u64

type_synonym ('a, 'd) step = "('a result \<times> 'd connector) option"

definition new_connector ::
  "'d spdk_state \<Rightarrow> int list \<Rightarrow> 'd connector result" where
  "new_connector context worker_cpus =
     (case new_page_allocator (geo_page_count (bc_geometry context)) of
        Inl e \<Rightarrow> Inl e
      | Inr allocator \<Rightarrow>
          if worker_cpus = []
          then Inl (Invalid_argument ''connector_worker_cpus must not be empty'')
          else Inr \<lparr>cn_context = context, cn_allocator = allocator, cn_key_states = Map.empty,
                    cn_worker_cpus = worker_cpus, cn_next_worker_cpu = 0\<rparr>)"

text \<open>
  \<open>create_connection\<close>: pins a worker; \<open>setaffinity\<close> is the answer of \<open>sched_setaffinity\<close> for
  the CPU, \<open>Some errno\<close> when it failed. \<open>CPU_SETSIZE\<close> is 1024.
\<close>

definition create_connection ::
  "(int \<Rightarrow> int option) \<Rightarrow> 'd connector \<Rightarrow> unit result \<times> 'd connector" where
  "create_connection setaffinity c =
     (let cpu = cn_worker_cpus c ! (unat (cn_next_worker_cpu c) mod length (cn_worker_cpus c));
          c1 = c\<lparr>cn_next_worker_cpu := cn_next_worker_cpu c + 1\<rparr>
      in if cpu \<ge> 1024
         then (Inl (Invalid_argument ''connector worker CPU exceeds CPU_SETSIZE''), c1)
         else case setaffinity cpu of
                None \<Rightarrow> (Inr (), c1)
              | Some errno \<Rightarrow> (Inl (Runtime_error (''cannot pin connector worker to CPU '' @
                  int_to_string cpu @ '': errno '' @ int_to_string errno)), c1))"

text \<open>
  \<open>choose_num_tiles\<close>: how many parts \<open>ConnectorBase\<close> may split a request into; \<open>base\<close> is its
  own choice and \<open>tile_set\<close> its name for a batch store.
\<close>

definition choose_num_tiles :: "('op \<Rightarrow> u64 \<Rightarrow> u64) \<Rightarrow> 'op \<Rightarrow> 'op \<Rightarrow> u64 \<Rightarrow> u64" where
  "choose_num_tiles base tile_set op n = (if op = tile_set then 1 else base op n)"

text \<open>\<open>StateFor\<close> and the entry it leads to.\<close>

definition state_for :: "string \<Rightarrow> 'd connector \<Rightarrow> 'd connector" where
  "state_for key c =
     (case cn_key_states c key of
        None \<Rightarrow> c\<lparr>cn_key_states := (cn_key_states c)(key \<mapsto> None)\<rparr>
      | Some _ \<Rightarrow> c)"

fun states_for :: "string list \<Rightarrow> 'd connector \<Rightarrow> 'd connector" where
  "states_for [] c = c"
| "states_for (key # keys) c = states_for keys (state_for key c)"

definition entry_of :: "string \<Rightarrow> 'd connector \<Rightarrow> entry option" where
  "entry_of key c = Option.bind (cn_key_states c key) id"

definition set_entry :: "string \<Rightarrow> entry option \<Rightarrow> 'd connector \<Rightarrow> 'd connector" where
  "set_entry key en c = c\<lparr>cn_key_states := (cn_key_states c)(key \<mapsto> en)\<rparr>"

text \<open>
  \<open>LockStates\<close>: the mutexes of a request in the order they are taken; \<open>address\<close> is the address
  of a key's state.
\<close>

definition lock_states :: "(string \<Rightarrow> nat) \<Rightarrow> string list \<Rightarrow> string list" where
  "lock_states address keys = remdups_adj (sort_key address keys)"

section \<open>Storage\<close>

definition allocate_entry :: "u64 \<Rightarrow> 'd connector \<Rightarrow> entry result \<times> 'd connector" where
  "allocate_entry len c =
     (case pages_for_bytes (page_size (bc_geometry (cn_context c))) len of
        Inl e \<Rightarrow> (Inl e, c)
      | Inr n \<Rightarrow>
          (case allocate n (cn_allocator c) of
             (Inl e, a) \<Rightarrow> (Inl e, c\<lparr>cn_allocator := a\<rparr>)
           | (Inr es, a) \<Rightarrow>
               (Inr \<lparr>en_logical_size = len, en_extents = es\<rparr>, c\<lparr>cn_allocator := a\<rparr>)))"

definition release_extents :: "page_extent list \<Rightarrow> 'd connector \<Rightarrow> unit result \<times> 'd connector" where
  "release_extents es c =
     (case release es (cn_allocator c) of (r, a) \<Rightarrow> (r, c\<lparr>cn_allocator := a\<rparr>))"

text \<open>A batch run by the context.\<close>

definition run_batch ::
  "'d spdk_env \<Rightarrow> io_operation \<Rightarrow> io_batch_item list \<Rightarrow> 'd connector \<Rightarrow> (io_result list, 'd) step" where
  "run_batch env operation items c =
     (case (if operation = Op_read then read_batch env items (cn_context c)
            else write_batch env items (cn_context c)) of
        None \<Rightarrow> None
      | Some (r, s) \<Rightarrow> Some (r, c\<lparr>cn_context := s\<rparr>))"

definition transfer ::
  "'d spdk_env \<Rightarrow> io_operation \<Rightarrow> string \<Rightarrow> entry \<Rightarrow> u64 \<Rightarrow> 'd connector \<Rightarrow> (unit, 'd) step" where
  "transfer env operation caption en buffer c =
     (case append_segments (bc_geometry (cn_context c)) en buffer of
        Inl e \<Rightarrow> Some (Inl e, c)
      | Inr items \<Rightarrow>
          (case run_batch env operation items c of
             None \<Rightarrow> None
           | Some (Inl e, c1) \<Rightarrow> Some (Inl e, c1)
           | Some (Inr results, c1) \<Rightarrow> Some (require_success results caption, c1)))"

definition write_entry :: "'d spdk_env \<Rightarrow> entry \<Rightarrow> u64 \<Rightarrow> 'd connector \<Rightarrow> (unit, 'd) step" where
  "write_entry env = transfer env Op_write ''bdev write''"

definition read_entry :: "'d spdk_env \<Rightarrow> entry \<Rightarrow> u64 \<Rightarrow> 'd connector \<Rightarrow> (unit, 'd) step" where
  "read_entry env = transfer env Op_read ''bdev read''"

section \<open>Operations on one key\<close>

definition do_single_get ::
  "'d spdk_env \<Rightarrow> string \<Rightarrow> u64 \<Rightarrow> u64 \<Rightarrow> 'd connector \<Rightarrow> (unit, 'd) step" where
  "do_single_get env key buffer len c =
     (let c1 = state_for key c;
          refused = Some (Inl (Runtime_error ''key is missing or destination size does not match''), c1)
      in case entry_of key c1 of
           None \<Rightarrow> refused
         | Some en \<Rightarrow>
             if len \<noteq> en_logical_size en then refused else read_entry env en buffer c1)"

definition do_single_set ::
  "'d spdk_env \<Rightarrow> string \<Rightarrow> u64 \<Rightarrow> u64 \<Rightarrow> 'd connector \<Rightarrow> (unit, 'd) step" where
  "do_single_set env key buffer len c =
     (if len = 0 then Some (Inl (Invalid_argument ''values must not be empty''), c)
      else
        let c1 = state_for key c; current = entry_of key c1
        in if (case current of None \<Rightarrow> False | Some en \<Rightarrow> en_logical_size en \<noteq> len)
           then Some (Inr (), c1)
           else
             (case allocate_entry len c1 of
                (Inl e, c2) \<Rightarrow> Some (Inl e, c2)
              | (Inr replacement, c2) \<Rightarrow>
                  (case write_entry env replacement buffer c2 of
                     None \<Rightarrow> None
                   | Some (Inl e, c3) \<Rightarrow>
                       (case release_extents (en_extents replacement) c3 of
                          (Inl e', c4) \<Rightarrow> Some (Inl e', c4)
                        | (Inr _, c4) \<Rightarrow> Some (Inl e, c4))
                   | Some (Inr _, c3) \<Rightarrow>
                       let c4 = set_entry key (Some replacement) c3
                       in case current of
                            None \<Rightarrow> Some (Inr (), c4)
                          | Some previous \<Rightarrow> Some (release_extents (en_extents previous) c4))))"

definition do_single_exists :: "string \<Rightarrow> 'd connector \<Rightarrow> bool \<times> 'd connector" where
  "do_single_exists key c =
     (let c1 = state_for key c in (entry_of key c1 \<noteq> None, c1))"

definition do_single_delete :: "string \<Rightarrow> 'd connector \<Rightarrow> bool result \<times> 'd connector" where
  "do_single_delete key c =
     (let c1 = state_for key c
      in case entry_of key c1 of
           None \<Rightarrow> (Inr False, c1)
         | Some en \<Rightarrow>
             (case release_extents (en_extents en) (set_entry key None c1) of
                (Inl e, c2) \<Rightarrow> (Inl e, c2)
              | (Inr _, c2) \<Rightarrow> (Inr True, c2)))"

section \<open>Operations on several keys\<close>

text \<open>A request: each key with the address and the length of its buffer.\<close>

type_synonym request = "(string \<times> u64 \<times> u64) list"

text \<open>
  The loop of \<open>do_batch_get\<close>, from key \<open>i\<close> on: which keys can be read, the items, and the key
  of each item.
\<close>

fun get_items ::
  "nat \<Rightarrow> request \<Rightarrow> 'd connector \<Rightarrow> (bool list \<times> io_batch_item list \<times> nat list) result" where
  "get_items i [] c = Inr ([], [], [])"
| "get_items i ((key, buffer, len) # rest) c =
     (case entry_of key c of
        Some en \<Rightarrow>
          if len \<noteq> en_logical_size en
          then (case get_items (Suc i) rest c of
                  Inl e \<Rightarrow> Inl e | Inr (oks, items, ks) \<Rightarrow> Inr (False # oks, items, ks))
          else
            (case append_segments (bc_geometry (cn_context c)) en buffer of
               Inl e \<Rightarrow> Inl e
             | Inr its \<Rightarrow>
                 (case get_items (Suc i) rest c of
                    Inl e \<Rightarrow> Inl e
                  | Inr (oks, items, ks) \<Rightarrow>
                      Inr (True # oks, its @ items, replicate (length its) i @ ks)))
      | None \<Rightarrow>
          (case get_items (Suc i) rest c of
             Inl e \<Rightarrow> Inl e | Inr (oks, items, ks) \<Rightarrow> Inr (False # oks, items, ks)))"

text \<open>The loop over the results: a failed segment fails its key.\<close>

fun mark_failures :: "io_result list \<Rightarrow> nat list \<Rightarrow> bool list \<Rightarrow> bool list" where
  "mark_failures (r # rs) (k # ks) oks =
     mark_failures rs ks (if res_success r then oks else oks[k := False])"
| "mark_failures _ _ oks = oks"

definition do_batch_get ::
  "'d spdk_env \<Rightarrow> request \<Rightarrow> 'd connector \<Rightarrow> (bool list, 'd) step" where
  "do_batch_get env request c =
     (let c1 = states_for (map fst request) c
      in case get_items 0 request c1 of
           Inl e \<Rightarrow> Some (Inl e, c1)
         | Inr (oks, items, ks) \<Rightarrow>
             (case (if items = [] then Some (Inr [], c1) else run_batch env Op_read items c1) of
                None \<Rightarrow> None
              | Some (Inl e, c2) \<Rightarrow> Some (Inr (map (\<lambda>_. False) oks), c2)
              | Some (Inr results, c2) \<Rightarrow>
                  if length results \<noteq> length items
                  then Some (Inr (map (\<lambda>_. False) oks), c2)
                  else Some (Inr (mark_failures results ks oks), c2)))"

record reservation =
  rv_key :: string
  rv_entry :: entry
  rv_previous :: "entry option"

text \<open>
  The loop of \<open>do_batch_set\<close>: \<open>seen\<close> are the keys of the request so far. The reservations
  made before an exception are returned with it, for the handler to release.
\<close>

fun reserve_all ::
  "string set \<Rightarrow> request \<Rightarrow> 'd connector \<Rightarrow>
     (io_batch_item list result \<times> reservation list) \<times> 'd connector" where
  "reserve_all seen [] c = ((Inr [], []), c)"
| "reserve_all seen ((key, buffer, len) # rest) c =
     (if key \<in> seen
      then ((Inl (Invalid_argument ''batch store contains a duplicate key''), []), c)
      else if len = 0
      then ((Inl (Invalid_argument ''values must not be empty''), []), c)
      else if (case entry_of key c of None \<Rightarrow> False | Some en \<Rightarrow> en_logical_size en \<noteq> len)
      then reserve_all (insert key seen) rest c
      else
        (case allocate_entry len c of
           (Inl e, c1) \<Rightarrow> ((Inl e, []), c1)
         | (Inr en, c1) \<Rightarrow>
             let r = \<lparr>rv_key = key, rv_entry = en, rv_previous = entry_of key c\<rparr>
             in (case append_segments (bc_geometry (cn_context c1)) en buffer of
                   Inl e \<Rightarrow> ((Inl e, [r]), c1)
                 | Inr its \<Rightarrow>
                     (case reserve_all (insert key seen) rest c1 of
                        ((Inl e, rs), c2) \<Rightarrow> ((Inl e, r # rs), c2)
                      | ((Inr items, rs), c2) \<Rightarrow> ((Inr (its @ items), r # rs), c2)))))"

fun release_all_entries :: "page_extent list list \<Rightarrow> 'd connector \<Rightarrow> unit result \<times> 'd connector" where
  "release_all_entries [] c = (Inr (), c)"
| "release_all_entries (es # ess) c =
     (case release_extents es c of
        (Inl e, c1) \<Rightarrow> (Inl e, c1)
      | (Inr _, c1) \<Rightarrow> release_all_entries ess c1)"

definition write_reserved ::
  "'d spdk_env \<Rightarrow> io_batch_item list \<Rightarrow> 'd connector \<Rightarrow> (unit, 'd) step" where
  "write_reserved env items c =
     (if items = [] then Some (Inr (), c)
      else case run_batch env Op_write items c of
             None \<Rightarrow> None
           | Some (Inl e, c1) \<Rightarrow> Some (Inl e, c1)
           | Some (Inr results, c1) \<Rightarrow>
               if length results \<noteq> length items
               then Some (Inl (Runtime_error ''bdev write batch returned an unexpected result count''), c1)
               else Some (require_success results ''bdev write batch'', c1))"

definition do_batch_set ::
  "'d spdk_env \<Rightarrow> request \<Rightarrow> 'd connector \<Rightarrow> (unit, 'd) step" where
  "do_batch_set env request c =
     (let c1 = states_for (map fst request) c
      in case reserve_all {} request c1 of
           ((reserved, rs), c2) \<Rightarrow>
             (case (case reserved of Inl e \<Rightarrow> Some (Inl e, c2)
                    | Inr items \<Rightarrow> write_reserved env items c2) of
                None \<Rightarrow> None
              | Some (Inl e, c3) \<Rightarrow>
                  (case release_all_entries (map (en_extents \<circ> rv_entry) rs) c3 of
                     (Inl e', c4) \<Rightarrow> Some (Inl e', c4)
                   | (Inr _, c4) \<Rightarrow> Some (Inl e, c4))
              | Some (Inr _, c3) \<Rightarrow>
                  let c4 = fold (\<lambda>r. set_entry (rv_key r) (Some (rv_entry r))) rs c3
                  in Some (release_all_entries
                       (concat (map (\<lambda>r. case rv_previous r of None \<Rightarrow> [] | Some p \<Rightarrow> [en_extents p]) rs)) c4)))"

end
