(* ===== verification/Connector_Pages.thy ===== *)
theory Connector_Pages
  imports Connector
begin

text \<open>
  Who owns the pages: in every state between two operations each page is free or lies in the
  entry of exactly one key, and within an operation in exactly one reservation. Every operation
  of the connector keeps this, whatever the bdev answers; failed stores change no mapping.
\<close>

section \<open>The ledger of the connector\<close>

datatype owner = Published string | Reserved nat

definition published :: "'d connector \<Rightarrow> string \<Rightarrow> page_extent list" where
  "published c key = (case entry_of key c of None \<Rightarrow> [] | Some en \<Rightarrow> en_extents en)"

definition owners :: "'d connector \<Rightarrow> (nat \<Rightarrow> page_extent list) \<Rightarrow> owner \<Rightarrow> page_extent list" where
  "owners c res o' = (case o' of Published key \<Rightarrow> published c key | Reserved i \<Rightarrow> res i)"

abbreviation geom :: "'d connector \<Rightarrow> storage_geometry" where
  "geom c \<equiv> bc_geometry (cn_context c)"

definition conn_inv :: "(nat \<Rightarrow> page_extent list) \<Rightarrow> 'd connector \<Rightarrow> bool" where
  "conn_inv res c \<longleftrightarrow> geometry_ok (geom c) \<and>
     total_page_count (cn_allocator c) = geo_page_count (geom c) \<and>
     pages.ledger (owners c res) (cn_allocator c) \<and>
     (\<forall>key en. entry_of key c = Some en \<longrightarrow> entry_ok (geom c) en)"

abbreviation no_reservation :: "nat \<Rightarrow> page_extent list" where
  "no_reservation \<equiv> (\<lambda>_. [])"

lemma owners_reserve: "owners c (res(i := es)) = (owners c res)(Reserved i := es)"
  by (auto simp: owners_def fun_eq_iff split: owner.split)

lemma owners_cong:
  "(\<And>key. entry_of key c' = entry_of key c) \<Longrightarrow> owners c' res = owners c res"
  by (auto simp: owners_def published_def fun_eq_iff split: owner.split)

lemma owners_allocator [simp]: "owners (c\<lparr>cn_allocator := a\<rparr>) res = owners c res"
  by (rule owners_cong) (simp add: entry_of_def)

lemma entry_of_simps [simp]:
  "entry_of key (c\<lparr>cn_allocator := a\<rparr>) = entry_of key c"
  "entry_of key (c\<lparr>cn_context := s\<rparr>) = entry_of key c"
  "entry_of key (state_for key' c) = entry_of key c"
  "entry_of key (states_for keys c) = entry_of key c"
  "entry_of key (set_entry key' en c) = (if key = key' then en else entry_of key c)"
proof -
  show s: "entry_of key (state_for key' c) = entry_of key c" for key' c
    by (simp add: entry_of_def state_for_def split: option.split)
  show "entry_of key (states_for keys c) = entry_of key c"
    by (induction keys arbitrary: c) (simp_all add: s)
qed (simp_all add: entry_of_def set_entry_def)

lemma connector_frame [simp]:
  "cn_context (state_for key c) = cn_context c" "cn_allocator (state_for key c) = cn_allocator c"
  "cn_context (states_for keys c) = cn_context c" "cn_allocator (states_for keys c) = cn_allocator c"
  "cn_context (set_entry key en c) = cn_context c" "cn_allocator (set_entry key en c) = cn_allocator c"
proof -
  show a: "cn_context (state_for key c) = cn_context c" "cn_allocator (state_for key c) = cn_allocator c"
    for key c by (simp_all add: state_for_def split: option.split)
  show "cn_context (states_for keys c) = cn_context c" "cn_allocator (states_for keys c) = cn_allocator c"
    by (induction keys arbitrary: c) (simp_all add: a)
qed (simp_all add: set_entry_def)

lemma conn_inv_cong:
  assumes "\<And>key. entry_of key c' = entry_of key c" "cn_allocator c' = cn_allocator c"
    "geom c' = geom c"
  shows "conn_inv res c' = conn_inv res c"
proof -
  have "owners c' res = owners c res" by (rule owners_cong [OF assms(1)])
  then show ?thesis by (simp add: conn_inv_def assms)
qed

lemma conn_inv_state_for [simp]:
  "conn_inv res (state_for key c) = conn_inv res c"
  "conn_inv res (states_for keys c) = conn_inv res c"
  by (rule conn_inv_cong; simp)+

lemma run_batch_frame:
  assumes "run_batch env operation items c = Some (r, c')"
  shows "entry_of key c' = entry_of key c" "cn_allocator c' = cn_allocator c" "geom c' = geom c"
    "conn_inv res c' = conn_inv res c"
proof -
  obtain s where s: "submit_batch_and_wait env operation items (cn_context c) = Some (r, s)"
    "c' = c\<lparr>cn_context := s\<rparr>"
    using assms by (cases operation)
      (auto simp: run_batch_def read_batch_def write_batch_def split: option.splits)
  show a: "entry_of key c' = entry_of key c" "cn_allocator c' = cn_allocator c" "geom c' = geom c" for key
    using batch_geometry [OF s(1)] by (simp_all add: s(2))
  show "conn_inv res c' = conn_inv res c" by (rule conn_inv_cong [OF a])
qed

lemma transfer_frame:
  assumes "transfer env operation caption en buffer c = Some (r, c')"
  shows "entry_of key c' = entry_of key c" "cn_allocator c' = cn_allocator c" "geom c' = geom c"
    "conn_inv res c' = conn_inv res c"
  using assms run_batch_frame [of env operation]
  by (auto simp: transfer_def split: sum.splits option.splits prod.splits)

section \<open>Allocating and releasing entries\<close>

lemma allocate_entry_ok:
  assumes inv: "conn_inv res c" and free: "res i = []" and len: "len \<noteq> 0"
    and a: "allocate_entry len c = (Inr en, c')"
  shows "conn_inv (res(i := en_extents en)) c'" and "entry_ok (geom c) en"
    and "en_logical_size en = len" and "entry_of key c' = entry_of key c"
    and "cn_context c' = cn_context c"
proof -
  let ?p = "page_size (geom c)"
  obtain n es al where n: "pages_for_bytes ?p len = Inr n" and al: "allocate n (cn_allocator c) = (Inr es, al)"
    and en: "en = \<lparr>en_logical_size = len, en_extents = es\<rparr>" and c': "c' = c\<lparr>cn_allocator := al\<rparr>"
    using a by (auto simp: allocate_entry_def split: sum.splits prod.splits)
  have led: "pages.ledger (owners c res) (cn_allocator c)" and g: "geometry_ok (geom c)"
    and tot: "total_page_count (cn_allocator c) = geo_page_count (geom c)"
    using inv by (simp_all add: conn_inv_def)
  have "owners c res (Reserved i) = []" using free by (simp add: owners_def)
  note r = pages.ledger_reserve [OF led this al]
  have ainv: "alloc_inv (cn_allocator c)" using led by (simp add: pages.ledger_def)
  note ok = pages.reserve_ok [OF ainv al]
  have p: "?p \<noteq> 0" "0 < unat ?p" using g by (auto simp: geometry_ok_def)
  have "\<not> 2 ^ 64 < unat len + unat ?p" using pages_for_bytes_overflow [OF p(1), of len] n by auto
  then have un: "unat n = (unat len + unat ?p - 1) div unat ?p"
    using pages_for_bytes_ok [OF p(1), of len] n by auto
  have l0: "0 < unat len" using len by (simp add: unat_gt_0)
  have "unat n * unat ?p \<le> unat len + unat ?p - 1"
    unfolding un by (rule div_times_less_eq_dividend)
  moreover have "unat len + unat ?p - 1 < unat ?p + unat n * unat ?p"
    unfolding un by (rule dividend_less_div_times [OF p(2)])
  ultimately have "unat n * unat ?p < unat len + unat ?p" "unat len \<le> unat n * unat ?p"
    using l0 by linarith+
  then show e: "entry_ok (geom c) en"
    using ok l0 p(2) tot r(2) by (auto simp: entry_ok_def en extents_bytes_def)
  show "conn_inv (res(i := en_extents en)) c'"
    using inv r(1) ok by (simp add: conn_inv_def c' en owners_reserve)
  show "en_logical_size en = len" "entry_of key c' = entry_of key c" "cn_context c' = cn_context c"
    by (simp_all add: en c')
qed

lemma allocate_entry_error:
  assumes "conn_inv res c" and "allocate_entry len c = (Inl e, c')"
  shows "c' = c"
proof -
  have "alloc_inv (cn_allocator c)" using assms(1) by (simp add: conn_inv_def pages.ledger_def)
  then show ?thesis
    using assms(2) pages.reserve_err
    by (fastforce simp: allocate_entry_def split: sum.splits prod.splits)
qed

lemma release_reserved:
  assumes inv: "conn_inv res c"
  shows "\<exists>a. release_extents (res i) c = (Inr (), c\<lparr>cn_allocator := a\<rparr>) \<and>
    conn_inv (res(i := [])) (c\<lparr>cn_allocator := a\<rparr>)"
proof -
  have led: "pages.ledger (owners c res) (cn_allocator c)" using inv by (simp add: conn_inv_def)
  obtain a where a: "release (res i) (cn_allocator c) = (Inr (), a)"
    "pages.ledger ((owners c res)(Reserved i := [])) a"
    "total_page_count a = total_page_count (cn_allocator c)"
    using pages.ledger_give_back [OF led, of "Reserved i"] by (auto simp: owners_def)
  then show ?thesis
    using inv by (auto simp: release_extents_def conn_inv_def owners_reserve)
qed

text \<open>Publishing a reservation exchanges it for the extents of the entry it replaces.\<close>

lemma publish_reserved:
  assumes inv: "conn_inv res c" and "res i = en_extents en" and "entry_ok (geom c) en"
  shows "conn_inv (res(i := published c key)) (set_entry key (Some en) c)"
proof -
  have "owners (set_entry key (Some en) c) (res(i := published c key)) =
      (owners c res)(Published key := owners c res (Reserved i), Reserved i := owners c res (Published key))"
    using assms(2) by (auto simp: owners_def published_def fun_eq_iff split: owner.split)
  then have "pages.ledger (owners (set_entry key (Some en) c) (res(i := published c key))) (cn_allocator c)"
    using pages.ledger_swap [of "owners c res" "cn_allocator c" "Published key" "Reserved i"] inv
    by (simp add: conn_inv_def)
  then show ?thesis using inv assms(3) by (simp add: conn_inv_def)
qed

text \<open>Taking an entry back makes its extents a reservation.\<close>

lemma withdraw_entry:
  assumes inv: "conn_inv res c" and "res i = []"
  shows "conn_inv (res(i := published c key)) (set_entry key None c)"
proof -
  have "owners (set_entry key None c) (res(i := published c key)) =
      (owners c res)(Published key := owners c res (Reserved i), Reserved i := owners c res (Published key))"
    using assms(2) by (auto simp: owners_def published_def fun_eq_iff split: owner.split)
  then have "pages.ledger (owners (set_entry key None c) (res(i := published c key))) (cn_allocator c)"
    using pages.ledger_swap [of "owners c res" "cn_allocator c" "Published key" "Reserved i"] inv
    by (simp add: conn_inv_def)
  then show ?thesis using inv by (simp add: conn_inv_def)
qed

text \<open>The free pages are determined by who owns what.\<close>

lemma ledger_free: "pages.ledger own a \<Longrightarrow>
    set (free_pages a) = {..<unat (total_page_count a)} - pages.held own"
  by (auto simp: pages.ledger_def)

lemma free_determined:
  assumes "conn_inv res c" and "conn_inv res c'" and "\<And>key. entry_of key c' = entry_of key c"
    and "geom c' = geom c"
  shows "set (free_pages (cn_allocator c')) = set (free_pages (cn_allocator c))"
proof -
  have own: "owners c' res = owners c res" by (rule owners_cong [OF assms(3)])
  have "pages.ledger (owners c res) (cn_allocator c)" "pages.ledger (owners c res) (cn_allocator c')"
    "total_page_count (cn_allocator c') = total_page_count (cn_allocator c)"
    using assms own by (simp_all add: conn_inv_def)
  then show ?thesis by (simp add: ledger_free)
qed

section \<open>One key\<close>

text \<open>What an operation may do to the entries, seen from outside: the sizes of the values.\<close>

definition sizes :: "'d connector \<Rightarrow> (string, u64) map" where
  "sizes c key = map_option en_logical_size (entry_of key c)"

lemma sizes_eq: "(\<And>key. entry_of key c' = entry_of key c) \<Longrightarrow> sizes c' = sizes c"
  by (simp add: sizes_def fun_eq_iff)

text \<open>A value of \<open>len\<close> bytes was written to fresh pages and published under \<open>key\<close>.\<close>

definition stored ::
  "'d spdk_env \<Rightarrow> string \<Rightarrow> u64 \<Rightarrow> u64 \<Rightarrow> 'd connector \<Rightarrow> 'd connector \<Rightarrow> bool" where
  "stored env key buffer len c c' \<longleftrightarrow>
     (\<forall>k. k \<noteq> key \<longrightarrow> entry_of k c' = entry_of k c) \<and>
     (\<exists>en c1 c2. entry_of key c' = Some en \<and> en_logical_size en = len \<and> entry_ok (geom c) en \<and>
        cn_context c1 = cn_context c \<and> write_entry env en buffer c1 = Some (Inr (), c2) \<and>
        cn_context c' = cn_context c2)"

definition other_size :: "string \<Rightarrow> u64 \<Rightarrow> 'd connector \<Rightarrow> bool" where
  "other_size key len c \<longleftrightarrow> (case entry_of key c of None \<Rightarrow> False | Some en \<Rightarrow> en_logical_size en \<noteq> len)"

lemma do_single_set_effect:
  assumes inv: "conn_inv no_reservation c" and set: "do_single_set env key buffer len c = Some (r, c')"
  shows "conn_inv no_reservation c' \<and>
    (if r = Inr () \<and> \<not> other_size key len c then len \<noteq> 0 \<and> stored env key buffer len c c'
     else (\<forall>k. entry_of k c' = entry_of k c) \<and> (r = Inr () \<longrightarrow> len \<noteq> 0))"
proof (cases "len = 0 \<or> other_size key len c")
  case True
  then show ?thesis
    using set inv by (auto simp: do_single_set_def other_size_def Let_def split: if_splits)
next
  case False
  let ?c1 = "state_for key c"
  have i1: "conn_inv no_reservation ?c1" using inv by simp
  have len0: "len \<noteq> 0" and o: "\<not> (case entry_of key c of None \<Rightarrow> False | Some en \<Rightarrow> en_logical_size en \<noteq> len)"
    using False by (simp_all add: other_size_def)
  obtain ra c2 where al: "allocate_entry len ?c1 = (ra, c2)" by fastforce
  show ?thesis
  proof (cases ra)
    case (Inl e)
    then have "r = Inl e" "c' = c2" using set len0 o al by (simp_all add: do_single_set_def Let_def)
    moreover have "c2 = ?c1" using allocate_entry_error [OF i1] al Inl by simp
    ultimately show ?thesis using i1 by simp
  next
    case (Inr en)
    let ?res = "no_reservation(0 := en_extents en)"
    have ok: "conn_inv ?res c2" "entry_ok (geom c) en" "en_logical_size en = len"
      "\<And>k. entry_of k c2 = entry_of k c" "cn_context c2 = cn_context c"
      using allocate_entry_ok [of no_reservation ?c1 0 len en c2] i1 len0 al Inr by simp_all
    obtain rw c3 where w: "write_entry env en buffer c2 = Some (rw, c3)"
      using set len0 o al Inr by (auto simp: do_single_set_def Let_def split: option.splits)
    note fr = transfer_frame [OF w [unfolded write_entry_def]]
    have i3: "conn_inv ?res c3" and e3: "\<And>k. entry_of k c3 = entry_of k c" and g: "geom c3 = geom c"
      using ok fr by simp_all
    have clear: "?res(0 := x, 0 := []) = no_reservation" "?res(0 := []) = no_reservation" for x by auto
    show ?thesis
    proof (cases rw)
      case (Inl e)
      obtain a where rel: "release_extents (en_extents en) c3 = (Inr (), c3\<lparr>cn_allocator := a\<rparr>)"
        "conn_inv no_reservation (c3\<lparr>cn_allocator := a\<rparr>)"
        using release_reserved [OF i3, of 0] clear by auto
      have "r = Inl e" "c' = c3\<lparr>cn_allocator := a\<rparr>"
        using set len0 o al \<open>ra = Inr en\<close> w Inl rel(1) by (simp_all add: do_single_set_def Let_def)
      then show ?thesis using rel(2) e3 by simp
    next
      case (Inr u)
      let ?c4 = "set_entry key (Some en) c3"
      have i4: "conn_inv (?res(0 := published c3 key)) ?c4"
        using publish_reserved [OF i3, of 0 en key] ok(2) g by simp
      obtain a where rel: "release_extents (published c3 key) ?c4 = (Inr (), ?c4\<lparr>cn_allocator := a\<rparr>)"
        "conn_inv no_reservation (?c4\<lparr>cn_allocator := a\<rparr>)"
        using release_reserved [OF i4, of 0] clear by auto
      have "r = Inr () \<and> conn_inv no_reservation c' \<and> (c' = ?c4 \<or> c' = ?c4\<lparr>cn_allocator := a\<rparr>)"
      proof (cases "entry_of key c")
        case None
        then have "conn_inv no_reservation ?c4" using i4 clear by (simp add: published_def e3)
        then show ?thesis
          using None set len0 o al \<open>ra = Inr en\<close> w Inr by (simp add: do_single_set_def Let_def)
      next
        case (Some p)
        then have "published c3 key = en_extents p" by (simp add: published_def e3)
        then show ?thesis
          using Some set len0 o al \<open>ra = Inr en\<close> w Inr rel by (simp add: do_single_set_def Let_def)
      qed
      moreover from this have "entry_of key c' = Some en" "cn_context c' = cn_context c3"
        "\<forall>k. k \<noteq> key \<longrightarrow> entry_of k c' = entry_of k c" using e3 by auto
      then have "stored env key buffer len c c'"
        unfolding stored_def using ok(2,3,5) w Inr
        by (intro conjI exI [of _ en] exI [of _ c2] exI [of _ c3]) simp_all
      ultimately show ?thesis using False by simp
    qed
  qed
qed

lemma do_single_get_effect:
  assumes inv: "conn_inv no_reservation c" and get: "do_single_get env key buffer len c = Some (r, c')"
  shows "conn_inv no_reservation c' \<and> (\<forall>k. entry_of k c' = entry_of k c) \<and>
    (r = Inr () \<longrightarrow> (\<exists>en c1. entry_of key c = Some en \<and> en_logical_size en = len \<and>
       cn_context c1 = cn_context c \<and> read_entry env en buffer c1 = Some (Inr (), c')))"
proof (cases "entry_of key c")
  case None
  then show ?thesis using get inv by (auto simp: do_single_get_def Let_def)
next
  case (Some en)
  show ?thesis
  proof (cases "len = en_logical_size en")
    case False
    then show ?thesis using Some get inv by (auto simp: do_single_get_def Let_def)
  next
    case True
    then have w: "read_entry env en buffer (state_for key c) = Some (r, c')"
      using Some get by (simp add: do_single_get_def Let_def)
    note fr = transfer_frame [OF w [unfolded read_entry_def]]
    have "\<exists>en c1. entry_of key c = Some en \<and> en_logical_size en = len \<and>
       cn_context c1 = cn_context c \<and> read_entry env en buffer c1 = Some (Inr (), c')" if "r = Inr ()"
      using Some True w that by (intro exI [of _ en] exI [of _ "state_for key c"]) simp
    then show ?thesis using fr inv by simp
  qed
qed

lemma do_single_delete_effect:
  assumes inv: "conn_inv no_reservation c" and del: "do_single_delete key c = (r, c')"
  shows "conn_inv no_reservation c' \<and> r = Inr (entry_of key c \<noteq> None) \<and>
    (\<forall>k. entry_of k c' = (if k = key then None else entry_of k c)) \<and> cn_context c' = cn_context c"
proof (cases "entry_of key c")
  case None
  then show ?thesis using del inv by (auto simp: do_single_delete_def Let_def)
next
  case (Some en)
  let ?c1 = "state_for key c"
  have i1: "conn_inv no_reservation ?c1" using inv by simp
  have pub: "published ?c1 key = en_extents en" by (simp add: published_def Some)
  have i2: "conn_inv (no_reservation(0 := en_extents en)) (set_entry key None ?c1)"
    using withdraw_entry [OF i1, of 0 key] pub by simp
  have up: "no_reservation(0 := x, 0 := []) = no_reservation" for x by auto
  obtain a where "release_extents (en_extents en) (set_entry key None ?c1) =
      (Inr (), (set_entry key None ?c1)\<lparr>cn_allocator := a\<rparr>)"
    "conn_inv no_reservation ((set_entry key None ?c1)\<lparr>cn_allocator := a\<rparr>)"
    using release_reserved [OF i2, of 0] up by auto
  then show ?thesis using Some del by (auto simp: do_single_delete_def Let_def)
qed

section \<open>Several keys\<close>

text \<open>Reservations \<open>k\<close> to \<open>k + length rs\<close>.\<close>

definition reserve_from :: "nat \<Rightarrow> page_extent list list \<Rightarrow> nat \<Rightarrow> page_extent list" where
  "reserve_from k ess i = (if k \<le> i \<and> i < k + length ess then ess ! (i - k) else [])"

lemma reserve_from_Nil [simp]: "reserve_from k [] = no_reservation"
  by (rule ext) (auto simp: reserve_from_def)

lemma reserve_from_Cons: "reserve_from k (es # ess) = (reserve_from (Suc k) ess)(k := es)"
  by (rule ext) (auto simp: reserve_from_def nth_Cons')

lemma release_all_reserved:
  assumes "conn_inv (reserve_from k ess) c"
  shows "\<exists>a. release_all_entries ess c = (Inr (), c\<lparr>cn_allocator := a\<rparr>) \<and>
    conn_inv no_reservation (c\<lparr>cn_allocator := a\<rparr>)"
  using assms
proof (induction ess arbitrary: k c)
  case Nil
  then show ?case by (intro exI [of _ "cn_allocator c"]) simp
next
  case (Cons es ess)
  let ?res = "(reserve_from (Suc k) ess)(k := es)"
  have i: "conn_inv ?res c" using Cons.prems by (simp only: reserve_from_Cons)
  obtain a where a: "release_extents es c = (Inr (), c\<lparr>cn_allocator := a\<rparr>)"
    "conn_inv (?res(k := [])) (c\<lparr>cn_allocator := a\<rparr>)"
    using release_reserved [OF i, of k] by auto
  have "?res(k := []) = reserve_from (Suc k) ess"
    by (auto simp: reserve_from_def fun_eq_iff)
  with a(2) Cons.IH obtain b where "release_all_entries ess (c\<lparr>cn_allocator := a\<rparr>) =
      (Inr (), c\<lparr>cn_allocator := a, cn_allocator := b\<rparr>)"
    "conn_inv no_reservation (c\<lparr>cn_allocator := a, cn_allocator := b\<rparr>)" by metis
  then show ?case using a(1) by (intro exI [of _ b]) simp
qed

text \<open>What the reserving loop of a batch store returns.\<close>

definition reserved_ok ::
  "string set \<Rightarrow> request \<Rightarrow> 'd connector \<Rightarrow> reservation list \<Rightarrow> bool" where
  "reserved_ok seen request c rs \<longleftrightarrow>
     (\<forall>r\<in>set rs. entry_ok (geom c) (rv_entry r) \<and> rv_previous r = entry_of (rv_key r) c \<and>
        rv_key r \<notin> seen \<and> \<not> other_size (rv_key r) (en_logical_size (rv_entry r)) c \<and>
        (\<exists>buffer. (rv_key r, buffer, en_logical_size (rv_entry r)) \<in> set request)) \<and>
     distinct (map rv_key rs)"

text \<open>The reservations below \<open>k\<close>, and new ones from \<open>k\<close> on.\<close>

definition layer :: "nat \<Rightarrow> (nat \<Rightarrow> page_extent list) \<Rightarrow> page_extent list list \<Rightarrow> nat \<Rightarrow> page_extent list" where
  "layer k res ess = (\<lambda>i. if i < k then res i else reserve_from k ess i)"

lemma layer_Nil: "(\<And>i. k \<le> i \<Longrightarrow> res i = []) \<Longrightarrow> layer k res [] = res"
  by (auto simp: layer_def fun_eq_iff)

lemma layer_Cons: "layer k res (es # ess) = layer (Suc k) (res(k := es)) ess"
  by (auto simp: layer_def fun_eq_iff reserve_from_def nth_Cons')

lemma layer_0: "layer 0 res ess = reserve_from 0 ess"
  by (simp add: layer_def)

lemma reserve_all_effect:
  assumes "conn_inv res c" and "\<And>i. k \<le> i \<Longrightarrow> res i = []"
    and "reserve_all seen request c = ((q, rs), c')"
  shows "conn_inv (layer k res (map (en_extents \<circ> rv_entry) rs)) c' \<and>
    reserved_ok seen request c rs \<and> (\<forall>key. entry_of key c' = entry_of key c) \<and>
    cn_context c' = cn_context c \<and>
    (\<forall>items. q = Inr items \<longrightarrow> distinct (map fst request) \<and> fst ` set request \<inter> seen = {} \<and>
       (\<forall>(key, buffer, len)\<in>set request. len \<noteq> 0 \<and> (other_size key len c \<or>
          (\<exists>r\<in>set rs. rv_key r = key \<and> en_logical_size (rv_entry r) = len))))"
  using assms
proof (induction seen request c arbitrary: k res q rs c' rule: reserve_all.induct)
  case (1 seen c)
  then show ?case using layer_Nil [of k res] by (auto simp: reserved_ok_def)
next
  case (2 seen key buffer len rest c)
  have i0: "conn_inv (layer k res []) c" using "2.prems"(1,2) by (simp add: layer_Nil)
  show ?case
  proof (cases "key \<in> seen \<or> len = 0")
    case True
    then have "rs = []" "\<exists>e. q = Inl e" "c' = c" using "2.prems"(3) by (auto split: if_splits)
    then show ?thesis using i0 by (auto simp: reserved_ok_def)
  next
    case False
    then have new: "key \<notin> seen" "len \<noteq> 0" by simp_all
    show ?thesis
    proof (cases "other_size key len c")
      case True
      then have o: "case entry_of key c of None \<Rightarrow> False | Some en \<Rightarrow> en_logical_size en \<noteq> len"
        by (simp add: other_size_def)
      then have rec: "reserve_all (insert key seen) rest c = ((q, rs), c')"
        using "2.prems"(3) new by simp
      note ih = "2.IH"(1) [OF new(1,2) o "2.prems"(1,2) rec]
      then have "reserved_ok seen ((key, buffer, len) # rest) c rs" by (auto simp: reserved_ok_def)
      then show ?thesis using ih True new by auto
    next
      case False
      then have o: "\<not> (case entry_of key c of None \<Rightarrow> False | Some en \<Rightarrow> en_logical_size en \<noteq> len)"
        by (simp add: other_size_def)
      obtain ra c1 where al: "allocate_entry len c = (ra, c1)" by fastforce
      show ?thesis
      proof (cases ra)
        case (Inl e)
        then have "c1 = c" "q = Inl e" "rs = []" "c' = c1"
          using allocate_entry_error [OF "2.prems"(1)] al "2.prems"(3) new o by auto
        then show ?thesis using i0 by (simp add: reserved_ok_def)
      next
        case (Inr en)
        let ?r = "\<lparr>rv_key = key, rv_entry = en, rv_previous = entry_of key c\<rparr>"
        let ?res = "res(k := en_extents en)"
        have ok: "conn_inv ?res c1" "entry_ok (geom c) en" "en_logical_size en = len"
          "\<And>x. entry_of x c1 = entry_of x c" "cn_context c1 = cn_context c"
          using allocate_entry_ok [of res c k len en c1] "2.prems"(1,2) new(2) al Inr by simp_all
        have z: "?res i = []" if "Suc k \<le> i" for i using "2.prems"(2) that by simp
        show ?thesis
        proof (cases "append_segments (geom c1) en buffer")
          case (Inl e)
          then have q: "q = Inl e" "rs = [?r]" "c' = c1" using "2.prems"(3) new o al \<open>ra = Inr en\<close> by auto
          have "layer k res [en_extents en] = ?res"
            unfolding layer_Cons using z by (rule layer_Nil)
          then have "conn_inv (layer k res [en_extents en]) c1" using ok(1) by (simp only:)
          moreover have "reserved_ok seen ((key, buffer, len) # rest) c [?r]"
            using ok False new by (auto simp: reserved_ok_def)
          ultimately show ?thesis using ok by (simp add: q)
        next
          case its: (Inr its)
          obtain q2 rs2 c2 where rec: "reserve_all (insert key seen) rest c1 = ((q2, rs2), c2)"
            by (metis prod.exhaust)
          then have q: "rs = ?r # rs2" "c' = c2" "q = (case q2 of Inl e \<Rightarrow> Inl e | Inr items \<Rightarrow> Inr (its @ items))"
            using "2.prems"(3) new o al \<open>ra = Inr en\<close> its by (auto simp: Let_def split: sum.splits)
          note IH = "2.IH"(2) [OF new(1,2) o al [symmetric] Inr refl its ok(1) z rec]
          have ih: "conn_inv (layer (Suc k) ?res (map (en_extents \<circ> rv_entry) rs2)) c2"
            "reserved_ok (insert key seen) rest c1 rs2" "\<forall>x. entry_of x c2 = entry_of x c1"
            "cn_context c2 = cn_context c1"
            "\<forall>items. q2 = Inr items \<longrightarrow> distinct (map fst rest) \<and> fst ` set rest \<inter> insert key seen = {} \<and>
               (\<forall>(key, buffer, len)\<in>set rest. len \<noteq> 0 \<and> (other_size key len c1 \<or>
                  (\<exists>r\<in>set rs2. rv_key r = key \<and> en_logical_size (rv_entry r) = len)))"
            subgoal by (rule IH [THEN conjunct1])
            subgoal by (rule IH [THEN conjunct2, THEN conjunct1])
            subgoal by (rule IH [THEN conjunct2, THEN conjunct2, THEN conjunct1])
            subgoal by (rule IH [THEN conjunct2, THEN conjunct2, THEN conjunct2, THEN conjunct1])
            subgoal by (rule IH [THEN conjunct2, THEN conjunct2, THEN conjunct2, THEN conjunct2])
            done
          have os: "other_size x l c1 = other_size x l c" for x l by (simp add: other_size_def ok(4))
          have nk: "rv_key r \<noteq> key" if "r \<in> set rs2" for r
            using ih(2) that by (auto simp: reserved_ok_def)
          have "reserved_ok seen ((key, buffer, len) # rest) c rs"
            using ih(2) ok False new nk by (auto simp: reserved_ok_def q os)
          moreover have "conn_inv (layer k res (map (en_extents \<circ> rv_entry) rs)) c'"
            using ih(1) unfolding q by (simp only: list.map layer_Cons o_apply reservation.simps)
          moreover have "\<forall>items. q = Inr items \<longrightarrow>
              distinct (map fst ((key, buffer, len) # rest)) \<and>
              fst ` set ((key, buffer, len) # rest) \<inter> seen = {} \<and>
              (\<forall>(key, buffer, len)\<in>set ((key, buffer, len) # rest). len \<noteq> 0 \<and> (other_size key len c \<or>
                 (\<exists>r\<in>set rs. rv_key r = key \<and> en_logical_size (rv_entry r) = len)))"
            using ih(5) new ok(3) by (cases q2) (auto simp: q os)
          moreover have "\<forall>key. entry_of key c' = entry_of key c" "cn_context c' = cn_context c"
            using ih(3,4) ok(4,5) q(2) by simp_all
          ultimately show ?thesis by (intro conjI)
        qed
      qed
    qed
  qed
qed

text \<open>The publishing loop.\<close>

definition publish :: "reservation list \<Rightarrow> 'd connector \<Rightarrow> 'd connector" where
  "publish rs = fold (\<lambda>r. set_entry (rv_key r) (Some (rv_entry r))) rs"

lemma publish_entries:
  assumes "distinct (map rv_key rs)"
  shows "entry_of key (publish rs c) =
      (if key \<in> rv_key ` set rs then map_option rv_entry (find (\<lambda>r. rv_key r = key) rs) else entry_of key c)"
    and "cn_context (publish rs c) = cn_context c" and "cn_allocator (publish rs c) = cn_allocator c"
  using assms
proof (induction rs arbitrary: c)
  case (Cons r rs)
  case 1
  have "key = rv_key r \<Longrightarrow> key \<notin> rv_key ` set rs" using 1 by auto
  then show ?case using Cons.IH(1) [of "set_entry (rv_key r) (Some (rv_entry r)) c"] 1
    by (auto simp: publish_def)
next
  case (Cons r rs)
  case 2 then show ?case using Cons.IH(2) by (simp add: publish_def)
  case 3 then show ?case using Cons.IH(3) by (simp add: publish_def)
qed (simp_all add: publish_def)

lemma publish_entry:
  assumes "distinct (map rv_key rs)" and "r \<in> set rs"
  shows "entry_of (rv_key r) (publish rs c) = Some (rv_entry r)"
proof -
  have "find (\<lambda>x. rv_key x = rv_key r) rs = Some r"
    using assms
  proof (induction rs)
    case (Cons x rs)
    then show ?case by (cases "x = r") auto
  qed simp
  then show ?thesis using assms by (simp add: publish_entries)
qed

definition previous_extents :: "reservation \<Rightarrow> page_extent list" where
  "previous_extents r = (case rv_previous r of None \<Rightarrow> [] | Some p \<Rightarrow> en_extents p)"

lemma publish_inv:
  assumes "conn_inv (layer k res (map (en_extents \<circ> rv_entry) rs)) c"
    and "\<And>i. k \<le> i \<Longrightarrow> res i = []" and "distinct (map rv_key rs)"
    and "\<forall>r\<in>set rs. entry_ok (geom c) (rv_entry r) \<and> rv_previous r = entry_of (rv_key r) c"
  shows "conn_inv (layer k res (map previous_extents rs)) (publish rs c)"
  using assms
proof (induction rs arbitrary: k res c)
  case Nil
  then show ?case by (simp add: publish_def)
next
  case (Cons r rs)
  let ?c1 = "set_entry (rv_key r) (Some (rv_entry r)) c"
  let ?res = "layer k res (map (en_extents \<circ> rv_entry) (r # rs))"
  have prev: "previous_extents r = published c (rv_key r)"
    using Cons.prems(4) by (simp add: previous_extents_def published_def)
  have rk: "?res k = en_extents (rv_entry r)" by (simp add: layer_def reserve_from_def)
  have ek: "entry_ok (geom c) (rv_entry r)" using Cons.prems(4) by simp
  have "conn_inv (?res(k := published c (rv_key r))) ?c1"
    by (rule publish_reserved [OF Cons.prems(1) rk ek])
  moreover have "?res(k := published c (rv_key r)) =
      layer (Suc k) (res(k := previous_extents r)) (map (en_extents \<circ> rv_entry) rs)"
    by (auto simp: layer_def reserve_from_def prev fun_eq_iff nth_Cons')
  ultimately have i: "conn_inv (layer (Suc k) (res(k := previous_extents r)) (map (en_extents \<circ> rv_entry) rs)) ?c1"
    by (simp only:)
  have z: "(res(k := previous_extents r)) i = []" if "Suc k \<le> i" for i
    using Cons.prems(2) that by simp
  have d: "distinct (map rv_key rs)" using Cons.prems(3) by simp
  have e: "\<forall>x\<in>set rs. entry_ok (geom ?c1) (rv_entry x) \<and> rv_previous x = entry_of (rv_key x) ?c1"
  proof (intro ballI)
    fix x assume x: "x \<in> set rs"
    then have "rv_key x \<in> rv_key ` set rs" by (rule imageI)
    then have "rv_key x \<noteq> rv_key r" using Cons.prems(3) by auto
    then show "entry_ok (geom ?c1) (rv_entry x) \<and> rv_previous x = entry_of (rv_key x) ?c1"
      using Cons.prems(4) x by simp
  qed
  have "publish (r # rs) c = publish rs ?c1" by (simp add: publish_def)
  then show ?case using Cons.IH [OF i z d e] by (simp only: list.map layer_Cons)
qed

text \<open>Releasing the previous extents, skipping the keys that were new.\<close>

lemma release_previous:
  assumes "conn_inv (reserve_from k (map previous_extents rs)) c"
  shows "\<exists>a. release_all_entries
      (concat (map (\<lambda>r. case rv_previous r of None \<Rightarrow> [] | Some p \<Rightarrow> [en_extents p]) rs)) c =
        (Inr (), c\<lparr>cn_allocator := a\<rparr>) \<and> conn_inv no_reservation (c\<lparr>cn_allocator := a\<rparr>)"
  using assms
proof (induction rs arbitrary: k c)
  case Nil
  then show ?case by (intro exI [of _ "cn_allocator c"]) simp
next
  case (Cons r rs)
  let ?res = "(reserve_from (Suc k) (map previous_extents rs))(k := previous_extents r)"
  have i: "conn_inv ?res c" using Cons.prems by (simp only: list.map reserve_from_Cons)
  have up: "?res(k := []) = reserve_from (Suc k) (map previous_extents rs)"
    by (rule ext) (simp add: reserve_from_def)
  obtain a where a: "release_extents (previous_extents r) c = (Inr (), c\<lparr>cn_allocator := a\<rparr>)"
    "conn_inv (reserve_from (Suc k) (map previous_extents rs)) (c\<lparr>cn_allocator := a\<rparr>)"
    using release_reserved [OF i, of k] unfolding up by auto
  show ?case
  proof (cases "rv_previous r")
    case None
    then have "?res = reserve_from (Suc k) (map previous_extents rs)"
      using up by (simp add: previous_extents_def)
    then have "conn_inv (reserve_from (Suc k) (map previous_extents rs)) c" using i by (simp only:)
    then show ?thesis using Cons.IH None by simp
  next
    case (Some p)
    obtain b where b: "release_all_entries
        (concat (map (\<lambda>r. case rv_previous r of None \<Rightarrow> [] | Some p \<Rightarrow> [en_extents p]) rs))
        (c\<lparr>cn_allocator := a\<rparr>) = (Inr (), c\<lparr>cn_allocator := a\<rparr>\<lparr>cn_allocator := b\<rparr>)"
      "conn_inv no_reservation (c\<lparr>cn_allocator := a\<rparr>\<lparr>cn_allocator := b\<rparr>)"
      using Cons.IH [OF a(2)] by blast
    then show ?thesis using a(1) Some by (intro exI [of _ b]) (simp add: previous_extents_def)
  qed
qed

lemma write_reserved_frame:
  assumes "write_reserved env items c = Some (r, c')"
  shows "entry_of key c' = entry_of key c" "cn_allocator c' = cn_allocator c" "geom c' = geom c"
    "conn_inv res c' = conn_inv res c"
  using assms run_batch_frame [of env Op_write items c]
  by (auto simp: write_reserved_def split: if_splits sum.splits option.splits prod.splits)

text \<open>
  A batch store either fails and leaves every entry as it was, or publishes an entry of the
  right size for every key of the request that was absent or had a value of that size.
\<close>

lemma do_batch_set_effect:
  assumes inv: "conn_inv no_reservation c" and set: "do_batch_set env request c = Some (r, c')"
  shows "conn_inv no_reservation c' \<and>
    (case r of
       Inl _ \<Rightarrow> \<forall>key. entry_of key c' = entry_of key c
     | Inr _ \<Rightarrow> distinct (map fst request) \<and>
         (\<forall>(key, buffer, len)\<in>set request. len \<noteq> 0 \<and>
            (if other_size key len c then entry_of key c' = entry_of key c
             else \<exists>en. entry_of key c' = Some en \<and> en_logical_size en = len)) \<and>
         (\<forall>key. key \<notin> fst ` set request \<longrightarrow> entry_of key c' = entry_of key c))"
proof -
  let ?c1 = "states_for (map fst request) c"
  have i1: "conn_inv no_reservation ?c1" using inv by simp
  obtain q rs c2 where res: "reserve_all {} request ?c1 = ((q, rs), c2)" by (metis prod.exhaust)
  note ra = reserve_all_effect [OF i1 refl res, of 0, unfolded layer_0]
  have e2: "entry_of key c2 = entry_of key c" "geom c2 = geom c" for key using ra by simp_all
  have os: "other_size k l ?c1 = other_size k l c" for k l by (simp add: other_size_def)
  obtain rw c3 where w: "(case q of Inl e \<Rightarrow> Some (Inl e, c2) | Inr items \<Rightarrow> write_reserved env items c2) =
      Some (rw, c3)"
    using set res by (auto simp: do_batch_set_def Let_def split: option.splits)
  have fr: "entry_of key c3 = entry_of key c" "geom c3 = geom c" "conn_inv res' c3 = conn_inv res' c2"
    for key res'
  proof (atomize (full), cases q)
    case (Inl e)
    then show "entry_of key c3 = entry_of key c \<and> geom c3 = geom c \<and> conn_inv res' c3 = conn_inv res' c2"
      using w e2 by simp
  next
    case (Inr items)
    then have "write_reserved env items c2 = Some (rw, c3)" using w by simp
    note fr = write_reserved_frame [OF this]
    show "entry_of key c3 = entry_of key c \<and> geom c3 = geom c \<and> conn_inv res' c3 = conn_inv res' c2"
      using fr e2 by simp
  qed
  have i3: "conn_inv (reserve_from 0 (map (en_extents \<circ> rv_entry) rs)) c3" using ra fr(3) by simp
  show ?thesis
  proof (cases rw)
    case (Inl e)
    obtain a where a: "release_all_entries (map (en_extents \<circ> rv_entry) rs) c3 =
        (Inr (), c3\<lparr>cn_allocator := a\<rparr>)" "conn_inv no_reservation (c3\<lparr>cn_allocator := a\<rparr>)"
      using release_all_reserved [OF i3] by blast
    have "r = Inl e" "c' = c3\<lparr>cn_allocator := a\<rparr>"
      using set res w Inl a(1) by (simp_all add: do_batch_set_def Let_def)
    then show ?thesis using a(2) fr(1) by simp
  next
    case (Inr u)
    obtain items where items: "q = Inr items" using w Inr by (cases q) auto
    have rok: "reserved_ok {} request ?c1 rs" using ra by simp
    then have d: "distinct (map rv_key rs)" by (simp add: reserved_ok_def)
    have e: "\<forall>r\<in>set rs. entry_ok (geom c3) (rv_entry r) \<and> rv_previous r = entry_of (rv_key r) c3"
      using rok fr by (simp add: reserved_ok_def)
    let ?c4 = "publish rs c3"
    have i4: "conn_inv (reserve_from 0 (map previous_extents rs)) ?c4"
      using publish_inv [of 0 no_reservation rs c3] i3 d e by (simp add: layer_0)
    obtain a where a: "release_all_entries
        (concat (map (\<lambda>r. case rv_previous r of None \<Rightarrow> [] | Some p \<Rightarrow> [en_extents p]) rs)) ?c4 =
        (Inr (), ?c4\<lparr>cn_allocator := a\<rparr>)" "conn_inv no_reservation (?c4\<lparr>cn_allocator := a\<rparr>)"
      using release_previous [OF i4] by blast
    have r: "r = Inr ()" and c': "c' = ?c4\<lparr>cn_allocator := a\<rparr>"
      using set res w Inr a(1) by (simp_all add: do_batch_set_def Let_def publish_def)
    have reqs: "distinct (map fst request)" "\<forall>(key, buffer, len)\<in>set request. len \<noteq> 0 \<and>
        (other_size key len ?c1 \<or> (\<exists>r\<in>set rs. rv_key r = key \<and> en_logical_size (rv_entry r) = len))"
      using ra items by simp_all
    have old: "entry_of key c' = entry_of key c" if "key \<notin> rv_key ` set rs" for key
      using that publish_entries(1) [OF d, of key c3] fr(1) [of key] by (simp add: c')
    have one: "len \<noteq> 0 \<and> (if other_size key len c then entry_of key c' = entry_of key c
             else \<exists>en. entry_of key c' = Some en \<and> en_logical_size en = len)"
      if x: "(key, buffer, len) \<in> set request" for key buffer len
    proof (cases "other_size key len c")
      case True
      have "key \<notin> rv_key ` set rs"
      proof
        assume "key \<in> rv_key ` set rs"
        then obtain r where r: "r \<in> set rs" "key = rv_key r" by blast
        then obtain buffer' where "(key, buffer', en_logical_size (rv_entry r)) \<in> set request"
          and no: "\<not> other_size key (en_logical_size (rv_entry r)) c"
          using rok os by (auto simp: reserved_ok_def)
        then have "en_logical_size (rv_entry r) = len"
          using x reqs(1) eq_key_imp_eq_value [of request key] by force
        with no True show False by simp
      qed
      then show ?thesis using True old reqs(2) x by auto
    next
      case False
      then obtain r where "r \<in> set rs" "rv_key r = key" "en_logical_size (rv_entry r) = len"
        using reqs(2) x os by auto
      then have "entry_of key c' = Some (rv_entry r)"
        using publish_entry [OF d, of r c3] by (simp add: c')
      then show ?thesis using False \<open>en_logical_size (rv_entry r) = len\<close> reqs(2) x by auto
    qed
    have "entry_of key c' = entry_of key c" if "key \<notin> fst ` set request" for key
    proof (rule old)
      show "key \<notin> rv_key ` set rs" using that rok by (force simp: reserved_ok_def)
    qed
    moreover have "conn_inv no_reservation c'" using a(2) by (simp only: c')
    moreover have "\<forall>(key, buffer, len)\<in>set request. len \<noteq> 0 \<and>
            (if other_size key len c then entry_of key c' = entry_of key c
             else \<exists>en. entry_of key c' = Some en \<and> en_logical_size en = len)"
      using one by blast
    ultimately show ?thesis using reqs(1) by (simp add: r)
  qed
qed

section \<open>The geometry\<close>

lemma release_frame:
  "cn_context (snd (release_extents es c)) = cn_context c"
  "cn_context (snd (release_all_entries ess c)) = cn_context c"
proof -
  show r: "cn_context (snd (release_extents es c)) = cn_context c" for es c
    by (simp add: release_extents_def split: prod.split)
  show "cn_context (snd (release_all_entries ess c)) = cn_context c"
  proof (induction ess arbitrary: c)
    case (Cons es ess)
    then show ?case using r [of es c]
      by (cases "release_extents es c") (auto split: sum.split)
  qed simp
qed

lemma allocate_entry_frame: "cn_context (snd (allocate_entry len c)) = cn_context c"
  by (simp add: allocate_entry_def split: sum.split prod.split)

lemma reserve_all_frame: "cn_context (snd (reserve_all seen request c)) = cn_context c"
proof (induction seen request c rule: reserve_all.induct)
  case (2 seen key buffer len rest c)
  show ?case
    using 2 allocate_entry_frame [of len c]
    by (auto simp: Let_def split: sum.split prod.split)
qed simp

lemma publish_frame:
  "cn_context (fold (\<lambda>r. set_entry (rv_key r) (Some (rv_entry r))) rs c) = cn_context c"
  by (induction rs arbitrary: c) simp_all

lemma do_batch_set_geometry:
  assumes "do_batch_set env request c = Some (r, c')"
  shows "geom c' = geom c"
proof -
  let ?c1 = "states_for (map fst request) c"
  obtain q rs c2 where res: "reserve_all {} request ?c1 = ((q, rs), c2)" by (metis prod.exhaust)
  have g2: "geom c2 = geom c" using reserve_all_frame [of "{}" request ?c1] by (simp add: res)
  obtain rw c3 where w: "(case q of Inl e \<Rightarrow> Some (Inl e, c2) | Inr items \<Rightarrow> write_reserved env items c2) =
      Some (rw, c3)"
    using assms res by (auto simp: do_batch_set_def Let_def split: option.splits)
  have g3: "geom c3 = geom c"
  proof (cases q)
    case (Inr items)
    then have "write_reserved env items c2 = Some (rw, c3)" using w by simp
    then show ?thesis using write_reserved_frame(3) [of env items c2 rw c3] g2 by simp
  qed (use w g2 in simp)
  let ?c4 = "fold (\<lambda>r. set_entry (rv_key r) (Some (rv_entry r))) rs c3"
  have g4: "geom ?c4 = geom c" using publish_frame [of rs c3] g3 by simp
  show ?thesis
  proof (cases rw)
    case (Inl e)
    have "c' = snd (release_all_entries (map (en_extents \<circ> rv_entry) rs) c3)"
      using assms res w Inl by (auto simp: do_batch_set_def Let_def split: sum.splits prod.splits)
    then show ?thesis using g3 by (simp add: release_frame)
  next
    case (Inr u)
    have "c' = snd (release_all_entries
        (concat (map (\<lambda>r. case rv_previous r of None \<Rightarrow> [] | Some p \<Rightarrow> [en_extents p]) rs)) ?c4)"
      using assms res w Inr by (simp add: do_batch_set_def Let_def)
    then show ?thesis using g4 by (simp add: release_frame)
  qed
qed

end
