(* ===== verification/Connector_Properties.thy ===== *)
theory Connector_Properties
  imports Connector_Pages Bdev_Properties
begin

text \<open>
  What the connector promises to \<open>ConnectorBase\<close>: pages are accounted for in every reachable
  state, the operations refine a map from keys to value sizes, and the locks of concurrent requests
  cannot deadlock. The operations on several keys are in \<open>Connector_Batches\<close>.
\<close>

section \<open>Reachable states\<close>

text \<open>
  The states between two operations; in between, events of the bdev may be handled too. The
  geometry is the one \<open>build_storage_geometry\<close> made, which \<open>geometry_ok\<close> holds of.
\<close>

inductive connector_reachable :: "'d spdk_env \<Rightarrow> 'd connector \<Rightarrow> bool" for env where
  made: "geometry_ok (bc_geometry context) \<Longrightarrow> new_connector context cpus = Inr c \<Longrightarrow>
    connector_reachable env c"
| worker: "connector_reachable env c \<Longrightarrow> create_connection setaffinity c = (r, c') \<Longrightarrow>
    connector_reachable env c'"
| got: "connector_reachable env c \<Longrightarrow> do_single_get env key buffer len c = Some (r, c') \<Longrightarrow>
    connector_reachable env c'"
| set: "connector_reachable env c \<Longrightarrow> do_single_set env key buffer len c = Some (r, c') \<Longrightarrow>
    connector_reachable env c'"
| existed: "connector_reachable env c \<Longrightarrow> do_single_exists key c = (b, c') \<Longrightarrow>
    connector_reachable env c'"
| deleted: "connector_reachable env c \<Longrightarrow> do_single_delete key c = (rb, c') \<Longrightarrow>
    connector_reachable env c'"
| batch_got: "connector_reachable env c \<Longrightarrow> do_batch_get env request c = Some (oks, c') \<Longrightarrow>
    connector_reachable env c'"
| batch_set: "connector_reachable env c \<Longrightarrow> do_batch_set env request c = Some (r, c') \<Longrightarrow>
    connector_reachable env c'"
| context_changed: "connector_reachable env c \<Longrightarrow> bc_geometry s = geom c \<Longrightarrow>
    connector_reachable env (c\<lparr>cn_context := s\<rparr>)"

lemma new_connector_inv:
  assumes g: "geometry_ok (bc_geometry context)" and new: "new_connector context cpus = Inr c"
  shows "conn_inv no_reservation c" and "entry_of key c = None" and "cn_context c = context"
proof -
  obtain a where a: "new_page_allocator (geo_page_count (bc_geometry context)) = Inr a"
    and c: "c = \<lparr>cn_context = context, cn_allocator = a, cn_key_states = Map.empty,
      cn_worker_cpus = cpus, cn_next_worker_cpu = 0\<rparr>"
    using new by (auto simp: new_connector_def split: sum.splits if_splits)
  show e: "entry_of key c = None" for key by (simp add: entry_of_def c)
  show "cn_context c = context" by (simp add: c)
  note ai = new_allocator_inv [OF a]
  have "owners c no_reservation = (\<lambda>_. [])"
    by (auto simp: owners_def published_def e fun_eq_iff split: owner.split)
  moreover have "pages.ledger (\<lambda>_ :: owner. []) a"
    unfolding pages.ledger_def pages.exclusive_def pages.held_def
    using ai a by (auto simp: new_page_allocator_def free_pages_def split: if_splits)
  ultimately show "conn_inv no_reservation c"
    using g ai by (simp add: conn_inv_def c entry_of_def)
qed

text \<open>A batch read finds the segments of every key, and changes no entry.\<close>

lemma get_items_ok:
  assumes "geometry_ok (geom c)" and "\<forall>key en. entry_of key c = Some en \<longrightarrow> entry_ok (geom c) en"
  shows "\<exists>oks items ks. get_items i request c = Inr (oks, items, ks)"
proof (induction request arbitrary: i)
  case (Cons x request)
  obtain key buffer len where x: "x = (key, buffer, len)" by (metis prod.exhaust)
  obtain oks items ks where ih: "get_items (Suc i) request c = Inr (oks, items, ks)"
    using Cons.IH by blast
  show ?case
  proof (cases "sizes c key = Some len")
    case False
    then show ?thesis using ih by (auto simp: x sizes_def split: option.split)
  next
    case True
    then obtain en where en: "entry_of key c = Some en" "en_logical_size en = len"
      by (auto simp: sizes_def)
    then obtain its where "append_segments (geom c) en buffer = Inr its"
      using append_segments_ok [OF assms(1) assms(2) [rule_format, OF en(1)]] by blast
    then show ?thesis using ih en by (simp add: x)
  qed
qed simp

lemma do_batch_get_effect:
  assumes inv: "conn_inv no_reservation c" and get: "do_batch_get env request c = Some (r, c')"
  shows "conn_inv no_reservation c' \<and> (\<forall>key. entry_of key c' = entry_of key c)"
proof -
  let ?c1 = "states_for (map fst request) c"
  have g: "geometry_ok (geom ?c1)" "\<forall>key en. entry_of key ?c1 = Some en \<longrightarrow> entry_ok (geom ?c1) en"
    using inv by (simp_all add: conn_inv_def)
  obtain oks items ks where it: "get_items 0 request ?c1 = Inr (oks, items, ks)"
    using get_items_ok [OF g, of 0 request] by blast
  obtain q c2 where q: "(if items = [] then Some (Inr [], ?c1) else run_batch env Op_read items ?c1) = Some (q, c2)"
    using get it by (auto simp: do_batch_get_def Let_def split: option.splits)
  then have "c' = c2" using get it by (cases q) (simp_all add: do_batch_get_def Let_def split: if_splits)
  then show ?thesis
    using q inv run_batch_frame [of env Op_read items ?c1 q c2] by (auto split: if_splits)
qed

lemma connector_reachable_inv:
  "connector_reachable env c \<Longrightarrow> conn_inv no_reservation c"
proof (induction rule: connector_reachable.induct)
  case (made s cpus c)
  then show ?case by (rule new_connector_inv)
next
  case (worker c setaffinity r c')
  have c': "c' = c\<lparr>cn_next_worker_cpu := cn_next_worker_cpu c + 1\<rparr>"
    using worker.hyps(2) by (simp add: create_connection_def Let_def split: if_splits option.splits)
  have "conn_inv no_reservation c' = conn_inv no_reservation c"
    by (rule conn_inv_cong) (simp_all add: c' entry_of_def)
  then show ?case using worker.IH by simp
next
  case (existed c key b c')
  then show ?case by (auto simp: do_single_exists_def Let_def)
next
  case (context_changed c s)
  have "conn_inv no_reservation (c\<lparr>cn_context := s\<rparr>) = conn_inv no_reservation c"
    by (rule conn_inv_cong) (simp_all add: context_changed.hyps(2))
  then show ?case using context_changed.IH by simp
next
  case (got c key buffer len r c')
  show ?case using do_single_get_effect [OF got.IH got.hyps(2)] by (rule conjunct1)
next
  case (set c key buffer len r c')
  show ?case using do_single_set_effect [OF set.IH set.hyps(2)] by (rule conjunct1)
next
  case (deleted c key rb c')
  show ?case using do_single_delete_effect [OF deleted.IH deleted.hyps(2)] by (rule conjunct1)
next
  case (batch_got c request oks c')
  show ?case using do_batch_get_effect [OF batch_got.IH batch_got.hyps(2)] by (rule conjunct1)
next
  case (batch_set c request r c')
  show ?case using do_batch_set_effect [OF batch_set.IH batch_set.hyps(2)] by (rule conjunct1)
qed

section \<open>A connector to try the properties on\<close>

definition disk_connector :: "disk connector" where
  "disk_connector = \<lparr>cn_context = disk_state,
     cn_allocator = \<lparr>free_extents = [(0, 16)], total_page_count = 16, free_page_count = 16\<rparr>,
     cn_key_states = Map.empty, cn_worker_cpus = [2, 3], cn_next_worker_cpu = 0\<rparr>"

lemma disk_connector_reachable: "connector_reachable env disk_connector"
proof (rule made [of disk_state "[2, 3]"])
  show "geometry_ok (bc_geometry disk_state)"
    by (simp add: geometry_ok_def disk_state_def disk_geometry_def is_power_of_two_def)
  show "new_connector disk_state [2, 3] = Inr disk_connector"
    by (simp add: new_connector_def new_page_allocator_def disk_connector_def disk_state_def disk_geometry_def)
qed

lemma disk_connector_empty: "entry_of key disk_connector = None"
  by (simp add: disk_connector_def entry_of_def)

section \<open>Pages\<close>

definition owns :: "'d connector \<Rightarrow> string \<Rightarrow> nat \<Rightarrow> bool" where
  "owns c key p \<longleftrightarrow> (\<exists>en. entry_of key c = Some en \<and> p \<in> set (extents_pages (en_extents en)))"

text \<open>Between two operations the owners of the ledger are the keys.\<close>

lemma published_owner: "p \<in> set (extents_pages (owners c no_reservation (Published key))) \<longleftrightarrow> owns c key p"
  by (simp add: owners_def published_def owns_def split: option.split)

lemma held_owner: "p \<in> pages.held (owners c no_reservation) \<longleftrightarrow> (\<exists>key. owns c key p)"
proof
  assume "p \<in> pages.held (owners c no_reservation)"
  then obtain o' where "p \<in> set (extents_pages (owners c no_reservation o'))"
    by (auto simp: pages.held_def)
  then show "\<exists>key. owns c key p"
    using published_owner [of p c] by (cases o') (auto simp: owners_def)
next
  assume "\<exists>key. owns c key p"
  then show "p \<in> pages.held (owners c no_reservation)"
    using published_owner by (auto simp: pages.held_def)
qed

text \<open>
  Property C27. Pages are never lost and never shared: in every reachable state, whatever stores
  failed, each page of the disk is either free, and then no value is on it, or belongs to exactly
  one key; and each value has exactly the pages its size needs, each once.
\<close>

theorem pages_accounted:
  assumes "connector_reachable env c"
  shows "(\<forall>p<unat (geo_page_count (geom c)).
      if p \<in> set (free_pages (cn_allocator c)) then \<forall>key. \<not> owns c key p else \<exists>!key. owns c key p) \<and>
    (\<forall>key en. entry_of key c = Some en \<longrightarrow>
      distinct (extents_pages (en_extents en)) \<and>
      length (extents_pages (en_extents en)) * unat (page_size (geom c)) \<ge> unat (en_logical_size en) \<and>
      (length (extents_pages (en_extents en)) - 1) * unat (page_size (geom c)) < unat (en_logical_size en))"
proof (intro conjI allI impI)
  have inv: "conn_inv no_reservation c" by (rule connector_reachable_inv [OF assms])
  then have led: "pages.ledger (owners c no_reservation) (cn_allocator c)"
    and tot: "total_page_count (cn_allocator c) = geo_page_count (geom c)"
    by (simp_all add: conn_inv_def)
  fix p assume p: "p < unat (geo_page_count (geom c))"
  note own = published_owner [of p c] and held = held_owner [of p c]
  have "p \<in> pages.held (owners c no_reservation) \<longleftrightarrow> p \<notin> set (free_pages (cn_allocator c))"
    using led p tot by (auto simp: pages.ledger_def)
  moreover have "k = j" if "owns c k p" "owns c j p" for j k
  proof (rule ccontr)
    assume "k \<noteq> j"
    then have "set (extents_pages (owners c no_reservation (Published k))) \<inter>
        set (extents_pages (owners c no_reservation (Published j))) = {}"
      using led by (simp add: pages.ledger_def pages.exclusive_def)
    then show False using that own by blast
  qed
  ultimately show "if p \<in> set (free_pages (cn_allocator c)) then \<forall>key. \<not> owns c key p
      else \<exists>!key. owns c key p" using held by auto
next
  fix key en assume "entry_of key c = Some en"
  then have ok: "geometry_ok (geom c)" "entry_ok (geom c) en"
    using connector_reachable_inv [OF assms] by (simp_all add: conn_inv_def)
  then show "distinct (extents_pages (en_extents en))"
    "length (extents_pages (en_extents en)) * unat (page_size (geom c)) \<ge> unat (en_logical_size en)"
    by (simp_all add: entry_ok_def extents_bytes_def)
  have "length (extents_pages (en_extents en)) * unat (page_size (geom c)) <
      unat (en_logical_size en) + unat (page_size (geom c))"
    using ok by (simp add: entry_ok_def extents_bytes_def)
  then show "(length (extents_pages (en_extents en)) - 1) * unat (page_size (geom c)) < unat (en_logical_size en)"
    unfolding diff_mult_distrib mult_1 using ok(2) unfolding entry_ok_def by linarith
qed

theorem pages_accounted_witness:
  "{p \<in> {..<16}. p \<in> set (free_pages (cn_allocator disk_connector))} = {..<16}"
proof -
  have "geo_page_count (geom disk_connector) = 16"
    by (simp add: disk_connector_def disk_state_def disk_geometry_def)
  then have "if p \<in> set (free_pages (cn_allocator disk_connector)) then \<forall>key. \<not> owns disk_connector key p
      else \<exists>!key. owns disk_connector key p" if "p < 16" for p
    using pages_accounted [OF disk_connector_reachable [of disk_env]] that by simp
  moreover have "\<not> owns disk_connector key p" for key p by (simp add: owns_def disk_connector_empty)
  ultimately have "p \<in> set (free_pages (cn_allocator disk_connector))" if "p < 16" for p
    using that by (metis (full_types))
  then show ?thesis by auto
qed

section \<open>Refinement of a map\<close>

text \<open>
  What clients may rely on without knowing of pages: a map from keys to the sizes of their
  values. A value keeps its size for ever: a store of another size is ignored, one of the same
  size replaces the bytes only.
\<close>

definition spec_set :: "string \<Rightarrow> u64 \<Rightarrow> (string, u64) map \<Rightarrow> (string, u64) map" where
  "spec_set key len m = (if m key = None then m(key \<mapsto> len) else m)"

lemma stored_sizes:
  assumes "stored env key buffer len c c'" and "\<not> other_size key len c"
  shows "sizes c' = spec_set key len (sizes c)"
proof -
  have "sizes c' = (sizes c)(key \<mapsto> len)" using assms(1) by (auto simp: stored_def sizes_def fun_eq_iff)
  moreover have "sizes c key = None \<or> sizes c key = Some len"
    using assms(2) by (auto simp: other_size_def sizes_def split: option.splits)
  ultimately show ?thesis by (auto simp: spec_set_def fun_eq_iff)
qed

lemma set_sizes:
  assumes "conn_inv no_reservation c" and "do_single_set env key buffer len c = Some (r, c')"
  shows "case r of Inl e \<Rightarrow> sizes c' = sizes c | Inr _ \<Rightarrow> len \<noteq> 0 \<and> sizes c' = spec_set key len (sizes c)"
proof (cases "r = Inr () \<and> \<not> other_size key len c")
  case True
  then show ?thesis using do_single_set_effect [OF assms] stored_sizes by fastforce
next
  case False
  then have same: "\<forall>k. entry_of k c' = entry_of k c" and len: "r = Inr () \<longrightarrow> len \<noteq> 0"
    using do_single_set_effect [OF assms] by (simp_all split: if_splits)
  then have "sizes c' = sizes c" by (intro sizes_eq) simp
  moreover have "r = Inr () \<longrightarrow> sizes c key \<noteq> None"
    using False by (auto simp: other_size_def sizes_def split: option.splits)
  ultimately show ?thesis using len by (cases r) (auto simp: spec_set_def)
qed

text \<open>
  Property C28. Every operation refines the map of value sizes: a successful store sets the key
  once and for all, a failed one changes nothing, a delete removes the key and reports whether
  it was there, an existence check reports it, and a read succeeds only with the exact size.
\<close>

theorem connector_refines_map:
  assumes "connector_reachable env c"
  shows "(\<forall>key buffer len r c'. do_single_set env key buffer len c = Some (r, c') \<longrightarrow>
      (case r of Inl e \<Rightarrow> sizes c' = sizes c
       | Inr _ \<Rightarrow> len \<noteq> 0 \<and> sizes c' = spec_set key len (sizes c))) \<and>
    (\<forall>key r c'. do_single_delete key c = (r, c') \<longrightarrow>
      r = Inr (sizes c key \<noteq> None) \<and> sizes c' = (sizes c)(key := None)) \<and>
    (\<forall>key b c'. do_single_exists key c = (b, c') \<longrightarrow>
      b = (sizes c key \<noteq> None) \<and> sizes c' = sizes c) \<and>
    (\<forall>key buffer len r c'. do_single_get env key buffer len c = Some (r, c') \<longrightarrow>
      sizes c' = sizes c \<and> (r = Inr () \<longrightarrow> sizes c key = Some len))"
proof (intro conjI allI impI)
  have inv: "conn_inv no_reservation c" by (rule connector_reachable_inv [OF assms])
  fix key buffer len
  {
    fix r c' assume "do_single_set env key buffer len c = Some (r, c')"
    then show "case r of Inl e \<Rightarrow> sizes c' = sizes c | Inr _ \<Rightarrow> len \<noteq> 0 \<and> sizes c' = spec_set key len (sizes c)"
      by (rule set_sizes [OF inv])
  next
    fix r c' assume "do_single_delete key c = (r, c')"
    note e = do_single_delete_effect [OF inv this]
    show "r = Inr (sizes c key \<noteq> None)" "sizes c' = (sizes c)(key := None)"
      using e by (auto simp: sizes_def fun_eq_iff)
  next
    fix b c' assume e: "do_single_exists key c = (b, c')"
    show "b = (sizes c key \<noteq> None)" "sizes c' = sizes c"
      using e by (auto simp: sizes_def fun_eq_iff do_single_exists_def Let_def)
  next
    fix r c' assume "do_single_get env key buffer len c = Some (r, c')"
    note e = do_single_get_effect [OF inv this]
    show "sizes c' = sizes c" using e by (intro sizes_eq) simp
    show "sizes c key = Some len" if "r = Inr ()" using e that by (auto simp: sizes_def)
  }
qed

theorem connector_refines_map_witness:
  "do_single_delete ''key'' disk_connector = (Inr False, snd (do_single_delete ''key'' disk_connector))"
proof -
  obtain r c' where d: "do_single_delete ''key'' disk_connector = (r, c')" by fastforce
  then have "r = Inr (sizes disk_connector ''key'' \<noteq> None)"
    using connector_refines_map [OF disk_connector_reachable [of disk_env]] by blast
  then show ?thesis by (simp add: d sizes_def disk_connector_empty)
qed

section \<open>Batches\<close>

text \<open>With distinct keys the stores of a request do not meet.\<close>

lemma fold_spec_set:
  "distinct (map fst request) \<Longrightarrow> fold (\<lambda>(key, buffer, len). spec_set key len) request m key =
     (case map_of request key of None \<Rightarrow> m key | Some (buffer, len) \<Rightarrow> spec_set key len m key)"
proof (induction request arbitrary: m)
  case (Cons x request)
  obtain k buffer len where x: "x = (k, buffer, len)" by (metis prod.exhaust)
  have "map_of request k = None" using Cons.prems by (simp add: x map_of_eq_None_iff)
  then show ?case using Cons by (auto simp: x spec_set_def split: option.split)
qed simp

section \<open>Locks\<close>

lemma remdups_adj_strict:
  fixes f :: "'a \<Rightarrow> nat"
  assumes "sorted (map f xs)" and "inj_on f (set xs)"
  shows "sorted_wrt (<) (map f (remdups_adj xs))"
  using assms
proof (induction xs rule: remdups_adj.induct)
  case (3 x y xs)
  have ih: "sorted_wrt (<) (map f (remdups_adj (y # xs)))"
    using 3 by (cases "x = y") (auto simp: insert_absorb)
  show ?case
  proof (cases "x = y")
    case False
    then have "f x \<noteq> f y" "f x \<le> f y" using 3(3,4) by auto
    then have "f x < f z" if "z \<in> set (y # xs)" for z
      using 3(3) that by fastforce
    then show ?thesis using ih False by simp
  qed (use ih in simp)
qed simp_all

lemma lock_states_sorted:
  assumes "inj_on address (set keys)"
  shows "sorted_wrt (<) (map address (lock_states address keys))"
  unfolding lock_states_def using assms by (intro remdups_adj_strict) simp_all

lemma lock_states_set: "set (lock_states address keys) = set keys"
  by (simp add: lock_states_def)

text \<open>
  Property C31. Concurrent requests cannot deadlock on key locks. Each request \<open>t\<close> of a set of
  requests that are all still acquiring has taken the first \<open>taken t\<close> mutexes of \<open>LockStates\<close>;
  then the next mutex of one of them is free, so that it can go on. A request takes the mutex of
  each of its keys, once, also when it repeats a key.
\<close>

theorem key_locks_deadlock_free:
  assumes "inj_on address (\<Union>t\<in>T. set (keys t))" and "finite T" and "T \<noteq> {}"
    and "\<forall>t\<in>T. taken t < length (lock_states address (keys t))"
  shows "\<exists>t\<in>T. (\<forall>u\<in>T. lock_states address (keys t) ! taken t \<notin> set (take (taken u) (lock_states address (keys u)))) \<and>
    distinct (lock_states address (keys t)) \<and> set (lock_states address (keys t)) = set (keys t)"
proof -
  have strict: "sorted_wrt (<) (map address (lock_states address (keys t)))" if "t \<in> T" for t
    using that by (intro lock_states_sorted inj_on_subset [OF assms(1)]) blast
  let ?next = "\<lambda>t. address (lock_states address (keys t) ! taken t)"
  have "Max (?next ` T) \<in> ?next ` T" using assms(2,3) by (intro Max_in) simp_all
  then obtain t where t: "t \<in> T" "?next t = Max (?next ` T)" by auto
  have "lock_states address (keys t) ! taken t \<notin> set (take (taken u) (lock_states address (keys u)))"
    if u: "u \<in> T" for u
  proof
    let ?l = "lock_states address (keys u)"
    assume "lock_states address (keys t) ! taken t \<in> set (take (taken u) ?l)"
    then obtain k where k: "k < taken u" "lock_states address (keys t) ! taken t = ?l ! k"
      by (auto simp: in_set_conv_nth)
    have "taken u < length ?l" using assms(4) u by blast
    then have "map address ?l ! k < map address ?l ! taken u"
      using k(1) strict [OF u] by (simp only: sorted_wrt_iff_nth_less length_map)
    then have "?next t < ?next u" using k \<open>taken u < length ?l\<close> by simp
    also have "\<dots> \<le> Max (?next ` T)" using assms(2) u by simp
    finally show False using t(2) by simp
  qed
  moreover have "distinct (lock_states address (keys t))"
    using strict [OF t(1)] by (auto simp: strict_sorted_iff distinct_map)
  ultimately show ?thesis using t(1) lock_states_set [of address "keys t"] by blast
qed

text \<open>Two requests for the same two keys in opposite orders, one of them repeating a key.\<close>

theorem key_locks_deadlock_free_witness:
  "\<exists>t\<in>{0 :: nat, 1}. \<forall>u\<in>{0, 1}.
    lock_states length ([[''a'', ''bb''], [''bb'', ''a'', ''a'']] ! t) ! ([1, 0] ! t) \<notin>
      set (take ([1, 0] ! u) (lock_states length ([[''a'', ''bb''], [''bb'', ''a'', ''a'']] ! u)))"
proof -
  let ?keys = "\<lambda>t :: nat. [[''a'', ''bb''], [''bb'', ''a'', ''a'']] ! t" and ?taken = "\<lambda>t :: nat. [1, 0] ! t"
  have l: "lock_states length (?keys 0) = [''a'', ''bb'']" "lock_states length (?keys 1) = [''a'', ''bb'']"
    by (simp_all add: lock_states_def)
  have "inj_on length (\<Union>t\<in>{0, 1}. set (?keys t))" by (simp add: inj_on_def)
  then show ?thesis
    using key_locks_deadlock_free [where address = length and T = "{0, 1}" and keys = ?keys and taken = ?taken] l by auto
qed

end
