(* ===== verification/Connector_Batches.thy ===== *)
theory Connector_Batches
  imports Connector_Properties
begin

text \<open>
  The operations of the connector on several keys: which segments they send to the bdev, in which
  batch, and what the results of that batch make of every key.
\<close>

section \<open>The segments of a request\<close>

text \<open>
  \<open>its\<close> are the segments by which the value of a key moves between its buffer and its entry.
\<close>

definition segments_of :: "'d connector \<Rightarrow> string \<times> u64 \<times> u64 \<Rightarrow> io_batch_item list \<Rightarrow> bool" where
  "segments_of c x its \<longleftrightarrow> (case x of (key, buffer, len) \<Rightarrow>
     \<exists>en. entry_of key c = Some en \<and> en_logical_size en = len \<and>
       append_segments (geom c) en buffer = Inr its)"

lemma read_batch_empty [simp]: "read_batch env [] s = Some (Inr [], s)"
  by (simp add: read_batch_def submit_batch_and_wait_def)

lemma write_batch_empty [simp]: "write_batch env [] s = Some (Inr [], s)"
  by (simp add: write_batch_def submit_batch_and_wait_def)

section \<open>Batch stores\<close>

definition ignored :: "'d connector \<Rightarrow> string \<times> u64 \<times> u64 \<Rightarrow> bool" where
  "ignored c x \<longleftrightarrow> (case x of (key, buffer, len) \<Rightarrow> other_size key len c)"

lemma allocate_entry_parts:
  assumes "allocate_entry len c = (q, c1)"
  shows "\<And>k. entry_of k c1 = entry_of k c" and "cn_context c1 = cn_context c"
    and "q = Inr en \<Longrightarrow> en_logical_size en = len"
  using assms by (auto simp: allocate_entry_def split: sum.splits prod.splits)

text \<open>What was reserved for a request: an entry for each key that is not ignored, and its segments.\<close>

lemma reserve_all_segments:
  assumes "reserve_all seen request c = ((Inr items, rs), c')"
  shows "\<exists>sgs. items = concat sgs \<and> length sgs = length rs \<and>
    list_all2 (\<lambda>(key, buffer, len) (r, its). rv_key r = key \<and> en_logical_size (rv_entry r) = len \<and>
        append_segments (geom c) (rv_entry r) buffer = Inr its)
      (filter (\<lambda>x. \<not> ignored c x) request) (zip rs sgs)"
  using assms
proof (induction seen request c arbitrary: items rs c' rule: reserve_all.induct)
  case (1 seen c)
  then show ?case by simp
next
  case (2 seen key buffer len rest c)
  have new: "key \<notin> seen" "len \<noteq> 0" using "2.prems" by (simp_all split: if_splits)
  show ?case
  proof (cases "other_size key len c")
    case True
    then have o: "case entry_of key c of None \<Rightarrow> False | Some en \<Rightarrow> en_logical_size en \<noteq> len"
      by (simp add: other_size_def)
    then have rec: "reserve_all (insert key seen) rest c = ((Inr items, rs), c')"
      using "2.prems" new by simp
    from "2.IH"(1) [OF new o rec] True show ?thesis by (simp add: ignored_def)
  next
    case False
    then have o: "\<not> (case entry_of key c of None \<Rightarrow> False | Some en \<Rightarrow> en_logical_size en \<noteq> len)"
      by (simp add: other_size_def)
    obtain q c1 where al: "allocate_entry len c = (q, c1)" by fastforce
    then obtain en where q: "q = Inr en" using "2.prems" new o by (cases q) simp_all
    note al = al [unfolded q]
    note p = allocate_entry_parts [OF al]
    let ?r = "\<lparr>rv_key = key, rv_entry = en, rv_previous = entry_of key c\<rparr>"
    obtain its where its: "append_segments (geom c1) en buffer = Inr its"
      using "2.prems" new o al by (auto simp: Let_def split: sum.splits)
    obtain items1 rs1 where rec: "reserve_all (insert key seen) rest c1 = ((Inr items1, rs1), c')"
      and e: "items = its @ items1" "rs = ?r # rs1"
      using "2.prems" new o al its by (auto simp: Let_def split: sum.splits prod.splits)
    obtain sgs where sgs: "items1 = concat sgs" "length sgs = length rs1"
      "list_all2 (\<lambda>(key, buffer, len) (r, its). rv_key r = key \<and> en_logical_size (rv_entry r) = len \<and>
          append_segments (geom c1) (rv_entry r) buffer = Inr its)
        (filter (\<lambda>x. \<not> ignored c1 x) rest) (zip rs1 sgs)"
      using "2.IH"(2) [OF new o al [symmetric] refl refl its rec] by blast
    have "ignored c1 = ignored c" by (simp add: ignored_def other_size_def p(1) fun_eq_iff)
    then show ?thesis
      using sgs its False p(2,3) by (intro exI [of _ "its # sgs"]) (simp add: e ignored_def)
  qed
qed

text \<open>
  A store that succeeds published exactly what was reserved, after one batch that wrote all its
  segments.
\<close>

lemma write_reserved_ok:
  assumes "write_reserved env items c = Some (Inr u, c')"
  shows "\<exists>results. write_batch env items (cn_context c) = Some (Inr results, cn_context c') \<and>
    length results = length items \<and> (\<forall>r\<in>set results. res_success r)"
  using assms
  by (auto simp: write_reserved_def run_batch_def require_success_iff split: if_splits option.splits sum.splits)

lemma list_all2_zip_left:
  assumes "list_all2 (\<lambda>x (r, its). P x r its) xs (zip rs sgs)" and "length sgs = length rs"
    and "\<And>x r its. x \<in> set xs \<Longrightarrow> r \<in> set rs \<Longrightarrow> P x r its \<Longrightarrow> Q x its"
  shows "list_all2 Q xs sgs"
  unfolding list_all2_conv_all_nth
proof (intro conjI allI impI)
  have l: "length xs = length rs" and P: "\<And>i. i < length rs \<Longrightarrow> P (xs ! i) (rs ! i) (sgs ! i)"
    using assms(1,2) by (auto simp: list_all2_conv_all_nth)
  show "length xs = length sgs" using l assms(2) by simp
  show "Q (xs ! i) (sgs ! i)" if "i < length xs" for i
    using assms(3) [OF _ _ P] that l by simp
qed

lemma release_entries [simp]:
  "entry_of key (snd (release_extents es c)) = entry_of key c"
  "entry_of key (snd (release_all_entries ess c)) = entry_of key c"
proof -
  show r: "entry_of key (snd (release_extents es c)) = entry_of key c" for es c
    by (simp add: release_extents_def split: prod.split)
  show "entry_of key (snd (release_all_entries ess c)) = entry_of key c"
  proof (induction ess arbitrary: c)
    case (Cons es ess)
    then show ?case using r [of es c]
      by (cases "release_extents es c") (auto split: sum.split)
  qed simp
qed

lemma do_batch_set_segments:
  assumes inv: "conn_inv no_reservation c" and set: "do_batch_set env request c = Some (Inr u, c')"
  shows "\<exists>sgs results. list_all2 (segments_of c') (filter (\<lambda>x. \<not> ignored c x) request) sgs \<and>
    write_batch env (concat sgs) (cn_context c) = Some (Inr results, cn_context c') \<and>
    length results = length (concat sgs) \<and> (\<forall>r\<in>set results. res_success r)"
proof -
  let ?c1 = "states_for (map fst request) c"
  have i1: "conn_inv no_reservation ?c1" using inv by simp
  obtain q rs c2 where res: "reserve_all {} request ?c1 = ((q, rs), c2)" by (metis prod.exhaust)
  note ra = reserve_all_effect [OF i1 refl res, of 0, unfolded layer_0]
  obtain rw c3 where w: "(case q of Inl e \<Rightarrow> Some (Inl e, c2) | Inr items \<Rightarrow> write_reserved env items c2) =
      Some (rw, c3)"
    using set res by (auto simp: do_batch_set_def Let_def split: option.splits)
  have "\<exists>v. rw = Inr v"
    using set res w release_frame(2) by (cases rw) (auto simp: do_batch_set_def Let_def split: prod.splits sum.splits)
  then obtain v where rw: "rw = Inr v" by blast
  then obtain items where q: "q = Inr items" using w by (cases q) auto
  then have wr: "write_reserved env items c2 = Some (Inr v, c3)" using w rw by simp
  note res = res [unfolded q]
  obtain sgs where sgs: "items = concat sgs" "length sgs = length rs"
    "list_all2 (\<lambda>(key, buffer, len) (r, its). rv_key r = key \<and> en_logical_size (rv_entry r) = len \<and>
        append_segments (geom ?c1) (rv_entry r) buffer = Inr its)
      (filter (\<lambda>x. \<not> ignored ?c1 x) request) (zip rs sgs)"
    using reserve_all_segments [OF res] by blast
  have fr: "\<And>key. entry_of key c3 = entry_of key c2" "geom c3 = geom c2"
    using write_reserved_frame [OF wr] by simp_all
  have d: "distinct (map rv_key rs)" using ra by (simp add: reserved_ok_def)
  let ?c4 = "publish rs c3"
  obtain rr where c': "release_all_entries
      (concat (map (\<lambda>r. case rv_previous r of None \<Rightarrow> [] | Some p \<Rightarrow> [en_extents p]) rs)) ?c4 = (rr, c')"
    using set res wr by (auto simp: do_batch_set_def Let_def publish_def)
  have ctx: "cn_context c' = cn_context c3"
    using release_frame(2) [of "concat (map (\<lambda>r. case rv_previous r of None \<Rightarrow> [] | Some p \<Rightarrow> [en_extents p]) rs)" ?c4]
      publish_frame [of rs c3] unfolding c' by (simp add: publish_def)
  have ent: "entry_of (rv_key r) c' = Some (rv_entry r)" if "r \<in> set rs" for r
    using publish_entry [OF d that, of c3] release_entries
        (2) [of _ "concat (map (\<lambda>r. case rv_previous r of None \<Rightarrow> [] | Some p \<Rightarrow> [en_extents p]) rs)" ?c4]
    unfolding c' by simp
  have g: "geom c' = geom c" using ctx fr(2) ra by simp
  have ig: "ignored ?c1 = ignored c" by (simp add: ignored_def other_size_def fun_eq_iff)
  have "list_all2 (segments_of c') (filter (\<lambda>x. \<not> ignored c x) request) sgs"
  proof (rule list_all2_zip_left [OF _ sgs(2), where P = "\<lambda>(key, buffer, len) r its. rv_key r = key \<and>
        en_logical_size (rv_entry r) = len \<and> append_segments (geom ?c1) (rv_entry r) buffer = Inr its"])
    show "list_all2 (\<lambda>x (r, its). (case x of (key, buffer, len) \<Rightarrow> \<lambda>r its. rv_key r = key \<and>
        en_logical_size (rv_entry r) = len \<and> append_segments (geom ?c1) (rv_entry r) buffer = Inr its) r its)
        (filter (\<lambda>x. \<not> ignored c x) request) (zip rs sgs)"
      using sgs(3) by (simp only: ig case_prod_unfold)
  qed (auto simp: segments_of_def g ent)
  moreover have "cn_context c2 = cn_context c" using ra by simp
  ultimately show ?thesis
    using write_reserved_ok [OF wr] unfolding sgs(1) ctx by auto
qed

lemma batch_set_sizes:
  assumes inv: "conn_inv no_reservation c" and set: "do_batch_set env request c = Some (Inr u, c')"
  shows "sizes c' = fold (\<lambda>(key, buffer, len). spec_set key len) request (sizes c)"
proof -
  note e = do_batch_set_effect [OF assms]
  have d: "distinct (map fst request)" using e by simp
  have each: "sizes c' key = spec_set key len (sizes c) key" if "(key, buffer, len) \<in> set request" for key buffer len
  proof -
    have "if other_size key len c then entry_of key c' = entry_of key c
        else \<exists>en. entry_of key c' = Some en \<and> en_logical_size en = len"
      using e that by auto
    then show ?thesis
      by (auto simp: spec_set_def sizes_def other_size_def split: if_splits option.splits)
  qed
  have other: "sizes c' key = sizes c key" if "key \<notin> fst ` set request" for key
    using e that by (simp add: sizes_def)
  note fold_spec_set [OF d]
  moreover have "sizes c' key =
      (case map_of request key of None \<Rightarrow> sizes c key | Some (buffer, len) \<Rightarrow> spec_set key len (sizes c) key)" for key
  proof (cases "map_of request key")
    case None
    then show ?thesis using other [of key] by (simp add: map_of_eq_None_iff [symmetric])
  next
    case (Some x)
    then show ?thesis using each [of key "fst x" "snd x"] by (auto dest: map_of_SomeD split: prod.split)
  qed
  ultimately show ?thesis by (simp add: fun_eq_iff)
qed

text \<open>
  Property C29. A batch store is all-or-nothing. When it fails, for whatever reason, no key changes and
  the free pages are the ones from before. When it succeeds its keys are distinct and its values are
  not empty; the keys that have a value of another size keep their entry; every other key has an entry
  of the size asked for; the segments of all these entries, each from the buffer of its key, were sent
  to the bdev in one batch of writes, in the order of the request, and every one of them succeeded.
\<close>

theorem batch_set_all_or_nothing:
  assumes "connector_reachable env c" and "do_batch_set env request c = Some (r, c')"
  shows "case r of
      Inl e \<Rightarrow> (\<forall>key. entry_of key c' = entry_of key c) \<and>
        set (free_pages (cn_allocator c')) = set (free_pages (cn_allocator c))
    | Inr _ \<Rightarrow> distinct (map fst request) \<and> (\<forall>(key, buffer, len)\<in>set request. len \<noteq> 0) \<and>
        sizes c' = fold (\<lambda>(key, buffer, len). spec_set key len) request (sizes c) \<and>
        (\<forall>key. key \<notin> fst ` set request \<or> (\<exists>x\<in>set request. ignored c x \<and> key = fst x) \<longrightarrow>
          entry_of key c' = entry_of key c) \<and>
        (\<exists>sgs results. list_all2 (segments_of c') (filter (\<lambda>x. \<not> ignored c x) request) sgs \<and>
          write_batch env (concat sgs) (cn_context c) = Some (Inr results, cn_context c') \<and>
          length results = length (concat sgs) \<and> (\<forall>res\<in>set results. res_success res))"
proof -
  have inv: "conn_inv no_reservation c" by (rule connector_reachable_inv [OF assms(1)])
  note e = do_batch_set_effect [OF inv assms(2)]
  show ?thesis
  proof (cases r)
    case (Inl x)
    then have same: "entry_of key c' = entry_of key c" for key using e by simp
    have "set (free_pages (cn_allocator c')) = set (free_pages (cn_allocator c))"
      using free_determined [OF inv conjunct1 [OF e] same] do_batch_set_geometry [OF assms(2)] by blast
    then show ?thesis using Inl same by simp
  next
    case (Inr u)
    have d: "distinct (map fst request)" and nz: "\<forall>(key, buffer, len)\<in>set request. len \<noteq> 0"
      using e Inr by auto
    have kept: "entry_of key c' = entry_of key c"
      if "key \<notin> fst ` set request \<or> (\<exists>x\<in>set request. ignored c x \<and> key = fst x)" for key
      using that e Inr by (auto simp: ignored_def)
    show ?thesis
      using d nz kept do_batch_set_segments [OF inv assms(2) [unfolded Inr]]
        batch_set_sizes [OF inv assms(2) [unfolded Inr]] unfolding Inr by simp
  qed
qed

theorem batch_set_all_or_nothing_witness:
  "fst (the (do_batch_set disk_env [(''a'', 32, 0)] disk_connector)) =
    Inl (Invalid_argument ''values must not be empty'') \<and>
   set (free_pages (cn_allocator (snd (the (do_batch_set disk_env [(''a'', 32, 0)] disk_connector))))) =
     set (free_pages (cn_allocator disk_connector))"
proof -
  obtain c' where d: "do_batch_set disk_env [(''a'', 32, 0)] disk_connector =
      Some (Inl (Invalid_argument ''values must not be empty''), c')"
    by (simp add: do_batch_set_def Let_def)
  show ?thesis using batch_set_all_or_nothing [OF disk_connector_reachable d] by (simp add: d)
qed

section \<open>Batch reads\<close>

text \<open>
  The segments of each key of a read: those of its entry when the size is right, none otherwise. The
  tags the code keeps beside the segments are the positions of the keys they belong to.
\<close>

definition wanted :: "'d connector \<Rightarrow> string \<times> u64 \<times> u64 \<Rightarrow> bool" where
  "wanted c x \<longleftrightarrow> (case x of (key, buffer, len) \<Rightarrow> sizes c key = Some len)"

definition read_segments :: "'d connector \<Rightarrow> string \<times> u64 \<times> u64 \<Rightarrow> io_batch_item list \<Rightarrow> bool" where
  "read_segments c x its \<longleftrightarrow> (if wanted c x then segments_of c x its else its = [])"

fun tags :: "nat \<Rightarrow> 'a list list \<Rightarrow> nat list" where
  "tags i [] = []"
| "tags i (its # sgs) = replicate (length its) i @ tags (Suc i) sgs"

lemma tags_length [simp]: "length (tags i sgs) = length (concat sgs)"
  by (induction sgs arbitrary: i) simp_all

lemma read_segments_miss: "\<not> wanted c x \<Longrightarrow> read_segments c x []"
  by (simp add: read_segments_def)

lemma get_items_segments:
  assumes "get_items i request c = Inr (oks, items, ks)"
  shows "\<exists>sgs. items = concat sgs \<and> ks = tags i sgs \<and> oks = map (wanted c) request \<and>
    list_all2 (read_segments c) request sgs"
  using assms
proof (induction request arbitrary: i oks items ks)
  case Nil
  then show ?case by (intro exI [of _ "[]"]) simp
next
  case (Cons x request)
  obtain key buffer len where x: "x = (key, buffer, len)" by (metis prod.exhaust)
  have w: "wanted c x \<longleftrightarrow> (\<exists>en. entry_of key c = Some en \<and> en_logical_size en = len)"
    by (auto simp: x wanted_def sizes_def)
  show ?case
  proof (cases "wanted c x")
    case False
    then obtain oks1 where rec: "get_items (Suc i) request c = Inr (oks1, items, ks)" "oks = False # oks1"
      using Cons.prems unfolding w by (auto simp: x split: option.splits if_splits sum.splits prod.splits)
    from Cons.IH [OF rec(1)] obtain sgs where "items = concat sgs" "ks = tags (Suc i) sgs"
      "oks1 = map (wanted c) request" "list_all2 (read_segments c) request sgs" by blast
    then show ?thesis using False rec(2) by (intro exI [of _ "[] # sgs"]) (simp add: read_segments_miss)
  next
    case True
    then obtain en where en: "entry_of key c = Some en" "en_logical_size en = len" unfolding w by blast
    obtain its where its: "append_segments (geom c) en buffer = Inr its"
      using Cons.prems en by (cases "append_segments (geom c) en buffer") (simp_all add: x)
    obtain oks1 items1 ks1 where rec: "get_items (Suc i) request c = Inr (oks1, items1, ks1)"
      using Cons.prems en its by (auto simp: x split: sum.splits prod.splits)
    have e: "oks = True # oks1" "items = its @ items1" "ks = replicate (length its) i @ ks1"
      using Cons.prems en its rec by (simp_all add: x)
    from Cons.IH [OF rec] obtain sgs where "items1 = concat sgs" "ks1 = tags (Suc i) sgs"
      "oks1 = map (wanted c) request" "list_all2 (read_segments c) request sgs" by blast
    moreover have "read_segments c x its" using True en its by (auto simp: read_segments_def segments_of_def x)
    ultimately show ?thesis using True by (intro exI [of _ "its # sgs"]) (simp add: e)
  qed
qed

text \<open>What the loop over the results makes of results that are grouped by key.\<close>

lemma mark_failures_append:
  "length rs = length ks \<Longrightarrow> mark_failures (rs @ rs') (ks @ ks') oks = mark_failures rs' ks' (mark_failures rs ks oks)"
  by (induction rs ks oks rule: mark_failures.induct) simp_all

lemma mark_failures_group:
  "mark_failures rs (replicate (length rs) i) oks =
     (if \<forall>r\<in>set rs. res_success r then oks else oks[i := False])"
  by (induction rs arbitrary: oks) auto

lemma mark_failures_groups:
  "map length rss = map length sgs \<Longrightarrow> length oks = length rss \<Longrightarrow>
    mark_failures (concat rss) (tags (length done_oks) sgs) (done_oks @ oks) =
      done_oks @ map2 (\<lambda>ok rs. ok \<and> (\<forall>r\<in>set rs. res_success r)) oks rss"
proof (induction rss arbitrary: sgs oks done_oks)
  case (Cons rs rss)
  obtain its sgs' where sgs: "sgs = its # sgs'" "length its = length rs" "map length rss = map length sgs'"
    using Cons.prems(1) by (cases sgs) auto
  obtain ok oks' where oks: "oks = ok # oks'" "length oks' = length rss"
    using Cons.prems(2) by (cases oks) auto
  let ?ok = "ok \<and> (\<forall>r\<in>set rs. res_success r)"
  have "mark_failures rs (replicate (length rs) (length done_oks)) (done_oks @ ok # oks') =
      (done_oks @ [?ok]) @ oks'"
    by (simp add: mark_failures_group list_update_append)
  then show ?case
    using Cons.IH [OF sgs(3) oks(2), of "done_oks @ [?ok]"] sgs(2)
    by (simp add: sgs(1) oks(1) mark_failures_append)
qed simp

text \<open>A list of results as long as the segments falls into one group for each key.\<close>

lemma groups_exist:
  "length xs = length (concat sgs) \<Longrightarrow> \<exists>xss. xs = concat xss \<and> map length xss = map length sgs"
proof (induction sgs arbitrary: xs)
  case (Cons its sgs)
  have "length (drop (length its) xs) = length (concat sgs)" using Cons.prems by simp
  from Cons.IH [OF this] obtain xss where "drop (length its) xs = concat xss" "map length xss = map length sgs" by blast
  then show ?case
    using Cons.prems append_take_drop_id [of "length its" xs]
    by (intro exI [of _ "take (length its) xs # xss"]) simp
qed simp

text \<open>
  Property C30. A batch read never throws and changes no key. The segments of the keys that have a
  value of the size asked for are sent to the bdev in one batch of reads, in the order of the request.
  When the batch is refused, or its results are not as many as its segments, no key is reported as
  read. Otherwise the results fall into one group for each key, as many as it has segments, and a key
  is reported as read exactly when its value has the size asked for and every result of its own group
  is a success.
\<close>

theorem batch_get_exact:
  assumes "connector_reachable env c" and "do_batch_get env request c = Some (r, c')"
  shows "(\<forall>key. entry_of key c' = entry_of key c) \<and>
    (\<exists>oks sgs q. r = Inr oks \<and> list_all2 (read_segments c) request sgs \<and>
      read_batch env (concat sgs) (cn_context c) = Some (q, cn_context c') \<and>
      (case q of
         Inl e \<Rightarrow> oks = map (\<lambda>_. False) request
       | Inr results \<Rightarrow>
           if length results \<noteq> length (concat sgs) then oks = map (\<lambda>_. False) request
           else \<exists>rss. results = concat rss \<and> map length rss = map length sgs \<and>
             oks = map2 (\<lambda>x rs. wanted c x \<and> (\<forall>res\<in>set rs. res_success res)) request rss))"
proof -
  let ?c1 = "states_for (map fst request) c"
  have inv: "conn_inv no_reservation c" by (rule connector_reachable_inv [OF assms(1)])
  have "sizes ?c1 = sizes c" by (rule sizes_eq) simp
  then have w: "wanted ?c1 = wanted c" by (simp add: fun_eq_iff wanted_def)
  have "segments_of ?c1 = segments_of c" by (simp add: fun_eq_iff segments_of_def)
  with w have same: "wanted ?c1 = wanted c" "read_segments ?c1 = read_segments c"
    by (simp_all add: fun_eq_iff read_segments_def)
  obtain oks1 items ks where it: "get_items 0 request ?c1 = Inr (oks1, items, ks)"
    using get_items_ok [of ?c1 0 request] inv by (auto simp: conn_inv_def)
  from get_items_segments [OF it] obtain sgs where sgs: "items = concat sgs" "ks = tags 0 sgs"
    "oks1 = map (wanted c) request" "list_all2 (read_segments c) request sgs" unfolding same by blast
  have len: "length sgs = length request" using list_all2_lengthD [OF sgs(4)] by simp
  obtain q c2 where q: "(if items = [] then Some (Inr [], ?c1) else run_batch env Op_read items ?c1) = Some (q, c2)"
    using assms(2) it by (auto simp: do_batch_get_def Let_def split: option.splits)
  then have rb: "read_batch env items (cn_context c) = Some (q, cn_context c2)"
    by (auto simp: run_batch_def split: if_splits option.splits prod.splits)
  have ent: "entry_of key c2 = entry_of key c" for key
    using q run_batch_frame [of env Op_read items ?c1 q c2] by (auto split: if_splits)
  have c': "c' = c2" and r: "r = Inr (case q of Inl e \<Rightarrow> map (\<lambda>_. False) request | Inr results \<Rightarrow>
      if length results \<noteq> length items then map (\<lambda>_. False) request else mark_failures results ks oks1)"
    using assms(2) it q sgs(3)
    by (cases q; simp add: do_batch_get_def Let_def comp_def split: if_splits)+
  have "\<exists>rss. results = concat rss \<and> map length rss = map length sgs \<and>
      mark_failures results ks oks1 =
        map2 (\<lambda>x rs. wanted c x \<and> (\<forall>res\<in>set rs. res_success res)) request rss"
    if l: "length results = length items" for results
  proof -
    obtain rss where rss: "results = concat rss" "map length rss = map length sgs"
      using groups_exist [of results sgs] l unfolding sgs(1) by blast
    have "length oks1 = length rss" using arg_cong [OF rss(2), of length] len by (simp add: sgs(3))
    from mark_failures_groups [OF rss(2) this, of "[]"] rss show ?thesis
      by (intro exI [of _ rss]) (simp add: sgs(2,3) zip_map1 comp_def case_prod_unfold)
  qed
  then show ?thesis
    using ent rb sgs(4) unfolding c' r sgs(1)
    by (intro conjI allI exI [of _ sgs] exI [of _ q] exI) (auto split: sum.split)
qed

text \<open>A key without a value.\<close>

theorem batch_get_exact_witness:
  "fst (the (do_batch_get disk_env [(''a'', 32, 4)] disk_connector)) = Inr [False]"
proof -
  let ?x = "(''a'', 32 :: u64, 4 :: u64)"
  obtain r c' where d: "do_batch_get disk_env [?x] disk_connector = Some (r, c')"
    by (simp add: do_batch_get_def Let_def disk_connector_empty)
  from batch_get_exact [OF disk_connector_reachable d] obtain oks sgs q where
    o: "r = Inr oks" "list_all2 (read_segments disk_connector) [?x] sgs"
    and b: "read_batch disk_env (concat sgs) (cn_context disk_connector) = Some (q, cn_context c')"
    and c: "case q of
         Inl e \<Rightarrow> oks = map (\<lambda>_. False) [?x]
       | Inr results \<Rightarrow>
           if length results \<noteq> length (concat sgs) then oks = map (\<lambda>_. False) [?x]
           else \<exists>rss. results = concat rss \<and> map length rss = map length sgs \<and>
             oks = map2 (\<lambda>x rs. wanted disk_connector x \<and> (\<forall>res\<in>set rs. res_success res)) [?x] rss"
    by blast
  have w: "\<not> wanted disk_connector ?x" by (simp add: wanted_def sizes_def disk_connector_empty)
  have sgs: "sgs = [[]]" using o(2) w by (auto simp: list_all2_Cons1 read_segments_def)
  then have "q = Inr []" using b by simp
  then have "oks = [False]" using c w by (auto simp: sgs)
  then show ?thesis by (simp add: d o(1))
qed

end
