(* ===== verification/Kv_Connector.thy ===== *)
theory Kv_Connector
  imports Buffer_Pool Byte_Memory
begin

text \<open>
  The NVMe Key-Value connector, \<open>nvme-kv/csrc/native_kv_connector.{h,cpp}\<close>: attaching the
  controller, the operations on one key, the waiting loop, the connections of the workers and the
  diagnostic records.

  SPDK, OpenSSL and LMCache's \<open>ConnectorBase\<close> are functions of \<open>kv_env\<close> on an outside state \<open>'d\<close>.
  A \<open>CommandResult\<close> lives on the stack of the operation that made it; here it is a position of
  \<open>kv_results\<close> that is not used again. A command SPDK accepted stays in \<open>kv_in_flight\<close> until a poll
  completes it.
\<close>

section \<open>State\<close>

type_synonym u16 = "16 word"
type_synonym qpair = nat
type_synonym kv_key = bytes

datatype kv_opcode = Kv_store | Kv_retrieve | Kv_exist | Kv_delete

text \<open>What a command was submitted with; without a buffer the length is 0.\<close>

record kv_command =
  kc_opcode :: kv_opcode
  kc_qpair :: qpair
  kc_key :: kv_key
  kc_buffer :: dma_ptr
  kc_length :: nat
  kc_result :: nat

record command_result =
  cr_done :: bool
  cr_success :: bool

record kv_connection =
  cn_qpair :: "qpair option"
  cn_worker_id :: u32

text \<open>
  A namespace as the attach callback sees it: null, of another command set, without data, or with
  the maximal key and value lengths of its current format.
\<close>

datatype kv_ns = Ns_null | Ns_other | Ns_no_data | Ns_format nat u16 u32

text \<open>A completion: the position of the command in flight, whether it succeeded, the bytes it read.\<close>

type_synonym kv_completed = "nat \<times> bool \<times> bytes"

record 'd kv_env =
  ke_sha256 :: "bytes \<Rightarrow> bytes"
  ke_now :: "'d \<Rightarrow> nat \<times> 'd"
  ke_zmalloc :: "'d zmalloc_fun"
  ke_dma_free :: "'d dma_free_fun"
  ke_alloc_qpair :: "nat \<Rightarrow> 'd \<Rightarrow> qpair option \<times> 'd"
  ke_free_qpair :: "qpair \<Rightarrow> 'd \<Rightarrow> 'd"
  ke_submit :: "kv_command \<Rightarrow> 'd \<Rightarrow> int \<times> 'd"
  ke_poll :: "qpair \<Rightarrow> (kv_command \<times> bytes) list \<Rightarrow> 'd \<Rightarrow> int \<times> kv_completed list \<times> 'd"
  ke_env_init :: "int \<Rightarrow> 'd \<Rightarrow> int \<times> 'd"
  ke_env_fini :: "'d \<Rightarrow> 'd"
  ke_probe :: "string \<Rightarrow> 'd \<Rightarrow> int \<times> (nat \<times> kv_ns list) list \<times> 'd"
  ke_detach :: "nat \<Rightarrow> 'd \<Rightarrow> 'd"
  ke_start_workers :: "'d \<Rightarrow> exn option \<times> 'd"

record 'd kv_state =
  kv_pci_bdf :: string
  kv_controller :: "nat option"
  kv_namespace :: "nat option"
  kv_max_value_bytes :: u32
  kv_trace_events :: bool
  kv_next_worker_id :: u32
  kv_runtime_initialized :: bool
  kv_results :: "command_result list"
  kv_in_flight :: "kv_command list"
  kv_memory :: "nat \<Rightarrow> u8"
  kv_dma :: "dma_ptr \<Rightarrow> nat \<Rightarrow> u8"
  kv_stderr :: "string list"
  kv_world :: 'd

definition kv_outside :: "('d \<Rightarrow> 'd) \<Rightarrow> 'd kv_state \<Rightarrow> 'd kv_state" where
  "kv_outside f s = s\<lparr>kv_world := f (kv_world s)\<rparr>"

section \<open>Keys and records\<close>

text \<open>The domain ends with the null byte written in the literal.\<close>

definition kv_key_domain :: string where
  "kv_key_domain = ''lmcache-spdk-nvme-kv/native-l2/v1'' @ [CHR 0x00]"

definition byte_text :: "string \<Rightarrow> bytes" where
  "byte_text = map of_char"

definition derive_key :: "'d kv_env \<Rightarrow> string \<Rightarrow> kv_key" where
  "derive_key env key = take 16 (ke_sha256 env (byte_text (kv_key_domain @ key)))"

definition hex_nibble :: "nat \<Rightarrow> char" where
  "hex_nibble n = (if n < 10 then char_of (48 + n) else char_of (87 + n))"

definition hex_byte :: "u8 \<Rightarrow> string" where
  "hex_byte b = [hex_nibble (unat b div 16), hex_nibble (unat b mod 16)]"

definition quoted :: "string \<Rightarrow> string" where
  "quoted text = [CHR 0x22] @ text @ [CHR 0x22]"

definition emit_event ::
  "'d kv_env \<Rightarrow> string \<Rightarrow> string \<Rightarrow> string \<Rightarrow> u64 \<Rightarrow> bool \<Rightarrow> u32 \<Rightarrow> string \<Rightarrow> u64 \<Rightarrow>
     'd kv_state \<Rightarrow> 'd kv_state" where
  "emit_event env phase operation key bytes success worker_id detail future_id s =
     (if \<not> kv_trace_events s then s
      else
        let digest = derive_key env key;
            line = ''LMCACHE_KV_EVENT {'' @ quoted ''phase'' @ '':'' @ quoted phase @ '','' @
              quoted ''op'' @ '':'' @ quoted operation @ '','' @
              quoted ''key'' @ '':'' @ quoted (concat (map hex_byte (take 4 digest))) @ '','' @
              quoted ''bytes'' @ '':'' @ nat_to_string (unat bytes) @ '','' @
              quoted ''ok'' @ '':'' @ (if success then ''true'' else ''false'') @ '','' @
              quoted ''worker'' @ '':'' @ nat_to_string (unat worker_id) @ '','' @
              quoted ''future'' @ '':'' @ nat_to_string (unat future_id) @ '','' @
              quoted ''detail'' @ '':'' @ quoted detail @ ''}'' @ [CHR 0x0A]
        in s\<lparr>kv_stderr := kv_stderr s @ [line]\<rparr>)"

section \<open>Commands\<close>

text \<open>The callback of a command: its completion goes where its result is.\<close>

definition kv_complete :: "nat \<Rightarrow> bool \<Rightarrow> 'd kv_state \<Rightarrow> 'd kv_state" where
  "kv_complete r is_error s =
     s\<lparr>kv_results := (kv_results s)[r := \<lparr>cr_done = True, cr_success = \<not> is_error\<rparr>]\<rparr>"

text \<open>SPDK reports a completion: the device has written the buffer of a retrieve before.\<close>

definition deliver_completion :: "kv_completed \<Rightarrow> 'd kv_state \<Rightarrow> 'd kv_state" where
  "deliver_completion completed s =
     (case completed of (k, ok, content) \<Rightarrow>
        if k < length (kv_in_flight s)
        then let c = kv_in_flight s ! k;
                 dma = (if kc_opcode c = Kv_retrieve
                        then (kv_dma s)(kc_buffer c := mem_write (kv_dma s (kc_buffer c)) 0 content)
                        else kv_dma s)
             in kv_complete (kc_result c) (\<not> ok)
                  (s\<lparr>kv_in_flight := take k (kv_in_flight s) @ drop (Suc k) (kv_in_flight s), kv_dma := dma\<rparr>)
        else s)"

definition process_completions :: "'d kv_env \<Rightarrow> qpair \<Rightarrow> 'd kv_state \<Rightarrow> int \<times> 'd kv_state" where
  "process_completions env q s =
     (case ke_poll env q (map (\<lambda>c. (c, mem_read (kv_dma s (kc_buffer c)) 0 (kc_length c))) (kv_in_flight s))
             (kv_world s) of
        (rc, completed, d) \<Rightarrow> (rc, fold deliver_completion completed (s\<lparr>kv_world := d\<rparr>)))"

definition kv_clock :: "'d kv_env \<Rightarrow> 'd kv_state \<Rightarrow> nat \<times> 'd kv_state" where
  "kv_clock env s = (case ke_now env (kv_world s) of (t, d) \<Rightarrow> (t, s\<lparr>kv_world := d\<rparr>))"

text \<open>Ten seconds in nanoseconds.\<close>

definition command_timeout :: nat where "command_timeout = 10000000000"

text \<open>The loop of \<open>wait_for_completion\<close>; nothing bounds it but the clock.\<close>

partial_function (option) wait_loop ::
  "'d kv_env \<Rightarrow> qpair \<Rightarrow> nat \<Rightarrow> string \<Rightarrow> nat \<Rightarrow> 'd kv_state \<Rightarrow> (unit result \<times> 'd kv_state) option" where
  "wait_loop env q r operation deadline s =
     (if cr_done (kv_results s ! r) then Some (Inr (), s)
      else
        (case process_completions env q s of
           (rc, s1) \<Rightarrow>
             if rc < 0
             then Some (Inl (Runtime_error (''NVMe-KV '' @ operation @ '' completion polling failed'')), s1)
             else
               (case kv_clock env s1 of
                  (t, s2) \<Rightarrow>
                    if deadline \<le> t
                    then Some (Inl (Runtime_error (''NVMe-KV '' @ operation @ '' timed out'')), s2)
                    else wait_loop env q r operation deadline s2)))"

definition wait_for_completion ::
  "'d kv_env \<Rightarrow> kv_connection \<Rightarrow> nat \<Rightarrow> string \<Rightarrow> bool \<Rightarrow> 'd kv_state \<Rightarrow>
     (unit result \<times> 'd kv_state) option" where
  "wait_for_completion env conn r operation require_success s =
     (case kv_clock env s of
        (t, s1) \<Rightarrow>
          (case wait_loop env (the (cn_qpair conn)) r operation (t + command_timeout) s1 of
             None \<Rightarrow> None
           | Some (Inl e, s2) \<Rightarrow> Some (Inl e, s2)
           | Some (Inr _, s2) \<Rightarrow>
               if require_success \<and> \<not> cr_success (kv_results s2 ! r)
               then Some (Inl (Runtime_error (''NVMe-KV '' @ operation @ '' failed'')), s2)
               else Some (Inr (), s2)))"

text \<open>A new result on the stack, and a command submitted with it: its position and the code.\<close>

definition submit_command ::
  "'d kv_env \<Rightarrow> kv_connection \<Rightarrow> kv_opcode \<Rightarrow> kv_key \<Rightarrow> dma_ptr \<Rightarrow> nat \<Rightarrow> 'd kv_state \<Rightarrow>
     int \<times> nat \<times> 'd kv_state" where
  "submit_command env conn opcode key buf len s =
     (let r = length (kv_results s);
          c = \<lparr>kc_opcode = opcode, kc_qpair = the (cn_qpair conn), kc_key = key, kc_buffer = buf,
               kc_length = len, kc_result = r\<rparr>
      in case ke_submit env c (kv_world s) of
           (rc, d) \<Rightarrow>
             (rc, r, s\<lparr>kv_world := d, kv_results := kv_results s @ [\<lparr>cr_done = False, cr_success = False\<rparr>],
                kv_in_flight := kv_in_flight s @ (if rc = 0 then [c] else [])\<rparr>))"

section \<open>Operations on one key\<close>

definition ensure_value_size :: "u64 \<Rightarrow> 'd kv_state \<Rightarrow> unit result" where
  "ensure_value_size len s =
     (if len = 0 \<or> len > ucast (kv_max_value_bytes s)
      then Inl (Runtime_error ''LMCache object length exceeds NVMe-KV value limit'')
      else Inr ())"

text \<open>\<open>DmaBuffer\<close>: a zeroed buffer for the scope \<open>body\<close>, freed however the scope is left.\<close>

definition with_dma_buffer ::
  "'d kv_env \<Rightarrow> u64 \<Rightarrow> (dma_ptr \<Rightarrow> 'd kv_state \<Rightarrow> ('a result \<times> 'd kv_state) option) \<Rightarrow> 'd kv_state \<Rightarrow>
     ('a result \<times> 'd kv_state) option" where
  "with_dma_buffer env len body s =
     (case ke_zmalloc env len 4096 (kv_world s) of
        (None, d) \<Rightarrow> Some (Inl (Runtime_error ''SPDK DMA allocation failed''), s\<lparr>kv_world := d\<rparr>)
      | (Some b, d) \<Rightarrow>
          (case body b (s\<lparr>kv_world := d, kv_dma := (kv_dma s)(b := \<lambda>_. 0)\<rparr>) of
             None \<Rightarrow> None
           | Some (r, s1) \<Rightarrow> Some (r, kv_outside (ke_dma_free env b) s1)))"

definition kv_do_single_get ::
  "'d kv_env \<Rightarrow> kv_connection \<Rightarrow> string \<Rightarrow> nat \<Rightarrow> u64 \<Rightarrow> 'd kv_state \<Rightarrow>
     (unit result \<times> 'd kv_state) option" where
  "kv_do_single_get env conn key buf len s =
     (case ensure_value_size len s of
        Inl e \<Rightarrow> Some (Inl e, s)
      | Inr _ \<Rightarrow>
          with_dma_buffer env len (\<lambda>staging s1.
            let s2 = emit_event env ''io_begin'' ''retrieve'' key len True (cn_worker_id conn) [] 0 s1
            in case submit_command env conn Kv_retrieve (derive_key env key) staging (unat len) s2 of
                 (rc, r, s3) \<Rightarrow>
                   if rc \<noteq> 0
                   then Some (Inl (Runtime_error ''NVMe-KV retrieve submission failed''),
                     emit_event env ''io_end'' ''retrieve'' key len False (cn_worker_id conn) ''submit_failed'' 0 s3)
                   else
                     (case wait_for_completion env conn r ''retrieve'' True s3 of
                        None \<Rightarrow> None
                      | Some (Inl e, s4) \<Rightarrow> Some (Inl e, s4)
                      | Some (Inr _, s4) \<Rightarrow>
                          Some (Inr (), emit_event env ''io_end'' ''retrieve'' key len True (cn_worker_id conn) ''ok'' 0
                            (s4\<lparr>kv_memory := mem_write (kv_memory s4) buf
                                   (mem_read (kv_dma s4 staging) 0 (unat len))\<rparr>)))) s)"

definition kv_do_single_set ::
  "'d kv_env \<Rightarrow> kv_connection \<Rightarrow> string \<Rightarrow> nat \<Rightarrow> u64 \<Rightarrow> 'd kv_state \<Rightarrow>
     (unit result \<times> 'd kv_state) option" where
  "kv_do_single_set env conn key buf len s =
     (case ensure_value_size len s of
        Inl e \<Rightarrow> Some (Inl e, s)
      | Inr _ \<Rightarrow>
          with_dma_buffer env len (\<lambda>staging s1.
            let s2 = s1\<lparr>kv_dma := (kv_dma s1)(staging :=
                        mem_write (kv_dma s1 staging) 0 (mem_read (kv_memory s1) buf (unat len)))\<rparr>;
                s3 = emit_event env ''io_begin'' ''store'' key len True (cn_worker_id conn) [] 0 s2
            in case submit_command env conn Kv_store (derive_key env key) staging (unat len) s3 of
                 (rc, r, s4) \<Rightarrow>
                   if rc \<noteq> 0
                   then Some (Inl (Runtime_error ''NVMe-KV store submission failed''),
                     emit_event env ''io_end'' ''store'' key len False (cn_worker_id conn) ''submit_failed'' 0 s4)
                   else
                     (case wait_for_completion env conn r ''store'' True s4 of
                        None \<Rightarrow> None
                      | Some (Inl e, s5) \<Rightarrow> Some (Inl e, s5)
                      | Some (Inr _, s5) \<Rightarrow>
                          Some (Inr (), emit_event env ''io_end'' ''store'' key len True (cn_worker_id conn) ''ok'' 0 s5))) s)"

definition kv_do_single_exists ::
  "'d kv_env \<Rightarrow> kv_connection \<Rightarrow> string \<Rightarrow> 'd kv_state \<Rightarrow> (bool result \<times> 'd kv_state) option" where
  "kv_do_single_exists env conn key s =
     (case submit_command env conn Kv_exist (derive_key env key) 0 0 s of
        (rc, r, s1) \<Rightarrow>
          if rc \<noteq> 0 then Some (Inl (Runtime_error ''NVMe-KV exist submission failed''), s1)
          else
            (case wait_for_completion env conn r ''exist'' False s1 of
               None \<Rightarrow> None
             | Some (Inl e, s2) \<Rightarrow> Some (Inl e, s2)
             | Some (Inr _, s2) \<Rightarrow>
                 let success = cr_success (kv_results s2 ! r)
                 in Some (Inr success, emit_event env ''io_end'' ''exist'' key 0 success (cn_worker_id conn)
                      (if success then ''present'' else ''absent'') 0 s2)))"

definition kv_do_single_delete ::
  "'d kv_env \<Rightarrow> kv_connection \<Rightarrow> string \<Rightarrow> 'd kv_state \<Rightarrow> (bool result \<times> 'd kv_state) option" where
  "kv_do_single_delete env conn key s =
     (case kv_do_single_exists env conn key s of
        None \<Rightarrow> None
      | Some (Inl e, s1) \<Rightarrow> Some (Inl e, s1)
      | Some (Inr False, s1) \<Rightarrow> Some (Inr False, s1)
      | Some (Inr True, s1) \<Rightarrow>
          (case submit_command env conn Kv_delete (derive_key env key) 0 0 s1 of
             (rc, r, s2) \<Rightarrow>
               if rc \<noteq> 0 then Some (Inl (Runtime_error ''NVMe-KV delete submission failed''), s2)
               else
                 (case wait_for_completion env conn r ''delete'' True s2 of
                    None \<Rightarrow> None
                  | Some (Inl e, s3) \<Rightarrow> Some (Inl e, s3)
                  | Some (Inr _, s3) \<Rightarrow>
                      Some (Inr True, emit_event env ''io_end'' ''delete'' key 0 True (cn_worker_id conn)
                        ''deleted'' 0 s3))))"

section \<open>Connections\<close>

text \<open>The two moves and the destructor; a moved-from connection owns no queue pair.\<close>

definition connection_move :: "kv_connection \<Rightarrow> kv_connection \<times> kv_connection" where
  "connection_move other = (other, other\<lparr>cn_qpair := None\<rparr>)"

definition connection_destroy :: "'d kv_env \<Rightarrow> kv_connection \<Rightarrow> 'd \<Rightarrow> 'd" where
  "connection_destroy env c d = (case cn_qpair c of None \<Rightarrow> d | Some q \<Rightarrow> ke_free_qpair env q d)"

definition connection_assign ::
  "'d kv_env \<Rightarrow> nat \<Rightarrow> nat \<Rightarrow> kv_connection list \<Rightarrow> 'd \<Rightarrow> kv_connection list \<times> 'd" where
  "connection_assign env this other cs d =
     (if this \<noteq> other
      then (cs[this := cs ! other, other := (cs ! other)\<lparr>cn_qpair := None\<rparr>],
            case cn_qpair (cs ! this) of None \<Rightarrow> d | Some q \<Rightarrow> ke_free_qpair env q d)
      else (cs, d))"

definition kv_create_connection :: "'d kv_env \<Rightarrow> 'd kv_state \<Rightarrow> kv_connection result \<times> 'd kv_state" where
  "kv_create_connection env s =
     (case ke_alloc_qpair env (the (kv_controller s)) (kv_world s) of
        (None, d) \<Rightarrow> (Inl (Runtime_error ''SPDK qpair allocation failed''), s\<lparr>kv_world := d\<rparr>)
      | (Some q, d) \<Rightarrow>
          (Inr \<lparr>cn_qpair = Some q, cn_worker_id = kv_next_worker_id s\<rparr>,
           s\<lparr>kv_world := d, kv_next_worker_id := kv_next_worker_id s + 1\<rparr>))"

section \<open>Batches\<close>

text \<open>
  The overrides of \<open>ConnectorBase\<close>: the base class makes the request, or throws, and the connector
  reports it.
\<close>

definition announce_batch ::
  "'d kv_env \<Rightarrow> string \<Rightarrow> u64 \<Rightarrow> ('d \<Rightarrow> u64 result \<times> 'd) \<Rightarrow> 'd kv_state \<Rightarrow> u64 result \<times> 'd kv_state" where
  "announce_batch env operation bytes base s =
     (case base (kv_world s) of
        (Inl e, d) \<Rightarrow> (Inl e, s\<lparr>kv_world := d\<rparr>)
      | (Inr future_id, d) \<Rightarrow>
          (Inr future_id, emit_event env ''submit'' operation [] bytes True 0 ''batch'' future_id (s\<lparr>kv_world := d\<rparr>)))"

definition submit_batch_get ::
  "'d kv_env \<Rightarrow> ('d \<Rightarrow> u64 result \<times> 'd) \<Rightarrow> u64 \<Rightarrow> 'd kv_state \<Rightarrow> u64 result \<times> 'd kv_state" where
  "submit_batch_get env base batch_chunk_num_bytes = announce_batch env ''get'' batch_chunk_num_bytes base"

definition submit_batch_set ::
  "'d kv_env \<Rightarrow> ('d \<Rightarrow> u64 result \<times> 'd) \<Rightarrow> u64 \<Rightarrow> 'd kv_state \<Rightarrow> u64 result \<times> 'd kv_state" where
  "submit_batch_set env base batch_chunk_num_bytes = announce_batch env ''set'' batch_chunk_num_bytes base"

definition submit_batch_exists ::
  "'d kv_env \<Rightarrow> ('d \<Rightarrow> u64 result \<times> 'd) \<Rightarrow> 'd kv_state \<Rightarrow> u64 result \<times> 'd kv_state" where
  "submit_batch_exists env base = announce_batch env ''exists'' 0 base"

definition submit_batch_delete ::
  "'d kv_env \<Rightarrow> ('d \<Rightarrow> u64 result \<times> 'd) \<Rightarrow> 'd kv_state \<Rightarrow> u64 result \<times> 'd kv_state" where
  "submit_batch_delete env base = announce_batch env ''delete'' 0 base"

record kv_completion =
  co_future_id :: u64
  co_ok :: bool
  co_error :: string

definition drain_completions ::
  "'d kv_env \<Rightarrow> ('d \<Rightarrow> kv_completion list \<times> 'd) \<Rightarrow> 'd kv_state \<Rightarrow> kv_completion list \<times> 'd kv_state" where
  "drain_completions env base s =
     (case base (kv_world s) of
        (completions, d) \<Rightarrow>
          (completions, fold (\<lambda>c. emit_event env ''complete'' ''batch'' [] 0 (co_ok c) 0
             (if co_error c = [] then ''ok'' else ''error'') (co_future_id c)) completions (s\<lparr>kv_world := d\<rparr>)))"

section \<open>Attaching and the life of the connector\<close>

definition probe_cb :: "'d kv_state \<Rightarrow> bool" where
  "probe_cb s \<longleftrightarrow> kv_controller s = None"

text \<open>The loop of \<open>attach_cb\<close> over the active namespaces: the first that is usable, with its limit.\<close>

fun find_kv_namespace :: "kv_ns list \<Rightarrow> (nat \<times> u32) option" where
  "find_kv_namespace [] = None"
| "find_kv_namespace (Ns_format ns kvkml kvvml # rest) =
     (if kvkml < 16 \<or> kvvml = 0 then find_kv_namespace rest else Some (ns, kvvml))"
| "find_kv_namespace (_ # rest) = find_kv_namespace rest"

definition attach_cb :: "'d kv_env \<Rightarrow> nat \<times> kv_ns list \<Rightarrow> 'd kv_state \<Rightarrow> 'd kv_state" where
  "attach_cb env found s =
     (case found of (controller, namespaces) \<Rightarrow>
        (case find_kv_namespace namespaces of
           Some (ns, kvvml) \<Rightarrow>
             s\<lparr>kv_controller := Some controller, kv_namespace := Some ns, kv_max_value_bytes := kvvml\<rparr>
         | None \<Rightarrow> kv_outside (ke_detach env controller) s))"

text \<open>SPDK calls \<open>attach_cb\<close> for the controllers in the list that \<open>ke_probe\<close> returns, in that order.\<close>

definition initialize_runtime :: "'d kv_env \<Rightarrow> 'd kv_state \<Rightarrow> unit result \<times> 'd kv_state" where
  "initialize_runtime env s =
     (case ke_probe env (kv_pci_bdf s) (kv_world s) of
        (rc, found, d) \<Rightarrow>
          let s1 = fold (attach_cb env) found (s\<lparr>kv_world := d\<rparr>)
          in if rc \<noteq> 0 \<or> kv_controller s1 = None \<or> kv_namespace s1 = None
             then (Inl (Runtime_error (''no NVMe Key-Value namespace attached at '' @ kv_pci_bdf s)), s1)
             else (Inr (), s1))"

text \<open>The members with their initialisers, on top of memory and an outside state.\<close>

definition new_kv_connector :: "string \<Rightarrow> bool \<Rightarrow> (nat \<Rightarrow> u8) \<Rightarrow> 'd \<Rightarrow> 'd kv_state" where
  "new_kv_connector pci_bdf trace_events m d =
     \<lparr>kv_pci_bdf = pci_bdf, kv_controller = None, kv_namespace = None, kv_max_value_bytes = 0,
      kv_trace_events = trace_events, kv_next_worker_id = 0, kv_runtime_initialized = False,
      kv_results = [], kv_in_flight = [], kv_memory = m, kv_dma = (\<lambda>_ _. 0), kv_stderr = [], kv_world = d\<rparr>"

text \<open>
  The constructor: the result, the connector, and the process-wide flag \<open>g_runtime_active\<close> that says
  whether a connector runs.
\<close>

definition construct_kv_connector ::
  "'d kv_env \<Rightarrow> string \<Rightarrow> int \<Rightarrow> bool \<Rightarrow> (nat \<Rightarrow> u8) \<Rightarrow> bool \<Rightarrow> 'd \<Rightarrow>
     unit result \<times> 'd kv_state \<times> bool" where
  "construct_kv_connector env pci_bdf hugepage_memory_mb trace_events m active d =
     (let s = new_kv_connector pci_bdf trace_events m d
      in if pci_bdf = [] then (Inl (Runtime_error ''pci_bdf must not be empty''), s, active)
         else if hugepage_memory_mb \<le> 0
         then (Inl (Runtime_error ''hugepage_memory_mb must be positive''), s, active)
         else if active
         then (Inl (Runtime_error ''only one NVMe-KV SPDK connector may run per process''), s, active)
         else
           (case ke_env_init env hugepage_memory_mb d of
              (rc, d1) \<Rightarrow>
                if rc < 0
                then (Inl (Runtime_error ''SPDK environment initialization failed''), s\<lparr>kv_world := d1\<rparr>, active)
                else
                  (case initialize_runtime env (s\<lparr>kv_world := d1, kv_runtime_initialized := True\<rparr>) of
                     (initialized, s1) \<Rightarrow>
                       (case (case initialized of
                                Inl e \<Rightarrow> (Some e, s1)
                              | Inr _ \<Rightarrow>
                                  let s2 = emit_event env ''ready'' ''attach'' pci_bdf
                                             (ucast (kv_max_value_bytes s1)) True 0 ''kv_namespace'' 0 s1
                                  in (case ke_start_workers env (kv_world s2) of
                                        (failed, d2) \<Rightarrow> (failed, s2\<lparr>kv_world := d2\<rparr>))) of
                          (None, s3) \<Rightarrow> (Inr (), s3, True)
                        | (Some e, s3) \<Rightarrow>
                            let s4 = (case kv_controller s3 of
                                        None \<Rightarrow> s3
                                      | Some c \<Rightarrow> (kv_outside (ke_detach env c) s3)\<lparr>kv_controller := None\<rparr>)
                            in (Inl e, (kv_outside (ke_env_fini env) s4)\<lparr>kv_runtime_initialized := False\<rparr>, False)))))"

definition on_workers_stopped :: "'d kv_env \<Rightarrow> 'd kv_state \<Rightarrow> bool \<Rightarrow> 'd kv_state \<times> bool" where
  "on_workers_stopped env s active =
     (if \<not> kv_runtime_initialized s then (s, active)
      else
        let s1 = emit_event env ''shutdown'' ''detach'' (kv_pci_bdf s) 0 True 0 [] 0 s;
            s2 = (case kv_controller s1 of
                    None \<Rightarrow> s1
                  | Some c \<Rightarrow> (kv_outside (ke_detach env c) s1)\<lparr>kv_controller := None, kv_namespace := None\<rparr>)
        in ((kv_outside (ke_env_fini env) s2)\<lparr>kv_runtime_initialized := False\<rparr>, False))"

end
