(* ===== verification/Kv_Device.thy ===== *)
theory Kv_Device
  imports Kv_Connector
begin

text \<open>
  How an operation of the NVMe Key-Value connector meets the device: what the connector relies on,
  and what its waiting loop leaves behind.
\<close>

section \<open>What the connector relies on\<close>

text \<open>
  The device is a map from keys to values: \<open>STORE\<close> puts a value, \<open>RETRIEVE\<close> reads the first bytes of
  one, \<open>EXIST\<close> succeeds only for the keys it has, \<open>DELETE\<close> removes one, and a command that fails
  changes nothing. A command may fail for other reasons than an absent key; only of a device that is
  \<open>exact\<close> it is known that an \<open>EXIST\<close> of a key it has succeeds.
\<close>

definition device_effect ::
  "bool \<Rightarrow> kv_command \<Rightarrow> bytes \<Rightarrow> bool \<Rightarrow> bytes \<Rightarrow> (kv_key \<rightharpoonup> bytes) \<Rightarrow> (kv_key \<rightharpoonup> bytes) \<Rightarrow> bool" where
  "device_effect exact c content ok read m m' \<longleftrightarrow>
     (case kc_opcode c of
        Kv_store \<Rightarrow> m' = (if ok then m(kc_key c \<mapsto> content) else m)
      | Kv_retrieve \<Rightarrow> m' = m \<and>
          (ok \<longrightarrow> (\<exists>v. m (kc_key c) = Some v \<and> read = take (kc_length c) v))
      | Kv_exist \<Rightarrow> m' = m \<and> (ok \<longrightarrow> m (kc_key c) \<noteq> None) \<and>
          (exact \<and> m (kc_key c) \<noteq> None \<longrightarrow> ok)
      | Kv_delete \<Rightarrow> m' = (if ok then m(kc_key c := None) else m))"

text \<open>
  Only a poll that completes the one command in flight changes the device; a poll that reports an
  error completes nothing.
\<close>

definition kv_device_ok :: "'d kv_env \<Rightarrow> ('d \<Rightarrow> kv_key \<rightharpoonup> bytes) \<Rightarrow> bool" where
  "kv_device_ok env dev \<longleftrightarrow>
     (\<forall>c d. dev (snd (ke_submit env c d)) = dev d) \<and> (\<forall>d. dev (snd (ke_now env d)) = dev d) \<and>
     (\<forall>sz a d. dev (snd (ke_zmalloc env sz a d)) = dev d) \<and> (\<forall>b d. dev (ke_dma_free env b d) = dev d) \<and>
     (\<forall>c content d. case ke_poll env (kc_qpair c) [(c, content)] d of
        (rc, completed, d') \<Rightarrow> completed = [] \<and> dev d' = dev d \<or>
          0 \<le> rc \<and> (\<exists>ok read. completed = [(0, ok, read)] \<and>
            device_effect False c content ok read (dev d) (dev d')))"

text \<open>The device never reports an error for the \<open>EXIST\<close> of a key it has.\<close>

definition kv_exists_exact :: "'d kv_env \<Rightarrow> ('d \<Rightarrow> kv_key \<rightharpoonup> bytes) \<Rightarrow> bool" where
  "kv_exists_exact env dev \<longleftrightarrow>
     (\<forall>c content d rc ok read d'. ke_poll env (kc_qpair c) [(c, content)] d = (rc, [(0, ok, read)], d') \<and>
        kc_opcode c = Kv_exist \<and> dev d (kc_key c) \<noteq> None \<longrightarrow> ok)"

text \<open>Time passes: each look at the clock is later, and nothing turns it back.\<close>

definition kv_clock_ok :: "'d kv_env \<Rightarrow> ('d \<Rightarrow> nat) \<Rightarrow> bool" where
  "kv_clock_ok env ck \<longleftrightarrow>
     (\<forall>d. fst (ke_now env d) = ck d \<and> ck d < ck (snd (ke_now env d))) \<and>
     (\<forall>q cs d. ck d \<le> ck (snd (snd (ke_poll env q cs d))))"

text \<open>No call but the two of the allocator touches the DMA heap.\<close>

definition kv_heap_ok :: "'d kv_env \<Rightarrow> ('d \<Rightarrow> dma_ptr set) \<Rightarrow> bool" where
  "kv_heap_ok env live \<longleftrightarrow> dma_heap_ok (ke_zmalloc env) (ke_dma_free env) live \<and>
     (\<forall>d. live (snd (ke_now env d)) = live d) \<and> (\<forall>c d. live (snd (ke_submit env c d)) = live d) \<and>
     (\<forall>q cs d. live (snd (snd (ke_poll env q cs d))) = live d)"

section \<open>What each step changes\<close>

named_theorems kv_views

text \<open>Everything but the outside state, the results, the commands in flight and the DMA buffers.\<close>

definition kv_frame ::
  "'d kv_state \<Rightarrow> string \<times> nat option \<times> nat option \<times> u32 \<times> bool \<times> u32 \<times> bool \<times> (nat \<Rightarrow> u8)" where
  "kv_frame s = (kv_pci_bdf s, kv_controller s, kv_namespace s, kv_max_value_bytes s, kv_trace_events s,
     kv_next_worker_id s, kv_runtime_initialized s, kv_memory s)"

lemma emit_event_views [kv_views]:
  "kv_frame (emit_event env ph op key n b w x i s) = kv_frame s"
  "kv_world (emit_event env ph op key n b w x i s) = kv_world s"
  "kv_results (emit_event env ph op key n b w x i s) = kv_results s"
  "kv_in_flight (emit_event env ph op key n b w x i s) = kv_in_flight s"
  "kv_dma (emit_event env ph op key n b w x i s) = kv_dma s"
  by (simp_all add: emit_event_def kv_frame_def Let_def)

lemma frame_updates [kv_views]:
  "kv_frame (s\<lparr>kv_world := d\<rparr>) = kv_frame s" "kv_frame (s\<lparr>kv_dma := m\<rparr>) = kv_frame s"
  "kv_frame (s\<lparr>kv_results := rs\<rparr>) = kv_frame s" "kv_frame (s\<lparr>kv_in_flight := cs\<rparr>) = kv_frame s"
  "kv_frame (kv_outside f s) = kv_frame s" "kv_world (kv_outside f s) = f (kv_world s)"
  "kv_in_flight (kv_outside f s) = kv_in_flight s" "kv_results (kv_outside f s) = kv_results s"
  by (simp_all add: kv_frame_def kv_outside_def)

lemma frame_memory: "kv_frame s' = kv_frame s \<Longrightarrow> kv_memory s' = kv_memory s"
  by (simp add: kv_frame_def)

lemma kv_clock_views [kv_views]:
  "snd (kv_clock env s) = s\<lparr>kv_world := snd (ke_now env (kv_world s))\<rparr>"
  "fst (kv_clock env s) = fst (ke_now env (kv_world s))"
  by (simp_all add: kv_clock_def case_prod_unfold)

lemma deliver_completion_views [kv_views]:
  "kv_frame (deliver_completion x s) = kv_frame s" "kv_world (deliver_completion x s) = kv_world s"
  by (simp_all add: deliver_completion_def kv_complete_def kv_frame_def case_prod_unfold Let_def)

lemma deliver_completions_views [kv_views]:
  "kv_frame (fold deliver_completion xs s) = kv_frame s" "kv_world (fold deliver_completion xs s) = kv_world s"
  by (induction xs arbitrary: s) (simp_all add: kv_views)

lemma process_completions_views [kv_views]:
  "kv_frame (snd (process_completions env q s)) = kv_frame s"
  "kv_world (snd (process_completions env q s)) = snd (snd (ke_poll env q
     (map (\<lambda>c. (c, mem_read (kv_dma s (kc_buffer c)) 0 (kc_length c))) (kv_in_flight s)) (kv_world s)))"
  by (simp_all add: process_completions_def case_prod_unfold kv_views)

section \<open>The loop\<close>

text \<open>
  A property of states that polling and reading the clock keep holds when the loop is left, which
  happens with the result of the command, a polling error or the timeout.
\<close>

definition wait_error :: "string \<Rightarrow> exn \<Rightarrow> bool" where
  "wait_error operation e \<longleftrightarrow>
     e = Runtime_error (''NVMe-KV '' @ operation @ '' completion polling failed'') \<or>
     e = Runtime_error (''NVMe-KV '' @ operation @ '' timed out'')"

lemma wait_loop_inv:
  assumes w: "wait_loop env q r operation deadline s = Some (res, s')" and "P s"
    and poll: "\<And>x. P x \<Longrightarrow> \<not> cr_done (kv_results x ! r) \<Longrightarrow> P (snd (process_completions env q x))"
    and clock: "\<And>x. P x \<Longrightarrow> P (x\<lparr>kv_world := snd (ke_now env (kv_world x))\<rparr>)"
  shows "P s' \<and> (case res of Inr _ \<Rightarrow> cr_done (kv_results s' ! r) | Inl e \<Rightarrow> wait_error operation e)"
proof -
  define Q where "Q = (\<lambda>env' q' r' s (res :: unit result, s'). env' = env \<longrightarrow> q' = q \<longrightarrow> r' = r \<longrightarrow> P s \<longrightarrow>
    P s' \<and> (case res of Inr _ \<Rightarrow> cr_done (kv_results s' ! r) | Inl e \<Rightarrow> wait_error operation e))"
  have "Q env q r s (res, s')"
  proof (rule wait_loop.raw_induct [where P = "\<lambda>env' q' r' operation' deadline s y.
      operation' = operation \<longrightarrow> Q env' q' r' s y", OF _ w, THEN mp])
    fix rec :: "'a kv_env \<Rightarrow> qpair \<Rightarrow> nat \<Rightarrow> string \<Rightarrow> nat \<Rightarrow> 'a kv_state \<Rightarrow> (unit result \<times> 'a kv_state) option"
      and env' q' r' operation' deadline s y
    assume IH: "\<And>env' q' r' operation' deadline s y. rec env' q' r' operation' deadline s = Some y \<Longrightarrow>
        operation' = operation \<longrightarrow> Q env' q' r' s y"
      and eq: "(if cr_done (kv_results s ! r') then Some (Inr (), s)
        else (case process_completions env' q' s of (rc, s1) \<Rightarrow>
          if rc < 0 then Some (Inl (Runtime_error (''NVMe-KV '' @ operation' @ '' completion polling failed'')), s1)
          else (case kv_clock env' s1 of (t, s2) \<Rightarrow>
            if deadline \<le> t then Some (Inl (Runtime_error (''NVMe-KV '' @ operation' @ '' timed out'')), s2)
            else rec env' q' r' operation' deadline s2))) = Some y"
    obtain rc s1 where p: "process_completions env' q' s = (rc, s1)" by fastforce
    obtain t s2 where c: "kv_clock env' s1 = (t, s2)" by fastforce
    have P1: "P s1" if "env' = env" "q' = q" "r' = r" "P s" "\<not> cr_done (kv_results s ! r)"
      using poll [of s] that p by simp
    have P2: "P s2" if "P s1" "env' = env"
      using clock [OF that(1)] kv_clock_views(1) [of env s1] that(2) c by simp
    show "operation' = operation \<longrightarrow> Q env' q' r' s y"
    proof (cases "cr_done (kv_results s ! r') \<or> rc < 0 \<or> deadline \<le> t")
      case True
      then show ?thesis using eq P1 P2
        by (auto simp: p c Q_def wait_error_def split: if_splits)
    next
      case False
      then have "rec env' q' r' operation' deadline s2 = Some y" using eq by (simp add: p c)
      from IH [OF this] show ?thesis using P1 P2 False by (auto simp: Q_def)
    qed
  qed simp
  then show ?thesis using \<open>P s\<close> by (simp add: Q_def)
qed

lemma wait_loop_returns:
  assumes clock: "kv_clock_ok env ck"
  shows "wait_loop env q r operation deadline s \<noteq> None"
proof (induction "deadline - ck (kv_world s)" arbitrary: s rule: less_induct)
  case less
  obtain rc s1 where p: "process_completions env q s = (rc, s1)" by fastforce
  obtain t s2 where c: "kv_clock env s1 = (t, s2)" by fastforce
  have "ck (kv_world s) \<le> ck (kv_world s1)"
    using process_completions_views(2) [of env q s] clock by (simp add: p kv_clock_ok_def)
  moreover have t: "t = ck (kv_world s1)" "ck (kv_world s1) < ck (kv_world s2)"
    using kv_clock_views [of env s1] clock by (simp_all add: c kv_clock_ok_def)
  ultimately have "deadline - ck (kv_world s2) < deadline - ck (kv_world s)" if "\<not> deadline \<le> t"
    using that by linarith
  from less [OF this] show ?case
    by (subst wait_loop.simps) (simp add: p c)
qed


lemma wait_for_completion_inv:
  assumes w: "wait_for_completion env conn r operation require_success s = Some (res, s')" and "P s"
    and poll: "\<And>x. P x \<Longrightarrow> \<not> cr_done (kv_results x ! r) \<Longrightarrow>
      P (snd (process_completions env (the (cn_qpair conn)) x))"
    and clock: "\<And>x. P x \<Longrightarrow> P (x\<lparr>kv_world := snd (ke_now env (kv_world x))\<rparr>)"
  shows "P s' \<and> (case res of
      Inr _ \<Rightarrow> cr_done (kv_results s' ! r) \<and> (require_success \<longrightarrow> cr_success (kv_results s' ! r))
    | Inl e \<Rightarrow> wait_error operation e \<or> require_success \<and> cr_done (kv_results s' ! r) \<and>
        \<not> cr_success (kv_results s' ! r) \<and> e = Runtime_error (''NVMe-KV '' @ operation @ '' failed''))"
proof -
  obtain t s1 where c: "kv_clock env s = (t, s1)" by fastforce
  then have "P s1" using clock [OF \<open>P s\<close>] kv_clock_views(1) [of env s] by simp
  note inv = wait_loop_inv [where P = P, OF _ this poll clock]
  obtain res1 s2 where l: "wait_loop env (the (cn_qpair conn)) r operation (t + command_timeout) s1 = Some (res1, s2)"
    using w by (auto simp: wait_for_completion_def c split: option.splits)
  show ?thesis using w inv [OF l]
    by (auto simp: wait_for_completion_def c l split: sum.splits if_splits)
qed

lemma wait_for_completion_returns:
  assumes "kv_clock_ok env ck"
  shows "\<exists>res s'. wait_for_completion env conn r operation require_success s = Some (res, s')"
proof -
  obtain t s1 where c: "kv_clock env s = (t, s1)" by fastforce
  obtain res s2 where "wait_loop env (the (cn_qpair conn)) r operation (t + command_timeout) s1 = Some (res, s2)"
    using wait_loop_returns [OF assms] by fast
  then show ?thesis by (cases res) (simp_all add: wait_for_completion_def c)
qed

section \<open>One command, from its submission to the end of the wait\<close>

text \<open>
  The command is under way, or it was completed once, with the effect of its opcode on the device and
  the bytes read in its buffer.
\<close>

definition command_state ::
  "bool \<Rightarrow> ('d \<Rightarrow> kv_key \<rightharpoonup> bytes) \<Rightarrow> kv_command \<Rightarrow> 'd kv_state \<Rightarrow> 'd kv_state \<Rightarrow> bool" where
  "command_state exact dev c s s' \<longleftrightarrow>
     kv_frame s' = kv_frame s \<and> kc_result c < length (kv_results s') \<and>
     (kv_in_flight s' = [c] \<and> \<not> cr_done (kv_results s' ! kc_result c) \<and>
        dev (kv_world s') = dev (kv_world s) \<and> kv_dma s' = kv_dma s \<or>
      kv_in_flight s' = [] \<and> cr_done (kv_results s' ! kc_result c) \<and>
        (\<exists>read. device_effect exact c (mem_read (kv_dma s (kc_buffer c)) 0 (kc_length c))
             (cr_success (kv_results s' ! kc_result c)) read (dev (kv_world s)) (dev (kv_world s')) \<and>
           kv_dma s' = (if kc_opcode c = Kv_retrieve
             then (kv_dma s)(kc_buffer c := mem_write (kv_dma s (kc_buffer c)) 0 read) else kv_dma s)))"

lemma kv_device_ok_poll:
  assumes ok: "kv_device_ok env dev"
  shows "case ke_poll env (kc_qpair c) [(c, content)] d of
     (rc, completed, d') \<Rightarrow> completed = [] \<and> dev d' = dev d \<or>
       0 \<le> rc \<and> (\<exists>ok read. completed = [(0, ok, read)] \<and>
         device_effect (kv_exists_exact env dev) c content ok read (dev d) (dev d'))"
proof -
  obtain rc completed d' where p: "ke_poll env (kc_qpair c) [(c, content)] d = (rc, completed, d')"
    using prod_cases3 by blast
  have weak: "completed = [] \<and> dev d' = dev d \<or>
      0 \<le> rc \<and> (\<exists>ok read. completed = [(0, ok, read)] \<and> device_effect False c content ok read (dev d) (dev d'))"
    using ok [unfolded kv_device_ok_def, THEN conjunct2, THEN conjunct2, THEN conjunct2, THEN conjunct2,
        THEN spec [of _ c], THEN spec [of _ content], THEN spec [of _ d]] by (simp add: p)
  have "device_effect (kv_exists_exact env dev) c content ok read (dev d) (dev d')"
    if "completed = [(0, ok, read)]" "device_effect False c content ok read (dev d) (dev d')" for ok read
  proof (cases "kv_exists_exact env dev")
    case True
    then have "kc_opcode c = Kv_exist \<Longrightarrow> dev d (kc_key c) \<noteq> None \<Longrightarrow> ok"
      using p that(1) unfolding kv_exists_exact_def by blast
    then show ?thesis using that(2) by (cases "kc_opcode c") (simp_all add: device_effect_def)
  qed (use that in simp)
  then show ?thesis using weak unfolding p by blast
qed

lemma command_state_poll:
  assumes ok: "kv_device_ok env dev" and inv: "command_state (kv_exists_exact env dev) dev c s x"
    and "\<not> cr_done (kv_results x ! kc_result c)"
  shows "command_state (kv_exists_exact env dev) dev c s (snd (process_completions env (kc_qpair c) x))"
proof -
  have x: "kv_in_flight x = [c]" "dev (kv_world x) = dev (kv_world s)" "kv_dma x = kv_dma s"
    "kv_frame x = kv_frame s" "kc_result c < length (kv_results x)"
    using inv assms(3) by (auto simp: command_state_def)
  define content where "content = mem_read (kv_dma s (kc_buffer c)) 0 (kc_length c)"
  obtain rc completed d where p: "ke_poll env (kc_qpair c) [(c, content)] (kv_world x) = (rc, completed, d)"
    using prod_cases3 by blast
  have "completed = [] \<and> dev d = dev (kv_world x) \<or>
      0 \<le> rc \<and> (\<exists>ok read. completed = [(0, ok, read)] \<and> device_effect (kv_exists_exact env dev) c content ok read (dev (kv_world x)) (dev d))"
    using kv_device_ok_poll [OF ok, where c = c and content = content and d = "kv_world x"] by (simp add: p)
  moreover have poll: "snd (process_completions env (kc_qpair c) x) =
      fold deliver_completion completed (x\<lparr>kv_world := d\<rparr>)"
    using p x(1) by (simp add: process_completions_def content_def x(3))
  moreover have "command_state (kv_exists_exact env dev) dev c s (x\<lparr>kv_world := d\<rparr>)" if "dev d = dev (kv_world x)"
    using inv that by (simp add: command_state_def frame_updates)
  moreover have "command_state (kv_exists_exact env dev) dev c s (deliver_completion (0, ok, read) (x\<lparr>kv_world := d\<rparr>))"
    if e: "device_effect (kv_exists_exact env dev) c content ok read (dev (kv_world x)) (dev d)" for ok read
  proof -
    define x' where "x' = deliver_completion (0, ok, read) (x\<lparr>kv_world := d\<rparr>)"
    have "kv_results x' = (kv_results x)[kc_result c := \<lparr>cr_done = True, cr_success = ok\<rparr>]"
      "kv_in_flight x' = []" "kv_world x' = d" "kv_frame x' = kv_frame s"
      "kv_dma x' = (if kc_opcode c = Kv_retrieve
         then (kv_dma s)(kc_buffer c := mem_write (kv_dma s (kc_buffer c)) 0 read) else kv_dma s)"
      using x(1,3,4) by (simp_all add: x'_def deliver_completion_def kv_complete_def kv_frame_def Let_def)
    then have "command_state (kv_exists_exact env dev) dev c s x'"
      using x(2,5) e unfolding command_state_def content_def by (simp split del: if_split) blast
    then show ?thesis by (simp add: x'_def)
  qed
  ultimately show ?thesis by auto
qed

lemma command_state_clock:
  "kv_device_ok env dev \<Longrightarrow> command_state (kv_exists_exact env dev) dev c s x \<Longrightarrow>
   command_state (kv_exists_exact env dev) dev c s (x\<lparr>kv_world := snd (ke_now env (kv_world x))\<rparr>)"
  by (auto simp: command_state_def kv_device_ok_def kv_frame_def)

text \<open>A command that was not accepted leaves nothing under way; one that was starts the wait.\<close>

lemma submit_command_views:
  assumes "submit_command env conn opcode key buf len s = (rc, r, s1)" and "kv_device_ok env dev"
  shows "kv_frame s1 = kv_frame s" "kv_dma s1 = kv_dma s" "dev (kv_world s1) = dev (kv_world s)"
    "rc \<noteq> 0 \<Longrightarrow> kv_in_flight s1 = kv_in_flight s"
  using assms by (auto simp: submit_command_def kv_device_ok_def kv_frame_def case_prod_unfold Let_def)

lemma command_round:
  assumes ok: "kv_device_ok env dev" and idle: "kv_in_flight s = []"
    and sub: "submit_command env conn opcode key buf len s = (0, r, s1)"
    and w: "wait_for_completion env conn r operation require_success s1 = Some (res, s2)"
  defines "c \<equiv> \<lparr>kc_opcode = opcode, kc_qpair = the (cn_qpair conn), kc_key = key, kc_buffer = buf,
                 kc_length = len, kc_result = r\<rparr>"
  shows "command_state (kv_exists_exact env dev) dev c s s2 \<and> (case res of
      Inr _ \<Rightarrow> cr_done (kv_results s2 ! r) \<and> (require_success \<longrightarrow> cr_success (kv_results s2 ! r))
    | Inl e \<Rightarrow> wait_error operation e \<or> require_success \<and> cr_done (kv_results s2 ! r) \<and>
        \<not> cr_success (kv_results s2 ! r) \<and> e = Runtime_error (''NVMe-KV '' @ operation @ '' failed''))"
proof -
  have start: "command_state (kv_exists_exact env dev) dev c s s1"
    using sub submit_command_views [OF sub ok] idle
    by (auto simp: command_state_def submit_command_def c_def case_prod_unfold Let_def)
  have r: "kc_result c = r" "kc_qpair c = the (cn_qpair conn)" by (simp_all add: c_def)
  show ?thesis
    by (rule wait_for_completion_inv [where P = "command_state (kv_exists_exact env dev) dev c s", OF w start])
      (use command_state_poll [OF ok, of c s] command_state_clock [OF ok, of c s] r in auto)
qed

end
