(* ===== verification/Object_Store.thy ===== *)
theory Object_Store
  imports Spdk_Prelude
begin

text \<open>
  The contract both connectors offer to \<open>ConnectorBase\<close>, which calls one operation after the other for
  the items of its requests: as long as the operations succeed, they answer what a simple store of
  objects answers.
\<close>

text \<open>The four operations on one key; a buffer is a \<open>'b\<close>. A unit answer is \<open>True\<close>.\<close>

datatype 'b object_request =
    Rq_get string 'b u64
  | Rq_set string 'b u64
  | Rq_exists string
  | Rq_delete string

definition unit_answer :: "(unit result \<times> 's) option \<Rightarrow> (bool result \<times> 's) option" where
  "unit_answer = map_option (map_prod (map_sum id (\<lambda>_. True)) id)"

lemma unit_answer_Inr: "unit_answer x = Some (Inr a, s) \<longleftrightarrow> x = Some (Inr (), s) \<and> a"
proof (cases x)
  case (Some y)
  show ?thesis
  proof (cases y)
    case (Pair r s1)
    show ?thesis by (cases r) (auto simp: unit_answer_def Some Pair)
  qed
qed (simp add: unit_answer_def)

text \<open>A sequence of requests that all succeed.\<close>

fun serve :: "('rq \<Rightarrow> 's \<Rightarrow> ('a result \<times> 's) option) \<Rightarrow> 'rq list \<Rightarrow> 's \<Rightarrow> ('a list \<times> 's) option" where
  "serve call [] s = Some ([], s)"
| "serve call (rq # rqs) s =
     (case call rq s of
        Some (Inr a, s1) \<Rightarrow> map_option (map_prod (Cons a) id) (serve call rqs s1)
      | _ \<Rightarrow> None)"

text \<open>
  The specification of an operation is a relation between the view before, the answer and the view
  after, because not every error of the device is visible to the client.
\<close>

inductive spec_run :: "('rq \<Rightarrow> 'm \<Rightarrow> 'a \<Rightarrow> 'm \<Rightarrow> bool) \<Rightarrow> 'rq list \<Rightarrow> 'm \<Rightarrow> 'a list \<Rightarrow> 'm \<Rightarrow> bool" for spec where
  spec_none: "spec_run spec [] m [] m"
| spec_more: "spec rq m a m1 \<Longrightarrow> spec_run spec rqs m1 as m' \<Longrightarrow> spec_run spec (rq # rqs) m (a # as) m'"

inductive_cases spec_run_NilE: "spec_run spec [] m as m'"
inductive_cases spec_run_ConsE: "spec_run spec (rq # rqs) m as m'"

text \<open>Where the specification is a function, so is its run.\<close>

fun spec_results :: "('rq \<Rightarrow> 'm \<Rightarrow> ('a \<times> 'm) option) \<Rightarrow> 'rq list \<Rightarrow> 'm \<Rightarrow> ('a list \<times> 'm) option" where
  "spec_results spec [] m = Some ([], m)"
| "spec_results spec (rq # rqs) m =
     Option.bind (spec rq m) (\<lambda>(a, m1). map_option (map_prod (Cons a) id) (spec_results spec rqs m1))"

lemma spec_run_results:
  assumes "spec_run R rqs m as m'" and "\<And>rq m a m1. R rq m a m1 \<Longrightarrow> spec rq m = Some (a, m1)"
  shows "spec_results spec rqs m = Some (as, m')"
  using assms(1) by (induction rule: spec_run.induct) (simp_all add: assms(2))

lemma serve_ConsE:
  assumes "serve call (rq # rqs) s = Some (answers, s')"
  obtains a s1 as where "call rq s = Some (Inr a, s1)" "serve call rqs s1 = Some (as, s')" "answers = a # as"
  using assms by (auto split: option.splits sum.splits)

text \<open>What an operation promises on the view a client has of the state.\<close>

locale object_store =
  fixes call :: "'rq \<Rightarrow> 's \<Rightarrow> ('a result \<times> 's) option"
    and spec :: "'rq \<Rightarrow> 'm \<Rightarrow> 'a \<Rightarrow> 'm \<Rightarrow> bool"
    and view :: "'s \<Rightarrow> 'm"
    and inv :: "'s \<Rightarrow> bool"
  assumes success: "inv s \<Longrightarrow> call rq s = Some (Inr a, s') \<Longrightarrow> inv s' \<and> spec rq (view s) a (view s')"
begin

lemma served:
  "inv s \<Longrightarrow> serve call rqs s = Some (answers, s') \<Longrightarrow>
   inv s' \<and> spec_run spec rqs (view s) answers (view s')"
proof (induction rqs arbitrary: s answers)
  case (Cons rq rqs)
  obtain a s1 as where step: "call rq s = Some (Inr a, s1)" "serve call rqs s1 = Some (as, s')" "answers = a # as"
    using Cons.prems(2) by (rule serve_ConsE)
  have "inv s1" "spec rq (view s) a (view s1)"
    using success [OF Cons.prems(1) step(1)] by simp_all
  then show ?case using Cons.IH [OF _ step(2)] step(3) spec_more by metis
qed (simp add: spec_none)

end

end
