(* ===== verification/Kv_Operations.thy ===== *)
theory Kv_Operations
  imports Kv_Device Object_Store
begin

text \<open>
  The operations on one key against the device: the requests of a worker, what each promises on an
  abstract map from keys to values, and the lemmas that carry the properties of \<open>Kv_Properties\<close>.
\<close>

section \<open>Requests and their specification\<close>

type_synonym kv_request = "nat object_request"

fun kv_call :: "'d kv_env \<Rightarrow> kv_connection \<Rightarrow> kv_request \<Rightarrow> 'd kv_state \<Rightarrow> (bool result \<times> 'd kv_state) option" where
  "kv_call env conn (Rq_get key buf len) s = unit_answer (kv_do_single_get env conn key buf len s)"
| "kv_call env conn (Rq_set key buf len) s = unit_answer (kv_do_single_set env conn key buf len s)"
| "kv_call env conn (Rq_exists key) s = kv_do_single_exists env conn key s"
| "kv_call env conn (Rq_delete key) s = kv_do_single_delete env conn key s"

text \<open>
  The answer of a request, the caller's memory and the map after it. A read copies as many bytes as
  the caller asks for: a longer value is cut, a shorter one is followed by zeros.
\<close>

fun kv_spec ::
  "(string \<Rightarrow> kv_key) \<Rightarrow> kv_request \<Rightarrow> (nat \<Rightarrow> u8) \<times> (kv_key \<rightharpoonup> bytes) \<Rightarrow>
     (bool \<times> (nat \<Rightarrow> u8) \<times> (kv_key \<rightharpoonup> bytes)) option" where
  "kv_spec h (Rq_get key buf len) (mem, m) =
     (case m (h key) of None \<Rightarrow> None
      | Some v \<Rightarrow> Some (True, mem_write mem buf (take (unat len) (v @ replicate (unat len) 0)), m))"
| "kv_spec h (Rq_set key buf len) (mem, m) = Some (True, mem, m(h key \<mapsto> mem_read mem buf (unat len)))"
| "kv_spec h (Rq_exists key) (mem, m) = Some (m (h key) \<noteq> None, mem, m)"
| "kv_spec h (Rq_delete key) (mem, m) = Some (m (h key) \<noteq> None, mem, m(h key := None))"

text \<open>
  What an operation that succeeds may answer: what the map answers. But the code takes every error
  status of \<open>EXIST\<close> for an absent key, so on a device that may fail an \<open>EXIST\<close> of a key it has, an
  existence check or a delete may also answer \<open>False\<close> and leave everything as it is.
\<close>

definition kv_answers ::
  "bool \<Rightarrow> (string \<Rightarrow> kv_key) \<Rightarrow> kv_request \<Rightarrow> (nat \<Rightarrow> u8) \<times> (kv_key \<rightharpoonup> bytes) \<Rightarrow> bool \<Rightarrow>
     (nat \<Rightarrow> u8) \<times> (kv_key \<rightharpoonup> bytes) \<Rightarrow> bool" where
  "kv_answers exact h rq x b y \<longleftrightarrow> kv_spec h rq x = Some (b, y) \<or>
     \<not> exact \<and> (\<exists>key. rq = Rq_exists key \<or> rq = Rq_delete key) \<and> \<not> b \<and> y = x"

lemma kv_answers_exact [simp]:
  "kv_answers True h rq x b y \<longleftrightarrow> kv_spec h rq x = Some (b, y)"
  "kv_answers ex h (Rq_get key buf len) x b y \<longleftrightarrow> kv_spec h (Rq_get key buf len) x = Some (b, y)"
  "kv_answers ex h (Rq_set key buf len) x b y \<longleftrightarrow> kv_spec h (Rq_set key buf len) x = Some (b, y)"
  "kv_answers ex h rq x True y \<longleftrightarrow> kv_spec h rq x = Some (True, y)"
  by (simp_all add: kv_answers_def)

text \<open>
  What an operation that throws leaves behind. A command that was rejected or that failed changed
  nothing. A wait that was given up leaves the command under way, or it was completed by the last poll.
\<close>

definition kv_failure ::
  "('d \<Rightarrow> kv_key \<rightharpoonup> bytes) \<Rightarrow> (string \<Rightarrow> kv_key) \<Rightarrow> kv_request \<Rightarrow> exn \<Rightarrow> 'd kv_state \<Rightarrow> 'd kv_state \<Rightarrow> bool" where
  "kv_failure dev h rq e s s' \<longleftrightarrow> kv_memory s' = kv_memory s \<and>
     (kv_in_flight s' = [] \<and> dev (kv_world s') = dev (kv_world s) \<or>
      (\<exists>operation. wait_error operation e) \<and>
        ((\<exists>c. kv_in_flight s' = [c] \<and> \<not> cr_done (kv_results s' ! kc_result c)) \<and>
           dev (kv_world s') = dev (kv_world s) \<or>
         kv_in_flight s' = [] \<and>
           map_option (snd \<circ> snd) (kv_spec h rq (kv_memory s, dev (kv_world s))) = Some (dev (kv_world s'))))"

definition kv_outcome ::
  "bool \<Rightarrow> ('d \<Rightarrow> kv_key \<rightharpoonup> bytes) \<Rightarrow> (string \<Rightarrow> kv_key) \<Rightarrow> kv_request \<Rightarrow> 'd kv_state \<Rightarrow> bool result \<times> 'd kv_state \<Rightarrow> bool" where
  "kv_outcome exact dev h rq s out \<longleftrightarrow>
     (case out of
        (Inr b, s') \<Rightarrow> kv_in_flight s' = [] \<and>
          kv_answers exact h rq (kv_memory s, dev (kv_world s)) b (kv_memory s', dev (kv_world s'))
      | (Inl e, s') \<Rightarrow> kv_failure dev h rq e s s')"

lemma kv_outcome_success:
  "kv_outcome exact dev h rq s (Inr b, s') \<Longrightarrow>
   kv_answers exact h rq (kv_memory s, dev (kv_world s)) b (kv_memory s', dev (kv_world s'))"
  "kv_outcome exact dev h rq s (Inr b, s') \<Longrightarrow> kv_in_flight s' = []"
  by (simp_all add: kv_outcome_def)

section \<open>Buffers\<close>

text \<open>A buffer of \<open>len\<close> zeros that received what the device read.\<close>

lemma read_zeroed: "mem_read (mem_write (\<lambda>_. 0) 0 (take n v)) 0 n = take n (v @ replicate n 0)"
  by (auto simp: mem_read_eq_iff mem_write_def nth_append)

lemma with_dma_buffer_cases:
  assumes "with_dma_buffer env len body s = Some (res, s')"
  obtains (none) d where "ke_zmalloc env len 4096 (kv_world s) = (None, d)"
      "res = Inl (Runtime_error ''SPDK DMA allocation failed'')" "s' = s\<lparr>kv_world := d\<rparr>"
    | (some) b d s1 where "ke_zmalloc env len 4096 (kv_world s) = (Some b, d)"
      "body b (s\<lparr>kv_world := d, kv_dma := (kv_dma s)(b := \<lambda>_. 0)\<rparr>) = Some (res, s1)"
      "s' = kv_outside (ke_dma_free env b) s1"
  using assms by (auto simp: with_dma_buffer_def split: prod.splits option.splits)

section \<open>Each operation\<close>

lemma command_state_idle:
  "command_state exact dev c s s' \<Longrightarrow> cr_done (kv_results s' ! kc_result c) \<Longrightarrow> kv_in_flight s' = []"
  by (auto simp: command_state_def)

lemma command_state_memory: "command_state exact dev c s s' \<Longrightarrow> kv_memory s' = kv_memory s"
  by (auto simp: command_state_def dest: frame_memory)

lemma command_state_effect:
  assumes "command_state exact dev c s s'" "cr_done (kv_results s' ! kc_result c)"
  obtains read where "device_effect exact c (mem_read (kv_dma s (kc_buffer c)) 0 (kc_length c))
      (cr_success (kv_results s' ! kc_result c)) read (dev (kv_world s)) (dev (kv_world s'))"
    "kc_opcode c = Kv_retrieve \<Longrightarrow> kv_dma s' (kc_buffer c) = mem_write (kv_dma s (kc_buffer c)) 0 read"
  using assms by (auto simp: command_state_def)


lemma device_effect_failed: "device_effect exact c content False read m m' \<Longrightarrow> m' = m"
  by (simp add: device_effect_def split: kv_opcode.splits)

text \<open>The states that differ in what no request is about.\<close>

definition kv_same :: "('d \<Rightarrow> kv_key \<rightharpoonup> bytes) \<Rightarrow> 'd kv_state \<Rightarrow> 'd kv_state \<Rightarrow> bool" where
  "kv_same dev s s' \<longleftrightarrow> kv_memory s' = kv_memory s \<and> dev (kv_world s') = dev (kv_world s) \<and>
     kv_in_flight s' = kv_in_flight s \<and> kv_results s' = kv_results s \<and>
     kv_max_value_bytes s' = kv_max_value_bytes s"

lemma kv_same_refl [simp]: "kv_same dev s s"
  by (simp add: kv_same_def)

lemma emit_event_same [simp]: "kv_same dev s (emit_event env ph op key n b w x i s)"
  by (simp add: kv_same_def emit_event_def Let_def)

lemma emit_event_memory [simp]: "kv_memory (emit_event env ph op key n b w x i s) = kv_memory s"
  by (simp add: emit_event_def Let_def)

lemma free_same: "kv_device_ok env dev \<Longrightarrow> kv_same dev s (kv_outside (ke_dma_free env b) s)"
  by (simp add: kv_same_def kv_device_ok_def kv_outside_def)

lemma kv_same_trans: "kv_same dev s s' \<Longrightarrow> kv_same dev s' s'' \<Longrightarrow> kv_same dev s s''"
  by (simp add: kv_same_def)

lemma kv_failure_same: "kv_failure dev h rq e s s1 \<Longrightarrow> kv_same dev s1 s' \<Longrightarrow> kv_failure dev h rq e s s'"
  by (simp add: kv_failure_def kv_same_def)

lemma kv_failure_nothing:
  "kv_memory s' = kv_memory s \<Longrightarrow> kv_in_flight s' = [] \<Longrightarrow> dev (kv_world s') = dev (kv_world s) \<Longrightarrow>
   kv_failure dev h rq e s s'"
  by (simp add: kv_failure_def)

lemma round_failure:
  assumes cs: "command_state exact dev c s1 s2"
    and s1: "kv_memory s1 = kv_memory s" "dev (kv_world s1) = dev (kv_world s)"
    and err: "wait_error operation e \<or> q \<and> cr_done (kv_results s2 ! kc_result c) \<and>
      \<not> cr_success (kv_results s2 ! kc_result c) \<and> e = e'"
    and effect: "\<And>ok read m'. device_effect exact c (mem_read (kv_dma s1 (kc_buffer c)) 0 (kc_length c)) ok read
        (dev (kv_world s)) m' \<Longrightarrow> m' = dev (kv_world s) \<or>
        map_option (snd \<circ> snd) (kv_spec h rq (kv_memory s, dev (kv_world s))) = Some m'"
  shows "kv_failure dev h rq e s s2"
proof (cases "cr_done (kv_results s2 ! kc_result c)")
  case False
  then show ?thesis using cs err s1
    by (auto simp: command_state_def kv_failure_def dest: frame_memory)
next
  case True
  obtain read where read: "device_effect exact c (mem_read (kv_dma s1 (kc_buffer c)) 0 (kc_length c))
      (cr_success (kv_results s2 ! kc_result c)) read (dev (kv_world s1)) (dev (kv_world s2))"
    using command_state_effect [OF cs True] by blast
  have idle: "kv_in_flight s2 = []" "kv_memory s2 = kv_memory s"
    using command_state_idle [OF cs True] command_state_memory [OF cs] s1 by simp_all
  show ?thesis
  proof (cases "wait_error operation e")
    case we: True
    then show ?thesis using effect [OF read [unfolded s1(2)]] idle by (auto simp: kv_failure_def)
  next
    case False
    then have "dev (kv_world s2) = dev (kv_world s)"
      using err read device_effect_failed s1(2) by metis
    then show ?thesis using idle by (simp add: kv_failure_nothing)
  qed
qed

lemma submitted:
  assumes "submit_command env conn opcode key buf len s = (rc, r, s1)"
  shows "kv_results s1 = kv_results s @ [\<lparr>cr_done = False, cr_success = False\<rparr>]" "r = length (kv_results s)"
  using assms by (auto simp: submit_command_def case_prod_unfold Let_def)

text \<open>What \<open>kv_do_single_get\<close> and \<open>kv_do_single_set\<close> do with their staging buffer.\<close>

definition staged ::
  "'d kv_env \<Rightarrow> kv_connection \<Rightarrow> kv_opcode \<Rightarrow> string \<Rightarrow> string \<Rightarrow> u64 \<Rightarrow>
     (dma_ptr \<Rightarrow> 'd kv_state \<Rightarrow> 'd kv_state) \<Rightarrow> (dma_ptr \<Rightarrow> 'd kv_state \<Rightarrow> 'd kv_state) \<Rightarrow> 'd kv_state \<Rightarrow>
     (unit result \<times> 'd kv_state) option" where
  "staged env conn opcode operation key len prepare finish =
     with_dma_buffer env len (\<lambda>b s1.
       case submit_command env conn opcode (derive_key env key) b (unat len)
              (emit_event env ''io_begin'' operation key len True (cn_worker_id conn) [] 0 (prepare b s1)) of
         (rc, r, s4) \<Rightarrow>
           if rc \<noteq> 0
           then Some (Inl (Runtime_error (''NVMe-KV '' @ operation @ '' submission failed'')),
             emit_event env ''io_end'' operation key len False (cn_worker_id conn) ''submit_failed'' 0 s4)
           else
             (case wait_for_completion env conn r operation True s4 of
                None \<Rightarrow> None
              | Some (Inl e, s5) \<Rightarrow> Some (Inl e, s5)
              | Some (Inr _, s5) \<Rightarrow>
                  Some (Inr (), emit_event env ''io_end'' operation key len True (cn_worker_id conn) ''ok'' 0
                    (finish b s5))))"

definition copy_in :: "nat \<Rightarrow> u64 \<Rightarrow> dma_ptr \<Rightarrow> 'd kv_state \<Rightarrow> 'd kv_state" where
  "copy_in buf len b s = s\<lparr>kv_dma := (kv_dma s)(b := mem_write (kv_dma s b) 0 (mem_read (kv_memory s) buf (unat len)))\<rparr>"

definition copy_out :: "nat \<Rightarrow> u64 \<Rightarrow> dma_ptr \<Rightarrow> 'd kv_state \<Rightarrow> 'd kv_state" where
  "copy_out buf len b s = s\<lparr>kv_memory := mem_write (kv_memory s) buf (mem_read (kv_dma s b) 0 (unat len))\<rparr>"

lemma kv_do_single_get_staged:
  "kv_do_single_get env conn key buf len s =
     (case ensure_value_size len s of Inl e \<Rightarrow> Some (Inl e, s)
      | Inr _ \<Rightarrow> staged env conn Kv_retrieve ''retrieve'' key len (\<lambda>_ s. s) (copy_out buf len) s)"
  by (cases "ensure_value_size len s") (simp_all add: kv_do_single_get_def staged_def copy_out_def Let_def
      cong del: if_weak_cong option.case_cong_weak sum.case_cong_weak)

lemma kv_do_single_set_staged:
  "kv_do_single_set env conn key buf len s =
     (case ensure_value_size len s of Inl e \<Rightarrow> Some (Inl e, s)
      | Inr _ \<Rightarrow> staged env conn Kv_store ''store'' key len (copy_in buf len) (\<lambda>_ s. s) s)"
  by (cases "ensure_value_size len s") (simp_all add: kv_do_single_set_def staged_def copy_in_def Let_def
      cong del: if_weak_cong option.case_cong_weak sum.case_cong_weak)

lemma staged_cases:
  assumes run: "staged env conn opcode operation key len prepare finish s = Some (res, s')"
    and ok: "kv_device_ok env dev" and idle: "kv_in_flight s = []"
    and prepare: "\<And>b x. kv_same dev x (prepare b x)"
  obtains (early) e where "res = Inl e" "kv_memory s' = kv_memory s" "kv_in_flight s' = []"
      "dev (kv_world s') = dev (kv_world s)"
    | (waited) b c s0 s3 s5 where "kc_opcode c = opcode" "kc_key c = derive_key env key" "kc_buffer c = b"
      "kc_length c = unat len" "kv_memory s0 = kv_memory s" "kv_dma s0 b = (\<lambda>_. 0)"
      "kv_same dev s s3" "kv_dma s3 = kv_dma (prepare b s0)" "command_state (kv_exists_exact env dev) dev c s3 s5"
      "case res of
         Inr _ \<Rightarrow> cr_done (kv_results s5 ! kc_result c) \<and> cr_success (kv_results s5 ! kc_result c)
       | Inl e \<Rightarrow> wait_error operation e \<or> True \<and> cr_done (kv_results s5 ! kc_result c) \<and>
           \<not> cr_success (kv_results s5 ! kc_result c) \<and> e = Runtime_error (''NVMe-KV '' @ operation @ '' failed'')"
      "kv_same dev (case res of Inr _ \<Rightarrow> finish b s5 | Inl _ \<Rightarrow> s5) s'"
proof -
  have zdev: "dev (snd (ke_zmalloc env len 4096 (kv_world s))) = dev (kv_world s)"
    using ok by (simp add: kv_device_ok_def)
  show thesis
    using run unfolding staged_def
  proof (rule with_dma_buffer_cases)
    fix d assume "ke_zmalloc env len 4096 (kv_world s) = (None, d)"
      "res = Inl (Runtime_error ''SPDK DMA allocation failed'')" "s' = s\<lparr>kv_world := d\<rparr>"
    then show thesis using zdev idle by (intro early) simp_all
  next
    fix b d s1
    define s0 where "s0 = s\<lparr>kv_world := d, kv_dma := (kv_dma s)(b := \<lambda>_. 0)\<rparr>"
    define s3 where "s3 = emit_event env ''io_begin'' operation key len True (cn_worker_id conn) [] 0 (prepare b s0)"
    obtain rc r s4 where sub: "submit_command env conn opcode (derive_key env key) b (unat len) s3 = (rc, r, s4)"
      using prod_cases3 by blast
    assume z: "ke_zmalloc env len 4096 (kv_world s) = (Some b, d)"
      and body: "(case submit_command env conn opcode (derive_key env key) b (unat len)
           (emit_event env ''io_begin'' operation key len True (cn_worker_id conn) [] 0
             (prepare b (s\<lparr>kv_world := d, kv_dma := (kv_dma s)(b := \<lambda>_. 0)\<rparr>))) of
         (rc, r, s4) \<Rightarrow>
           if rc \<noteq> 0
           then Some (Inl (Runtime_error (''NVMe-KV '' @ operation @ '' submission failed'')),
             emit_event env ''io_end'' operation key len False (cn_worker_id conn) ''submit_failed'' 0 s4)
           else
             (case wait_for_completion env conn r operation True s4 of
                None \<Rightarrow> None
              | Some (Inl e, s5) \<Rightarrow> Some (Inl e, s5)
              | Some (Inr _, s5) \<Rightarrow>
                  Some (Inr (), emit_event env ''io_end'' operation key len True (cn_worker_id conn) ''ok'' 0
                    (finish b s5)))) = Some (res, s1)"
      and s': "s' = kv_outside (ke_dma_free env b) s1"
    note body' = body [folded s0_def, folded s3_def, unfolded sub prod.case]
    have s0: "kv_same dev s s0" using zdev z by (simp add: kv_same_def s0_def)
    then have s3: "kv_same dev s s3"
      unfolding s3_def by (meson emit_event_same kv_same_trans prepare)
    then have s3_idle: "kv_in_flight s3 = []" using idle by (simp add: kv_same_def)
    have free: "kv_same dev s1 s'" unfolding s' by (rule free_same [OF ok])
    show thesis
    proof (cases "rc = 0")
      case False
      then have res: "res = Inl (Runtime_error (''NVMe-KV '' @ operation @ '' submission failed''))"
        and s1: "s1 = emit_event env ''io_end'' operation key len False (cn_worker_id conn) ''submit_failed'' 0 s4"
        using body' by auto
      have "kv_same dev s4 s'"
        by (rule kv_same_trans [OF _ free]) (simp add: s1)
      moreover have "kv_memory s4 = kv_memory s3"
        by (rule frame_memory [OF submit_command_views(1) [OF sub ok]])
      moreover have "dev (kv_world s4) = dev (kv_world s3)"
        by (rule submit_command_views(3) [OF sub ok])
      moreover have "kv_in_flight s4 = []"
        by (rule submit_command_views(4) [OF sub ok False, unfolded s3_idle])
      ultimately show thesis
        using s3 by (intro early [OF res]) (simp_all add: kv_same_def)
    next
      case True
      obtain res5 s5 where w: "wait_for_completion env conn r operation True s4 = Some (res5, s5)"
        using body' True by (auto split: option.splits)
      let ?c = "\<lparr>kc_opcode = opcode, kc_qpair = the (cn_qpair conn), kc_key = derive_key env key, kc_buffer = b,
        kc_length = unat len, kc_result = r\<rparr>"
      note round = command_round [OF ok s3_idle sub [unfolded True] w]
      have res5: "case res of Inr _ \<Rightarrow> \<exists>u. res5 = Inr u | Inl e \<Rightarrow> res5 = Inl e"
        using body' True w by (auto split: sum.splits)
      have "kv_same dev (case res of Inr _ \<Rightarrow> finish b s5 | Inl _ \<Rightarrow> s5) s1"
        using body' True w by (auto split: sum.splits)
      then have same: "kv_same dev (case res of Inr _ \<Rightarrow> finish b s5 | Inl _ \<Rightarrow> s5) s'"
        using free by (rule kv_same_trans)
      show thesis
      proof (rule waited [of ?c b s0 s3 s5])
        show "kv_dma s3 = kv_dma (prepare b s0)" by (simp add: s3_def kv_views)
        show "case res of
            Inr _ \<Rightarrow> cr_done (kv_results s5 ! kc_result ?c) \<and> cr_success (kv_results s5 ! kc_result ?c)
          | Inl e \<Rightarrow> wait_error operation e \<or> True \<and> cr_done (kv_results s5 ! kc_result ?c) \<and>
              \<not> cr_success (kv_results s5 ! kc_result ?c) \<and>
              e = Runtime_error (''NVMe-KV '' @ operation @ '' failed'')"
          using round res5 by (auto split: sum.splits)
      qed (use round s0 s3 same in \<open>simp_all add: s0_def kv_same_def\<close>)
    qed
  qed
qed

lemma kv_outcome_failure [intro]: "kv_failure dev h rq e s s' \<Longrightarrow> kv_outcome exact dev h rq s (Inl e, s')"
  by (simp add: kv_outcome_def)

lemma copy_in_same: "kv_same dev x (copy_in buf len b x)"
  by (simp add: kv_same_def copy_in_def)

lemma command_done:
  assumes cs: "command_state exact dev c s3 s5" and "kv_same dev s s3"
    and "cr_done (kv_results s5 ! kc_result c)"
  obtains read where "kv_in_flight s5 = []" "kv_memory s5 = kv_memory s"
    "device_effect exact c (mem_read (kv_dma s3 (kc_buffer c)) 0 (kc_length c))
       (cr_success (kv_results s5 ! kc_result c)) read (dev (kv_world s)) (dev (kv_world s5))"
    "kc_opcode c = Kv_retrieve \<Longrightarrow> kv_dma s5 (kc_buffer c) = mem_write (kv_dma s3 (kc_buffer c)) 0 read"
  using assms command_state_effect [OF cs assms(3)] command_state_idle [OF cs assms(3)] command_state_memory [OF cs]
  by (metis kv_same_def)

lemma set_outcome:
  assumes ok: "kv_device_ok env dev" and idle: "kv_in_flight s = []"
    and run: "kv_do_single_set env conn key buf len s = Some (res, s')"
  shows "kv_outcome (kv_exists_exact env dev) dev (derive_key env) (Rq_set key buf len) s (map_sum id (\<lambda>_. True) res, s')"
proof (cases "ensure_value_size len s")
  case (Inl e)
  then have "res = Inl e" "s' = s" using run by (simp_all add: kv_do_single_set_def)
  then show ?thesis using idle by (auto intro: kv_failure_nothing)
next
  case (Inr u)
  then have st: "staged env conn Kv_store ''store'' key len (copy_in buf len) (\<lambda>_ s. s) s = Some (res, s')"
    using run by (simp add: kv_do_single_set_staged)
  show ?thesis
    using st ok idle copy_in_same
  proof (cases rule: staged_cases)
    case (early e)
    then show ?thesis by (auto intro: kv_failure_nothing)
  next
    case (waited b c s0 s3 s5)
    have content: "mem_read (kv_dma s3 (kc_buffer c)) 0 (kc_length c) = mem_read (kv_memory s) buf (unat len)"
      using mem_read_write_same [of "\<lambda>_. 0" 0 "mem_read (kv_memory s) buf (unat len)"]
      by (simp add: copy_in_def waited(3-6) waited(8))
    note same = \<open>kv_same dev s s3\<close> [unfolded kv_same_def]
    show ?thesis
    proof (cases res)
      case (Inl e)
      have "kv_failure dev (derive_key env) (Rq_set key buf len) e s s5"
        by (rule round_failure [OF \<open>command_state (kv_exists_exact env dev) dev c s3 s5\<close>])
          (use waited(10) Inl same content in \<open>auto simp: device_effect_def waited(1,2)\<close>)
      then show ?thesis using waited(11) Inl by (auto intro: kv_failure_same)
    next
      case (Inr u)
      then have d: "cr_done (kv_results s5 ! kc_result c)" "cr_success (kv_results s5 ! kc_result c)"
        and s': "kv_same dev s5 s'" using waited(10,11) by simp_all
      obtain read where read: "kv_in_flight s5 = []" "kv_memory s5 = kv_memory s"
        "device_effect (kv_exists_exact env dev) c (mem_read (kv_dma s3 (kc_buffer c)) 0 (kc_length c))
           (cr_success (kv_results s5 ! kc_result c)) read (dev (kv_world s)) (dev (kv_world s5))"
        using command_done [OF waited(9,7) d(1)] by blast
      have "dev (kv_world s5) = (dev (kv_world s))(derive_key env key \<mapsto> mem_read (kv_memory s) buf (unat len))"
        using read(3) d(2) content by (simp add: device_effect_def waited(1,2))
      then show ?thesis using read(1,2) s' Inr by (simp add: kv_outcome_def kv_same_def)
    qed
  qed
qed

lemma get_outcome:
  assumes ok: "kv_device_ok env dev" and idle: "kv_in_flight s = []"
    and run: "kv_do_single_get env conn key buf len s = Some (res, s')"
  shows "kv_outcome (kv_exists_exact env dev) dev (derive_key env) (Rq_get key buf len) s (map_sum id (\<lambda>_. True) res, s')"
proof (cases "ensure_value_size len s")
  case (Inl e)
  then have "res = Inl e" "s' = s" using run by (simp_all add: kv_do_single_get_def)
  then show ?thesis using idle by (auto intro: kv_failure_nothing)
next
  case (Inr u)
  then have st: "staged env conn Kv_retrieve ''retrieve'' key len (\<lambda>_ s. s) (copy_out buf len) s = Some (res, s')"
    using run by (simp add: kv_do_single_get_staged)
  show ?thesis
    using st ok idle kv_same_refl
  proof (cases rule: staged_cases)
    case (early e)
    then show ?thesis by (auto intro: kv_failure_nothing)
  next
    case (waited b c s0 s3 s5)
    note same = \<open>kv_same dev s s3\<close> [unfolded kv_same_def]
    show ?thesis
    proof (cases res)
      case (Inl e)
      have "kv_failure dev (derive_key env) (Rq_get key buf len) e s s5"
        by (rule round_failure [OF \<open>command_state (kv_exists_exact env dev) dev c s3 s5\<close>])
          (use waited(10) Inl same in \<open>auto simp: device_effect_def waited(1,2)\<close>)
      then show ?thesis using waited(11) Inl by (auto intro: kv_failure_same)
    next
      case (Inr u)
      then have d: "cr_done (kv_results s5 ! kc_result c)" "cr_success (kv_results s5 ! kc_result c)"
        and s': "kv_same dev (copy_out buf len b s5) s'" using waited(10,11) by simp_all
      obtain read where read: "kv_in_flight s5 = []" "kv_memory s5 = kv_memory s"
        "device_effect (kv_exists_exact env dev) c (mem_read (kv_dma s3 (kc_buffer c)) 0 (kc_length c))
           (cr_success (kv_results s5 ! kc_result c)) read (dev (kv_world s)) (dev (kv_world s5))"
        "kc_opcode c = Kv_retrieve \<Longrightarrow> kv_dma s5 (kc_buffer c) = mem_write (kv_dma s3 (kc_buffer c)) 0 read"
        using command_done [OF waited(9,7) d(1)] by blast
      obtain v where v: "dev (kv_world s) (derive_key env key) = Some v" "read = take (unat len) v"
        "dev (kv_world s5) = dev (kv_world s)"
        using read(3) d(2) by (auto simp: device_effect_def waited(1,2,4))
      have "kv_dma s5 b = mem_write (\<lambda>_. 0) 0 (take (unat len) v)"
        using read(4) v(2) waited(3,6,8) by (simp add: waited(1))
      then have "mem_read (kv_dma s5 b) 0 (unat len) = take (unat len) (v @ replicate (unat len) 0)"
        by (simp add: read_zeroed)
      then show ?thesis using read(1,2) v s' Inr
        by (simp add: kv_outcome_def kv_same_def copy_out_def)
    qed
  qed
qed

text \<open>The commands without a buffer.\<close>

lemma rejected:
  assumes "submit_command env conn opcode key buf len s = (rc, r, s1)" "rc \<noteq> 0"
    and "kv_device_ok env dev" "kv_in_flight s = []"
  shows "kv_failure dev h rq e s s1"
proof (rule kv_failure_nothing)
  show "kv_memory s1 = kv_memory s"
    by (rule frame_memory [OF submit_command_views(1) [OF assms(1,3)]])
  show "kv_in_flight s1 = []"
    by (rule submit_command_views(4) [OF assms(1,3,2), unfolded assms(4)])
  show "dev (kv_world s1) = dev (kv_world s)"
    by (rule submit_command_views(3) [OF assms(1,3)])
qed

lemma exists_outcome:
  assumes ok: "kv_device_ok env dev" and idle: "kv_in_flight s = []"
    and run: "kv_do_single_exists env conn key s = Some (res, s')"
  shows "kv_outcome (kv_exists_exact env dev) dev (derive_key env) (Rq_exists key) s (res, s')"
proof -
  obtain rc r s1 where sub: "submit_command env conn Kv_exist (derive_key env key) 0 0 s = (rc, r, s1)"
    using prod_cases3 by blast
  show ?thesis
  proof (cases "rc = 0")
    case False
    then have "res = Inl (Runtime_error ''NVMe-KV exist submission failed'')" "s' = s1"
      using run by (simp_all add: kv_do_single_exists_def sub)
    then show ?thesis using rejected [OF sub False ok idle] by auto
  next
    case True
    obtain res2 s2 where w: "wait_for_completion env conn r ''exist'' False s1 = Some (res2, s2)"
      using run True by (auto simp: kv_do_single_exists_def sub split: option.splits)
    define c where "c = \<lparr>kc_opcode = Kv_exist, kc_qpair = the (cn_qpair conn), kc_key = derive_key env key,
      kc_buffer = 0, kc_length = 0, kc_result = r\<rparr>"
    note round = command_round [OF ok idle sub [unfolded True] w, folded c_def]
    have c: "kc_opcode c = Kv_exist" "kc_key c = derive_key env key" "kc_result c = r" by (simp_all add: c_def)
    show ?thesis
    proof (cases res2)
      case (Inl e)
      then have "res = Inl e" "s' = s2" using run True w by (simp_all add: kv_do_single_exists_def sub)
      moreover have "kv_failure dev (derive_key env) (Rq_exists key) e s s2"
        by (rule round_failure [OF round [THEN conjunct1] refl refl, where q = False and operation = "''exist''"])
          (use round Inl in \<open>auto simp: device_effect_def c(1)\<close>)
      ultimately show ?thesis by auto
    next
      case (Inr u)
      let ?b = "cr_success (kv_results s2 ! r)"
      have out: "res = Inr ?b" "kv_same dev s2 s'"
        using run True w Inr by (auto simp: kv_do_single_exists_def sub Let_def)
      have fin: "cr_done (kv_results s2 ! kc_result c)" using round Inr by (simp add: c(3))
      obtain read where read: "kv_in_flight s2 = []" "kv_memory s2 = kv_memory s"
        "device_effect (kv_exists_exact env dev) c (mem_read (kv_dma s (kc_buffer c)) 0 (kc_length c))
           (cr_success (kv_results s2 ! kc_result c)) read (dev (kv_world s)) (dev (kv_world s2))"
        using command_done [OF round [THEN conjunct1] kv_same_refl fin] by blast
      have "dev (kv_world s2) = dev (kv_world s)" "?b \<longrightarrow> dev (kv_world s) (derive_key env key) \<noteq> None"
        "kv_exists_exact env dev \<and> dev (kv_world s) (derive_key env key) \<noteq> None \<longrightarrow> ?b"
        using read(3) by (simp_all add: device_effect_def c)
      then show ?thesis using out read(1,2) by (auto simp: kv_outcome_def kv_same_def kv_answers_def)
    qed
  qed
qed

lemma kv_same_emit: "kv_same dev s s' \<Longrightarrow> kv_same dev s (emit_event env ph op key n b w x i s')"
  using emit_event_same kv_same_trans by fast

lemma delete_outcome:
  assumes ok: "kv_device_ok env dev" and idle: "kv_in_flight s = []"
    and run: "kv_do_single_delete env conn key s = Some (res, s')"
  shows "kv_outcome (kv_exists_exact env dev) dev (derive_key env) (Rq_delete key) s (res, s')"
proof -
  obtain present s1 where ex: "kv_do_single_exists env conn key s = Some (present, s1)"
    using run by (auto simp: kv_do_single_delete_def split: option.splits)
  note out1 = exists_outcome [OF ok idle ex]
  show ?thesis
  proof (cases present)
    case (Inl e)
    then have "res = Inl e" "s' = s1" using run by (simp_all add: kv_do_single_delete_def ex)
    moreover have "kv_failure dev (derive_key env) (Rq_delete key) e s s1"
      using out1 Inl by (auto simp: kv_outcome_def kv_failure_def)
    ultimately show ?thesis by auto
  next
    case (Inr b)
    have s1: "kv_in_flight s1 = []" "kv_memory s1 = kv_memory s" "dev (kv_world s1) = dev (kv_world s)"
      "b \<longrightarrow> dev (kv_world s) (derive_key env key) \<noteq> None"
      "kv_exists_exact env dev \<and> dev (kv_world s) (derive_key env key) \<noteq> None \<longrightarrow> b"
      using out1 Inr by (auto simp: kv_outcome_def kv_answers_def)
    obtain rc r s2 where sub: "submit_command env conn Kv_delete (derive_key env key) 0 0 s1 = (rc, r, s2)"
      using prod_cases3 by blast
    consider (absent) "\<not> b" | (reject) b "rc \<noteq> 0" | (wait) b "rc = 0" by blast
    then show ?thesis
    proof cases
      case absent
      then have "res = Inr False" "s' = s1" using run Inr by (simp_all add: kv_do_single_delete_def ex)
      then show ?thesis using s1 absent by (auto simp: kv_outcome_def kv_answers_def fun_upd_idem)
    next
      case reject
      then have "res = Inl (Runtime_error ''NVMe-KV delete submission failed'')" "s' = s2"
        using run Inr by (simp_all add: kv_do_single_delete_def ex sub)
      moreover have "kv_failure dev (derive_key env) (Rq_delete key) e s1 s2" for e
        by (rule rejected [OF sub reject(2) ok s1(1)])
      ultimately show ?thesis using s1 by (auto simp: kv_failure_def)
    next
      case wait
      obtain res3 s3 where w: "wait_for_completion env conn r ''delete'' True s2 = Some (res3, s3)"
        using run wait Inr by (auto simp: kv_do_single_delete_def ex sub split: option.splits)
      define c where "c = \<lparr>kc_opcode = Kv_delete, kc_qpair = the (cn_qpair conn), kc_key = derive_key env key,
        kc_buffer = 0, kc_length = 0, kc_result = r\<rparr>"
      note round = command_round [OF ok s1(1) sub [unfolded wait(2)] w, folded c_def]
      have c: "kc_opcode c = Kv_delete" "kc_key c = derive_key env key" "kc_result c = r" by (simp_all add: c_def)
      show ?thesis
      proof (cases res3)
        case (Inl e)
        then have "res = Inl e" "s' = s3" using run wait Inr w by (simp_all add: kv_do_single_delete_def ex sub)
        moreover have "kv_failure dev (derive_key env) (Rq_delete key) e s s3"
          by (rule round_failure [OF round [THEN conjunct1] s1(2,3)])
            (use round Inl in \<open>auto simp: device_effect_def c\<close>)
        ultimately show ?thesis by auto
      next
        case (Inr u)
        have out: "res = Inr True" "kv_same dev s3 s'"
          using run wait \<open>present = Inr b\<close> w Inr by (auto simp: kv_do_single_delete_def ex sub)
        have d: "cr_done (kv_results s3 ! kc_result c)" "cr_success (kv_results s3 ! kc_result c)"
          using round Inr by (simp_all add: c(3))
        obtain read where read: "kv_in_flight s3 = []" "kv_memory s3 = kv_memory s1"
          "device_effect (kv_exists_exact env dev) c (mem_read (kv_dma s1 (kc_buffer c)) 0 (kc_length c))
             (cr_success (kv_results s3 ! kc_result c)) read (dev (kv_world s1)) (dev (kv_world s3))"
          using command_done [OF round [THEN conjunct1] kv_same_refl d(1)] by blast
        have "dev (kv_world s3) = (dev (kv_world s))(derive_key env key := None)"
          using read(3) d(2) s1(3) by (simp add: device_effect_def c)
        then show ?thesis using out read(1,2) s1 wait(1) by (simp add: kv_outcome_def kv_same_def kv_answers_def)
      qed
    qed
  qed
qed

lemma call_outcome:
  assumes "kv_device_ok env dev" "kv_in_flight s = []" and run: "kv_call env conn rq s = Some (res, s')"
  shows "kv_outcome (kv_exists_exact env dev) dev (derive_key env) rq s (res, s')"
proof (cases rq)
  case (Rq_get key buf len)
  then obtain r where "kv_do_single_get env conn key buf len s = Some (r, s')" "res = map_sum id (\<lambda>_. True) r"
    using run by (auto simp: unit_answer_def)
  then show ?thesis using get_outcome [OF assms(1,2)] Rq_get by simp
next
  case (Rq_set key buf len)
  then obtain r where "kv_do_single_set env conn key buf len s = Some (r, s')" "res = map_sum id (\<lambda>_. True) r"
    using run by (auto simp: unit_answer_def)
  then show ?thesis using set_outcome [OF assms(1,2)] Rq_set by simp
qed (use run exists_outcome [OF assms(1,2)] delete_outcome [OF assms(1,2)] in auto)

text \<open>The connector as a store of objects, while every command is completed.\<close>

interpretation kv_store: object_store "kv_call env conn"
    "kv_answers (kv_exists_exact env dev) (derive_key env)"
    "\<lambda>s. (kv_memory s, dev (kv_world s))" "\<lambda>s. kv_device_ok env dev \<and> kv_in_flight s = []"
  for env conn dev
proof
  fix s s' rq a
  assume "kv_device_ok env dev \<and> kv_in_flight s = []" "kv_call env conn rq s = Some (Inr a, s')"
  then have ok: "kv_device_ok env dev"
    and out: "kv_outcome (kv_exists_exact env dev) dev (derive_key env) rq s (Inr a, s')"
    using call_outcome by blast+
  show "(kv_device_ok env dev \<and> kv_in_flight s' = []) \<and>
      kv_answers (kv_exists_exact env dev) (derive_key env) rq (kv_memory s, dev (kv_world s)) a
        (kv_memory s', dev (kv_world s'))"
    using ok kv_outcome_success [OF out] by simp
qed

end
