(* ===== verification/Kv_Resources.thy ===== *)
theory Kv_Resources
  imports Kv_Operations
begin

text \<open>
  Every operation on a key returns, because its wait has a deadline, and gives its staging buffer back
  on every path.
\<close>

section \<open>Returning\<close>

lemma with_dma_buffer_returns:
  assumes "\<And>b x. \<exists>res s'. body b x = Some (res, s')"
  shows "\<exists>res s'. with_dma_buffer env len body s = Some (res, s')"
proof (cases "ke_zmalloc env len 4096 (kv_world s)")
  case (Pair b d)
  show ?thesis
  proof (cases b)
    case (Some p)
    obtain res s1 where "body p (s\<lparr>kv_world := d, kv_dma := (kv_dma s)(p := \<lambda>_. 0)\<rparr>) = Some (res, s1)"
      using assms by fast
    then show ?thesis using Pair Some by (simp add: with_dma_buffer_def)
  qed (use Pair in \<open>simp add: with_dma_buffer_def\<close>)
qed

lemma staged_returns:
  assumes "kv_clock_ok env ck"
  shows "\<exists>res s'. staged env conn opcode operation key len prepare finish s = Some (res, s')"
  unfolding staged_def
proof (rule with_dma_buffer_returns)
  fix b x
  obtain rc r s4 where sub: "submit_command env conn opcode (derive_key env key) b (unat len)
      (emit_event env ''io_begin'' operation key len True (cn_worker_id conn) [] 0 (prepare b x)) = (rc, r, s4)"
    using prod_cases3 by blast
  obtain res5 s5 where "wait_for_completion env conn r operation True s4 = Some (res5, s5)"
    using wait_for_completion_returns [OF assms] by fast
  then show "\<exists>res s'. (case submit_command env conn opcode (derive_key env key) b (unat len)
              (emit_event env ''io_begin'' operation key len True (cn_worker_id conn) [] 0 (prepare b x)) of
         (rc, r, s4) \<Rightarrow>
           if rc \<noteq> 0
           then Some (Inl (Runtime_error (''NVMe-KV '' @ operation @ '' submission failed'')),
             emit_event env ''io_end'' operation key len False (cn_worker_id conn) ''submit_failed'' 0 s4)
           else
             (case wait_for_completion env conn r operation True s4 of
                None \<Rightarrow> None
              | Some (Inl e, s5) \<Rightarrow> Some (Inl e, s5)
              | Some (Inr _, s5) \<Rightarrow>
                  Some (Inr (), emit_event env ''io_end'' operation key len True (cn_worker_id conn) ''ok'' 0
                    (finish b s5)))) = Some (res, s')"
    by (cases res5) (simp_all add: sub)
qed

lemma exists_returns:
  assumes "kv_clock_ok env ck"
  shows "\<exists>res s'. kv_do_single_exists env conn key s = Some (res, s')"
proof -
  obtain rc r s1 where sub: "submit_command env conn Kv_exist (derive_key env key) 0 0 s = (rc, r, s1)"
    using prod_cases3 by blast
  obtain res2 s2 where "wait_for_completion env conn r ''exist'' False s1 = Some (res2, s2)"
    using wait_for_completion_returns [OF assms] by fast
  then show ?thesis by (cases res2) (simp_all add: kv_do_single_exists_def sub Let_def)
qed

lemma delete_returns:
  assumes "kv_clock_ok env ck"
  shows "\<exists>res s'. kv_do_single_delete env conn key s = Some (res, s')"
proof -
  obtain present s1 where ex: "kv_do_single_exists env conn key s = Some (present, s1)"
    using exists_returns [OF assms] by fast
  obtain rc r s2 where sub: "submit_command env conn Kv_delete (derive_key env key) 0 0 s1 = (rc, r, s2)"
    using prod_cases3 by blast
  obtain res3 s3 where w: "wait_for_completion env conn r ''delete'' True s2 = Some (res3, s3)"
    using wait_for_completion_returns [OF assms] by fast
  show ?thesis
  proof (cases present)
    case (Inr b)
    show ?thesis by (cases b; cases res3) (simp_all add: kv_do_single_delete_def ex sub w Inr)
  qed (simp add: kv_do_single_delete_def ex)
qed

lemma call_returns:
  assumes "kv_clock_ok env ck"
  shows "\<exists>res s'. kv_call env conn rq s = Some (res, s')"
proof (cases rq)
  case (Rq_get key buf len)
  then show ?thesis
    using staged_returns [OF assms, of conn Kv_retrieve "''retrieve''" key len "\<lambda>_ s. s" "copy_out buf len" s]
    by (cases "ensure_value_size len s") (auto simp: unit_answer_def kv_do_single_get_staged)
next
  case (Rq_set key buf len)
  then show ?thesis
    using staged_returns [OF assms, of conn Kv_store "''store''" key len "copy_in buf len" "\<lambda>_ s. s" s]
    by (cases "ensure_value_size len s") (auto simp: unit_answer_def kv_do_single_set_staged)
qed (simp_all add: exists_returns [OF assms] delete_returns [OF assms])

section \<open>The DMA heap\<close>

lemma submit_command_heap:
  "kv_heap_ok env live \<Longrightarrow> submit_command env conn opcode key buf len s = (rc, r, s1) \<Longrightarrow>
   live (kv_world s1) = live (kv_world s)"
  by (auto simp: submit_command_def kv_heap_ok_def case_prod_unfold Let_def)

lemma wait_for_completion_heap:
  assumes ok: "kv_heap_ok env live"
    and w: "wait_for_completion env conn r operation require_success s = Some (res, s')"
  shows "live (kv_world s') = live (kv_world s)"
  by (rule wait_for_completion_inv [where P = "\<lambda>x. live (kv_world x) = live (kv_world s)",
        OF w, THEN conjunct1])
    (use ok in \<open>simp_all add: kv_views kv_heap_ok_def\<close>)

lemma with_dma_buffer_heap:
  assumes ok: "kv_heap_ok env live"
    and run: "with_dma_buffer env len body s = Some (res, s')"
    and body: "\<And>b x res x'. body b x = Some (res, x') \<Longrightarrow> live (kv_world x') = live (kv_world x)"
  shows "live (kv_world s') = live (kv_world s)"
proof -
  have heap: "dma_heap_ok (ke_zmalloc env) (ke_dma_free env) live"
    using ok by (simp add: kv_heap_ok_def)
  have alloc: "case ke_zmalloc env len 4096 (kv_world s) of (None, h') \<Rightarrow> live h' = live (kv_world s)
      | (Some b, h') \<Rightarrow> b \<notin> live (kv_world s) \<and> live h' = insert b (live (kv_world s))"
    by (rule heap [unfolded dma_heap_ok_def, THEN conjunct1, rule_format])
  have free: "live (ke_dma_free env b h) = live h - {b}" for b h
    using heap by (simp add: dma_heap_ok_def)
  from run show ?thesis
  proof (rule with_dma_buffer_cases)
    fix d assume "ke_zmalloc env len 4096 (kv_world s) = (None, d)" "s' = s\<lparr>kv_world := d\<rparr>"
    then show ?thesis using alloc by simp
  next
    fix b d s1 assume z: "ke_zmalloc env len 4096 (kv_world s) = (Some b, d)"
      and "body b (s\<lparr>kv_world := d, kv_dma := (kv_dma s)(b := \<lambda>_. 0)\<rparr>) = Some (res, s1)"
      and s': "s' = kv_outside (ke_dma_free env b) s1"
    from body [OF this(2)] have "live (kv_world s1) = live d" by simp
    then show ?thesis using alloc z by (simp add: s' kv_views free)
  qed
qed

lemma staged_heap:
  assumes ok: "kv_heap_ok env live"
    and run: "staged env conn opcode operation key len prepare finish s = Some (res, s')"
    and prepare: "\<And>b x. kv_world (prepare b x) = kv_world x" and finish: "\<And>b x. kv_world (finish b x) = kv_world x"
  shows "live (kv_world s') = live (kv_world s)"
  using ok run unfolding staged_def
proof (rule with_dma_buffer_heap)
  fix b x res x'
  obtain rc r s4 where sub: "submit_command env conn opcode (derive_key env key) b (unat len)
      (emit_event env ''io_begin'' operation key len True (cn_worker_id conn) [] 0 (prepare b x)) = (rc, r, s4)"
    using prod_cases3 by blast
  have s4: "live (kv_world s4) = live (kv_world x)"
    using submit_command_heap [OF ok sub] by (simp add: kv_views prepare)
  assume run: "(case submit_command env conn opcode (derive_key env key) b (unat len)
              (emit_event env ''io_begin'' operation key len True (cn_worker_id conn) [] 0 (prepare b x)) of
         (rc, r, s4) \<Rightarrow>
           if rc \<noteq> 0
           then Some (Inl (Runtime_error (''NVMe-KV '' @ operation @ '' submission failed'')),
             emit_event env ''io_end'' operation key len False (cn_worker_id conn) ''submit_failed'' 0 s4)
           else
             (case wait_for_completion env conn r operation True s4 of
                None \<Rightarrow> None
              | Some (Inl e, s5) \<Rightarrow> Some (Inl e, s5)
              | Some (Inr _, s5) \<Rightarrow>
                  Some (Inr (), emit_event env ''io_end'' operation key len True (cn_worker_id conn) ''ok'' 0
                    (finish b s5)))) = Some (res, x')"
  show "live (kv_world x') = live (kv_world x)"
  proof (cases "rc = 0")
    case False
    then have "x' = emit_event env ''io_end'' operation key len False (cn_worker_id conn) ''submit_failed'' 0 s4"
      using run by (simp add: sub)
    then show ?thesis using s4 by (simp add: emit_event_views(2))
  next
    case True
    then obtain res5 s5 where w: "wait_for_completion env conn r operation True s4 = Some (res5, s5)"
      using run by (auto simp: sub split: option.splits)
    then have "kv_world x' = kv_world s5"
      using run True by (cases res5) (auto simp: sub emit_event_views(2) finish)
    then show ?thesis using wait_for_completion_heap [OF ok w] s4 by simp
  qed
qed

lemma exists_heap:
  assumes ok: "kv_heap_ok env live" and run: "kv_do_single_exists env conn key s = Some (res, s')"
  shows "live (kv_world s') = live (kv_world s)"
proof -
  obtain rc r s1 where sub: "submit_command env conn Kv_exist (derive_key env key) 0 0 s = (rc, r, s1)"
    using prod_cases3 by blast
  show ?thesis
  proof (cases "rc = 0")
    case False
    then show ?thesis using run submit_command_heap [OF ok sub] by (simp add: kv_do_single_exists_def sub)
  next
    case True
    then obtain res2 s2 where w: "wait_for_completion env conn r ''exist'' False s1 = Some (res2, s2)"
      using run by (auto simp: kv_do_single_exists_def sub split: option.splits)
    then have "kv_world s' = kv_world s2"
      using run True by (cases res2) (auto simp: kv_do_single_exists_def sub kv_views Let_def)
    then show ?thesis using wait_for_completion_heap [OF ok w] submit_command_heap [OF ok sub] by simp
  qed
qed

lemma delete_heap:
  assumes ok: "kv_heap_ok env live" and run: "kv_do_single_delete env conn key s = Some (res, s')"
  shows "live (kv_world s') = live (kv_world s)"
proof -
  obtain present s1 where ex: "kv_do_single_exists env conn key s = Some (present, s1)"
    using run by (auto simp: kv_do_single_delete_def split: option.splits)
  obtain rc r s2 where sub: "submit_command env conn Kv_delete (derive_key env key) 0 0 s1 = (rc, r, s2)"
    using prod_cases3 by blast
  note s1 = exists_heap [OF ok ex] and s2 = submit_command_heap [OF ok sub]
  show ?thesis
  proof (cases "present = Inr True \<and> rc = 0")
    case False
    then have "s' = s1 \<or> s' = s2"
      using run by (cases present) (auto simp: kv_do_single_delete_def ex sub split: bool.splits)
    then show ?thesis using s1 s2 by auto
  next
    case True
    then obtain res3 s3 where w: "wait_for_completion env conn r ''delete'' True s2 = Some (res3, s3)"
      using run by (auto simp: kv_do_single_delete_def ex sub split: option.splits)
    then have "kv_world s' = kv_world s3"
      using run True by (cases res3) (auto simp: kv_do_single_delete_def ex sub kv_views)
    then show ?thesis using wait_for_completion_heap [OF ok w] s1 s2 by simp
  qed
qed

lemma copy_world:
  "kv_world (copy_in buf len b x) = kv_world x" "kv_world (copy_out buf len b x) = kv_world x"
  by (simp_all add: copy_in_def copy_out_def)

lemma get_heap:
  assumes ok: "kv_heap_ok env live" and run: "kv_do_single_get env conn key buf len s = Some (res, s')"
  shows "live (kv_world s') = live (kv_world s)"
proof (cases "ensure_value_size len s")
  case (Inr u)
  then have "staged env conn Kv_retrieve ''retrieve'' key len (\<lambda>_ s. s) (copy_out buf len) s = Some (res, s')"
    using run by (simp add: kv_do_single_get_staged)
  then show ?thesis by (rule staged_heap [OF ok]) (simp_all add: copy_world)
qed (use run in \<open>simp add: kv_do_single_get_def\<close>)

lemma set_heap:
  assumes ok: "kv_heap_ok env live" and run: "kv_do_single_set env conn key buf len s = Some (res, s')"
  shows "live (kv_world s') = live (kv_world s)"
proof (cases "ensure_value_size len s")
  case (Inr u)
  then have "staged env conn Kv_store ''store'' key len (copy_in buf len) (\<lambda>_ s. s) s = Some (res, s')"
    using run by (simp add: kv_do_single_set_staged)
  then show ?thesis by (rule staged_heap [OF ok]) (simp_all add: copy_world)
qed (use run in \<open>simp add: kv_do_single_set_def\<close>)

lemma call_heap:
  assumes ok: "kv_heap_ok env live" and run: "kv_call env conn rq s = Some (res, s')"
  shows "live (kv_world s') = live (kv_world s)"
  using run get_heap [OF ok] set_heap [OF ok] exists_heap [OF ok] delete_heap [OF ok]
  by (cases rq) (auto simp: unit_answer_def)

end
