(* ===== verification/Kv_Prompt.thy ===== *)
theory Kv_Prompt
  imports Kv_Resources
begin

text \<open>
  A device that accepts and completes commands in time, for which the operations succeed; and two
  small devices for the witnesses of the properties.
\<close>

section \<open>A device that answers in time\<close>

text \<open>
  There is DMA memory, every command is accepted, and a store, or a retrieve of a key the device has,
  succeeds at the first poll after the clock was read, before the deadline.
\<close>

definition kv_prompt :: "'d kv_env \<Rightarrow> ('d \<Rightarrow> kv_key \<rightharpoonup> bytes) \<Rightarrow> bool" where
  "kv_prompt env dev \<longleftrightarrow> kv_device_ok env dev \<and>
     (\<forall>c d. fst (ke_submit env c d) = 0) \<and> (\<forall>sz a d. fst (ke_zmalloc env sz a d) \<noteq> None) \<and>
     (\<forall>c content d. kc_opcode c = Kv_store \<or> kc_opcode c = Kv_retrieve \<and> dev d (kc_key c) \<noteq> None \<longrightarrow>
        (case ke_poll env (kc_qpair c) [(c, content)] (snd (ke_now env d)) of (rc, completed, d') \<Rightarrow>
           0 \<le> rc \<and> (\<exists>read. completed = [(0, True, read)]) \<and>
           fst (ke_now env d') < fst (ke_now env d) + command_timeout))"

lemma kv_prompt_poll:
  assumes "kv_prompt env dev"
    and "kc_opcode c = Kv_store \<or> kc_opcode c = Kv_retrieve \<and> dev d (kc_key c) \<noteq> None"
  obtains rc read d' where "ke_poll env (kc_qpair c) [(c, content)] (snd (ke_now env d)) = (rc, [(0, True, read)], d')"
    "0 \<le> rc" "fst (ke_now env d') < fst (ke_now env d) + command_timeout"
proof -
  obtain rc completed d' where p: "ke_poll env (kc_qpair c) [(c, content)] (snd (ke_now env d)) = (rc, completed, d')"
    using prod_cases3 by blast
  have "case ke_poll env (kc_qpair c) [(c, content)] (snd (ke_now env d)) of (rc, completed, d') \<Rightarrow>
      0 \<le> rc \<and> (\<exists>read. completed = [(0, True, read)]) \<and>
      fst (ke_now env d') < fst (ke_now env d) + command_timeout"
    by (rule assms(1) [unfolded kv_prompt_def, THEN conjunct2, THEN conjunct2, THEN conjunct2, rule_format,
        OF assms(2)])
  then show thesis using that p by auto
qed

lemma prompt_submit: "kv_prompt env dev \<Longrightarrow> fst (ke_submit env c d) = 0"
  by (simp add: kv_prompt_def)

lemma prompt_wait:
  assumes prompt: "kv_prompt env dev" and idle: "kv_in_flight s = []"
    and sub: "submit_command env conn opcode key buf len s = (rc, r, s1)"
    and opcode: "opcode = Kv_store \<or> opcode = Kv_retrieve \<and> dev (kv_world s) key \<noteq> None"
  shows "rc = 0" "\<exists>s2. wait_for_completion env conn r operation True s1 = Some (Inr (), s2)"
proof -
  have ok: "kv_device_ok env dev" using prompt by (simp add: kv_prompt_def)
  define c where "c = \<lparr>kc_opcode = opcode, kc_qpair = the (cn_qpair conn), kc_key = key, kc_buffer = buf,
    kc_length = len, kc_result = r\<rparr>"
  show rc: "rc = 0"
    using sub prompt_submit [OF prompt] by (auto simp: submit_command_def Let_def split: prod.splits)
      (metis fst_conv)
  have s1: "kv_in_flight s1 = [c]" "r < length (kv_results s1)"
      "kv_results s1 ! r = \<lparr>cr_done = False, cr_success = False\<rparr>"
    using sub idle rc by (auto simp: submit_command_def c_def Let_def split: prod.splits)
  have "dev (kv_world s1) = dev (kv_world s)"
    by (rule submit_command_views(3) [OF sub ok])
  then have pre: "kc_opcode c = Kv_store \<or> kc_opcode c = Kv_retrieve \<and> dev (kv_world s1) (kc_key c) \<noteq> None"
    using opcode by (simp add: c_def)
  define x where "x = s1\<lparr>kv_world := snd (ke_now env (kv_world s1))\<rparr>"
  define t where "t = fst (ke_now env (kv_world s1))"
  have c1: "kv_clock env s1 = (t, x)" by (simp add: kv_clock_def x_def t_def case_prod_unfold)
  obtain rc1 read d' where p: "ke_poll env (kc_qpair c) [(c, mem_read (kv_dma s1 (kc_buffer c)) 0 (kc_length c))]
        (snd (ke_now env (kv_world s1))) = (rc1, [(0, True, read)], d')"
    and rc1: "0 \<le> rc1" and t1: "fst (ke_now env d') < t + command_timeout"
    using kv_prompt_poll [OF prompt pre] unfolding t_def by metis
  define y where "y = deliver_completion (0, True, read) (x\<lparr>kv_world := d'\<rparr>)"
  have poll: "process_completions env (the (cn_qpair conn)) x = (rc1, y)"
    using p s1(1) by (simp add: process_completions_def x_def y_def c_def)
  have y: "kv_results y ! r = \<lparr>cr_done = True, cr_success = True\<rparr>" "kv_world y = d'"
    using s1 by (simp_all add: y_def deliver_completion_def kv_complete_def x_def Let_def c_def)
  define z where "z = y\<lparr>kv_world := snd (ke_now env d')\<rparr>"
  have c2: "kv_clock env y = (fst (ke_now env d'), z)"
    by (simp add: kv_clock_def z_def y(2) case_prod_unfold)
  have "wait_loop env (the (cn_qpair conn)) r operation (t + command_timeout) z = Some (Inr (), z)"
    by (subst wait_loop.simps) (simp add: z_def y(1))
  then have "wait_loop env (the (cn_qpair conn)) r operation (t + command_timeout) x = Some (Inr (), z)"
    using rc1 t1 s1(3) by (subst wait_loop.simps) (simp add: poll c2 x_def [symmetric], simp add: x_def)
  then have "wait_for_completion env conn r operation True s1 = Some (Inr (), z)"
    by (simp add: wait_for_completion_def c1) (simp add: z_def y(1))
  then show "\<exists>s2. wait_for_completion env conn r operation True s1 = Some (Inr (), s2)" by blast
qed

lemma prompt_staged:
  assumes prompt: "kv_prompt env dev" and idle: "kv_in_flight s = []"
    and opcode: "opcode = Kv_store \<or> opcode = Kv_retrieve \<and> dev (kv_world s) (derive_key env key) \<noteq> None"
    and prepare: "\<And>b x. kv_same dev x (prepare b x)"
  shows "\<exists>s'. staged env conn opcode operation key len prepare finish s = Some (Inr (), s')"
proof -
  have ok: "kv_device_ok env dev" using prompt by (simp add: kv_prompt_def)
  obtain b d where z: "ke_zmalloc env len 4096 (kv_world s) = (Some b, d)"
    using prompt unfolding kv_prompt_def by (metis prod.collapse not_None_eq)
  then have d: "dev d = dev (kv_world s)"
    using ok unfolding kv_device_ok_def by (metis snd_conv)
  define s0 where "s0 = s\<lparr>kv_world := d, kv_dma := (kv_dma s)(b := \<lambda>_. 0)\<rparr>"
  define s3 where "s3 = emit_event env ''io_begin'' operation key len True (cn_worker_id conn) [] 0 (prepare b s0)"
  have "kv_same dev s0 s3" unfolding s3_def by (rule kv_same_emit [OF prepare])
  then have s3: "kv_in_flight s3 = []" "dev (kv_world s3) = dev (kv_world s)"
    using idle d by (simp_all add: kv_same_def s0_def)
  obtain rc r s4 where sub: "submit_command env conn opcode (derive_key env key) b (unat len) s3 = (rc, r, s4)"
    using prod_cases3 by blast
  obtain s5 where "rc = 0" "wait_for_completion env conn r operation True s4 = Some (Inr (), s5)"
    using prompt_wait [OF prompt s3(1) sub] opcode s3(2) by fastforce
  then show ?thesis
    using sub unfolding s3_def s0_def staged_def with_dma_buffer_def z by simp
qed

lemma prompt_set:
  assumes prompt: "kv_prompt env dev" and idle: "kv_in_flight s = []" and size: "ensure_value_size len s = Inr ()"
  obtains s' where "kv_call env conn (Rq_set key buf len) s = Some (Inr True, s')"
    "kv_max_value_bytes s' = kv_max_value_bytes s"
proof -
  have ok: "kv_device_ok env dev" using prompt by (simp add: kv_prompt_def)
  obtain s' where st: "staged env conn Kv_store ''store'' key len (copy_in buf len) (\<lambda>_ s. s) s = Some (Inr (), s')"
    using prompt_staged [OF prompt idle, of Kv_store key "copy_in buf len" conn "''store''" len "\<lambda>_ s. s"]
    by (auto simp: copy_in_same)
  then have "kv_call env conn (Rq_set key buf len) s = Some (Inr True, s')"
    by (simp add: unit_answer_def kv_do_single_set_staged size)
  moreover have "kv_max_value_bytes s' = kv_max_value_bytes s"
    using st ok idle copy_in_same
  proof (cases rule: staged_cases)
    case (waited b c s0 s3 s5)
    have "kv_max_value_bytes s5 = kv_max_value_bytes s3"
      using waited(9) by (simp add: command_state_def kv_frame_def)
    then show ?thesis using waited(7,11) by (simp add: kv_same_def)
  qed simp
  ultimately show thesis by (rule that)
qed

lemma prompt_get:
  assumes "kv_prompt env dev" "kv_in_flight s = []" "ensure_value_size len s = Inr ()"
    and "dev (kv_world s) (derive_key env key) \<noteq> None"
  obtains s' where "kv_call env conn (Rq_get key buf len) s = Some (Inr True, s')"
  using prompt_staged [OF assms(1,2), of Kv_retrieve key "\<lambda>_ s. s" conn "''retrieve''" len "copy_out buf len"]
  by (auto simp: unit_answer_def kv_do_single_get_staged assms(3,4))

section \<open>Two small devices\<close>

text \<open>
  The outside state of the witnesses: the clock, the live DMA buffers and the values. One device
  answers the first command of every poll, the other none, and its clock runs fast.
\<close>

record small_world =
  sw_clock :: nat
  sw_heap :: "nat list"
  sw_store :: "kv_key \<rightharpoonup> bytes"

definition small_answer :: "kv_command \<Rightarrow> bytes \<Rightarrow> small_world \<Rightarrow> int \<times> kv_completed list \<times> small_world" where
  "small_answer c content d =
     (case kc_opcode c of
        Kv_store \<Rightarrow> (1, [(0, True, [])], d\<lparr>sw_store := (sw_store d)(kc_key c \<mapsto> content)\<rparr>)
      | Kv_retrieve \<Rightarrow>
          (case sw_store d (kc_key c) of
             None \<Rightarrow> (1, [(0, False, [])], d)
           | Some v \<Rightarrow> (1, [(0, True, take (kc_length c) v)], d))
      | Kv_exist \<Rightarrow> (1, [(0, sw_store d (kc_key c) \<noteq> None, [])], d)
      | Kv_delete \<Rightarrow> (1, [(0, True, [])], d\<lparr>sw_store := (sw_store d)(kc_key c := None)\<rparr>))"

definition small_poll ::
  "bool \<Rightarrow> qpair \<Rightarrow> (kv_command \<times> bytes) list \<Rightarrow> small_world \<Rightarrow> int \<times> kv_completed list \<times> small_world" where
  "small_poll answers q cs d =
     (case cs of [] \<Rightarrow> (0, [], d) | (c, content) # _ \<Rightarrow> if answers then small_answer c content d else (0, [], d))"

text \<open>A stand-in for the digest, 32 bytes that tell short keys apart.\<close>

definition small_digest :: "bytes \<Rightarrow> bytes" where
  "small_digest m = take 32 (rev m @ replicate 32 0)"

definition small_kv_env :: "bool \<Rightarrow> nat \<Rightarrow> small_world kv_env" where
  "small_kv_env answers tick =
     \<lparr>ke_sha256 = small_digest,
      ke_now = (\<lambda>d. (sw_clock d, d\<lparr>sw_clock := sw_clock d + tick\<rparr>)),
      ke_zmalloc = (\<lambda>_ _ d. let b = Suc (sum_list (sw_heap d)) in (Some b, d\<lparr>sw_heap := b # sw_heap d\<rparr>)),
      ke_dma_free = (\<lambda>b d. d\<lparr>sw_heap := removeAll b (sw_heap d)\<rparr>),
      ke_alloc_qpair = (\<lambda>_ d. (Some 1, d)), ke_free_qpair = (\<lambda>_ d. d),
      ke_submit = (\<lambda>_ d. (0, d)), ke_poll = small_poll answers,
      ke_env_init = (\<lambda>_ d. (0, d)), ke_env_fini = (\<lambda>d. d), ke_probe = (\<lambda>_ d. (0, [], d)),
      ke_detach = (\<lambda>_ d. d), ke_start_workers = (\<lambda>d. (None, d))\<rparr>"

definition small_kv_state :: "small_world kv_state" where
  "small_kv_state = (new_kv_connector ''0000:01:00.0'' False (\<lambda>a. of_nat a) \<lparr>sw_clock = 0, sw_heap = [], sw_store = \<lambda>_. None\<rparr>)
     \<lparr>kv_controller := Some 1, kv_namespace := Some 1, kv_max_value_bytes := 4096\<rparr>"

definition small_connection :: kv_connection where
  "small_connection = \<lparr>cn_qpair = Some 1, cn_worker_id = 0\<rparr>"

lemma small_device_ok: "kv_device_ok (small_kv_env answers tick) sw_store"
  by (auto simp: kv_device_ok_def small_kv_env_def small_poll_def small_answer_def device_effect_def Let_def
      split: kv_opcode.split option.split)

lemma small_clock_ok: "0 < tick \<Longrightarrow> kv_clock_ok (small_kv_env answers tick) sw_clock"
  by (simp add: kv_clock_ok_def small_kv_env_def small_poll_def small_answer_def
      split: list.split kv_opcode.split option.split prod.split)

lemma small_heap: "kv_heap_ok (small_kv_env answers tick) (set \<circ> sw_heap)"
proof -
  have "Suc (sum_list h) \<notin> set h" for h :: "nat list"
    using member_le_sum_list [of _ h] by fastforce
  then show ?thesis
    by (auto simp: kv_heap_ok_def dma_heap_ok_def small_kv_env_def small_poll_def small_answer_def Let_def
        split: list.split kv_opcode.split option.split prod.split)
qed

lemma small_prompt: "kv_prompt (small_kv_env True 1) sw_store"
  using small_device_ok [of True 1]
  by (auto simp: kv_prompt_def small_kv_env_def small_poll_def small_answer_def command_timeout_def Let_def
      split: kv_opcode.split option.split)

end
