(* ===== verification/Kv_Properties.thy ===== *)
theory Kv_Properties
  imports Kv_Prompt
begin

text \<open>
  The properties of the operations of the NVMe Key-Value connector. Each is applied to a small device
  after it, one that answers or one that never does.
\<close>

section \<open>Refinement of a map\<close>

text \<open>
  Property C32. A sequence of operations that succeed does to the device and to the caller's memory
  what the same requests do one after the other on a map from derived keys to values, answers what the
  map answers, and leaves no command under way, with one exception: the code takes every error status
  of \<open>EXIST\<close> for an absent key, so an existence check or a delete of a present key may answer \<open>False\<close>
  and change nothing, unless the device never fails the \<open>EXIST\<close> of a key it has; on such a device the
  answers are exactly those of the map. A retrieve of a value shorter than the caller's buffer succeeds
  and fills the rest with zeros, whatever \<open>docs/architecture.md\<close> says of sizes that differ.
\<close>

theorem kv_requests_refine_map:
  assumes "kv_device_ok env dev" and "kv_in_flight s = []"
    and "serve (kv_call env conn) requests s = Some (answers, s')"
  shows "spec_run (kv_answers (kv_exists_exact env dev) (derive_key env)) requests
      (kv_memory s, dev (kv_world s)) answers (kv_memory s', dev (kv_world s')) \<and>
    kv_in_flight s' = [] \<and>
    (kv_exists_exact env dev \<longrightarrow>
      spec_results (kv_spec (derive_key env)) requests (kv_memory s, dev (kv_world s)) =
        Some (answers, kv_memory s', dev (kv_world s')))"
proof -
  have run: "spec_run (kv_answers (kv_exists_exact env dev) (derive_key env)) requests
      (kv_memory s, dev (kv_world s)) answers (kv_memory s', dev (kv_world s'))" and "kv_in_flight s' = []"
    using kv_store.served [of env dev s conn requests answers s'] assms by blast+
  moreover have "spec_results (kv_spec (derive_key env)) requests (kv_memory s, dev (kv_world s)) =
      Some (answers, kv_memory s', dev (kv_world s'))" if "kv_exists_exact env dev"
    by (rule spec_run_results [OF run]) (use that in simp)
  ultimately show ?thesis by blast
qed

lemma small_idle: "kv_in_flight small_kv_state = []"
  by (simp add: small_kv_state_def new_kv_connector_def)

lemma small_size: "ensure_value_size 3 small_kv_state = Inr ()"
  by (simp add: small_kv_state_def ensure_value_size_def new_kv_connector_def)

lemma small_stored:
  obtains s' where "kv_call (small_kv_env True 1) small_connection (Rq_set ''a'' 100 3) small_kv_state =
    Some (Inr True, s')"
  using prompt_set [OF small_prompt small_idle small_size] by blast

theorem kv_requests_refine_map_witness:
  "\<exists>s'. serve (kv_call (small_kv_env True 1) small_connection) [Rq_set ''a'' 100 3] small_kv_state =
       Some ([True], s') \<and>
     sw_store (kv_world s') (derive_key (small_kv_env True 1) ''a'') = Some [100, 101, 102]"
proof -
  obtain s' where "kv_call (small_kv_env True 1) small_connection (Rq_set ''a'' 100 3) small_kv_state =
      Some (Inr True, s')" by (rule small_stored)
  then have run: "serve (kv_call (small_kv_env True 1) small_connection) [Rq_set ''a'' 100 3] small_kv_state =
      Some ([True], s')" by (simp del: kv_call.simps)
  have "[0::nat..<3] = [0, 1, 2]" by (simp add: upt_rec)
  then have "mem_read (kv_memory small_kv_state) 100 (unat (3 :: u64)) = [100, 101, 102]"
    by (simp add: small_kv_state_def new_kv_connector_def mem_read_def)
  then have "(sw_store (kv_world small_kv_state))(derive_key (small_kv_env True 1) ''a'' \<mapsto> [100, 101, 102]) =
      sw_store (kv_world s')"
    using kv_requests_refine_map [OF small_device_ok small_idle run, THEN conjunct1]
    by (auto elim!: spec_run_ConsE spec_run_NilE)
  then show ?thesis using run by (metis fun_upd_same)
qed

text \<open>
  Property C33. On a device that answers in time a value that fits is stored, and reading its key into
  another place, through the same or another connection, gives exactly the bytes that were stored and
  changes nothing else.
\<close>

theorem store_retrieve_roundtrip:
  assumes "kv_prompt env dev" and "kv_in_flight s = []"
    and "0 < len" "len \<le> ucast (kv_max_value_bytes s)"
  shows "\<exists>s1 s2. kv_call env writer (Rq_set key buf len) s = Some (Inr True, s1) \<and>
    kv_call env reader (Rq_get key dst len) s1 = Some (Inr True, s2) \<and>
    kv_memory s2 = mem_write (kv_memory s) dst (mem_read (kv_memory s) buf (unat len)) \<and>
    dev (kv_world s2) = (dev (kv_world s))(derive_key env key \<mapsto> mem_read (kv_memory s) buf (unat len))"
proof -
  have ok: "kv_device_ok env dev" using assms(1) by (simp add: kv_prompt_def)
  have size: "ensure_value_size len s = Inr ()"
    using assms(3,4) by (auto simp: ensure_value_size_def)
  obtain s1 where set: "kv_call env writer (Rq_set key buf len) s = Some (Inr True, s1)"
    and max: "kv_max_value_bytes s1 = kv_max_value_bytes s"
    using prompt_set [OF assms(1,2) size] by blast
  note out = call_outcome [OF ok assms(2) set]
  note spec = kv_outcome_success(1) [OF out, unfolded kv_answers_exact kv_spec.simps option.inject prod.inject]
  have s1: "kv_in_flight s1 = []" "kv_memory s1 = kv_memory s"
    "dev (kv_world s1) = (dev (kv_world s))(derive_key env key \<mapsto> mem_read (kv_memory s) buf (unat len))"
    by (rule kv_outcome_success(2) [OF out], rule spec [THEN conjunct2, THEN conjunct1, symmetric],
      rule spec [THEN conjunct2, THEN conjunct2, symmetric])
  have size1: "ensure_value_size len s1 = Inr ()" using size unfolding ensure_value_size_def max .
  obtain s2 where get: "kv_call env reader (Rq_get key dst len) s1 = Some (Inr True, s2)"
    using prompt_get [OF assms(1) s1(1) size1, of key] unfolding s1(3) by auto
  show ?thesis
  proof (intro exI conjI)
    have "kv_spec (derive_key env) (Rq_get key dst len) (kv_memory s1, dev (kv_world s1)) =
        Some (True, kv_memory s2, dev (kv_world s2))"
      by (rule kv_outcome_success(1) [OF call_outcome [OF ok s1(1) get], unfolded kv_answers_exact])
    then have "mem_write (kv_memory s) dst (mem_read (kv_memory s) buf (unat len)) = kv_memory s2 \<and>
        dev (kv_world s1) = dev (kv_world s2)"
      by (simp add: s1(2,3))
    then show "kv_memory s2 = mem_write (kv_memory s) dst (mem_read (kv_memory s) buf (unat len))"
      and "dev (kv_world s2) = (dev (kv_world s))(derive_key env key \<mapsto> mem_read (kv_memory s) buf (unat len))"
      using s1(3) by simp_all
  qed (rule set get)+
qed

theorem store_retrieve_roundtrip_witness:
  "\<exists>s1 s2. kv_call (small_kv_env True 1) small_connection (Rq_set ''a'' 100 3) small_kv_state = Some (Inr True, s1) \<and>
     kv_call (small_kv_env True 1) small_connection (Rq_get ''a'' 500 3) s1 = Some (Inr True, s2) \<and>
     kv_memory s2 501 = 101"
proof -
  have "mem_write (kv_memory small_kv_state) 500 (mem_read (kv_memory small_kv_state) 100 (unat (3 :: u64))) 501 = 101"
    by (simp add: mem_write_def small_kv_state_def new_kv_connector_def)
  moreover have "(3 :: u64) \<le> ucast (kv_max_value_bytes small_kv_state)"
    by (simp add: small_kv_state_def)
  ultimately show ?thesis
    using store_retrieve_roundtrip [OF small_prompt small_idle, where len = 3 and key = "''a''" and buf = 100 and
        dst = 500 and writer = small_connection and reader = small_connection]
    by fastforce
qed

section \<open>Errors\<close>

text \<open>
  Property C34. An operation that throws never touches the caller's memory. A command that SPDK
  rejected or that the device failed left the device as it was. When the wait was given up, by the
  timeout or by a polling error, either the command is still under way, with its result on the stack
  and its buffer already freed, or the last poll completed it: then the request took effect although
  it is reported as failed.
\<close>

theorem kv_call_failure:
  assumes "kv_device_ok env dev" and "kv_in_flight s = []"
    and "kv_call env conn rq s = Some (Inl e, s')"
  shows "kv_memory s' = kv_memory s \<and>
    (kv_in_flight s' = [] \<and> dev (kv_world s') = dev (kv_world s) \<or>
     (\<exists>operation. e = Runtime_error (''NVMe-KV '' @ operation @ '' completion polling failed'') \<or>
        e = Runtime_error (''NVMe-KV '' @ operation @ '' timed out'')) \<and>
     ((\<exists>c. kv_in_flight s' = [c] \<and> \<not> cr_done (kv_results s' ! kc_result c)) \<and>
        dev (kv_world s') = dev (kv_world s) \<or>
      kv_in_flight s' = [] \<and>
        map_option (snd \<circ> snd) (kv_spec (derive_key env) rq (kv_memory s, dev (kv_world s))) =
          Some (dev (kv_world s'))))"
  using call_outcome [OF assms] by (simp add: kv_outcome_def kv_failure_def wait_error_def)

text \<open>The device that never answers: the command is still under way when the operation has thrown.\<close>

theorem kv_call_failure_witness:
  "\<exists>s' c. kv_call (small_kv_env False command_timeout) small_connection (Rq_exists ''a'') small_kv_state =
       Some (Inl (Runtime_error ''NVMe-KV exist timed out''), s') \<and>
     kv_in_flight s' = [c] \<and> kv_memory s' = kv_memory small_kv_state"
proof -
  let ?env = "small_kv_env False command_timeout"
  obtain s' where run: "kv_call ?env small_connection (Rq_exists ''a'') small_kv_state =
      Some (Inl (Runtime_error ''NVMe-KV exist timed out''), s')" and "kv_in_flight s' \<noteq> []"
  proof -
    have "case kv_call ?env small_connection (Rq_exists ''a'') small_kv_state of
        Some (Inl e, s') \<Rightarrow> e = Runtime_error ''NVMe-KV exist timed out'' \<and> kv_in_flight s' \<noteq> []
      | _ \<Rightarrow> False"
      by (simp add: kv_do_single_exists_def submit_command_def wait_for_completion_def wait_loop.simps kv_clock_def
          process_completions_def small_kv_env_def small_poll_def small_connection_def small_kv_state_def
          new_kv_connector_def Let_def)
    then show ?thesis using that by (auto split: option.splits prod.splits sum.splits)
  qed
  then show ?thesis
    using kv_call_failure [OF small_device_ok small_idle run] by blast
qed

section \<open>Returning and giving back\<close>

text \<open>
  Property C35. Every operation returns: whatever the device answers, the loop that waits for the
  completion ends when the clock has passed the deadline.
\<close>

theorem kv_call_returns:
  assumes "kv_clock_ok env ck"
  shows "\<exists>answer s'. kv_call env conn rq s = Some (answer, s')"
  by (rule call_returns [OF assms])

theorem kv_call_returns_witness:
  "\<exists>answer s'. kv_call (small_kv_env False 7) small_connection (Rq_get ''a'' 500 3) small_kv_state = Some (answer, s')"
  by (rule kv_call_returns [OF small_clock_ok]) simp

text \<open>
  Property C36. The staging buffer of an operation is given back on every path, the throwing ones
  included: the live DMA buffers are those from before.
\<close>

theorem kv_call_keeps_heap:
  assumes "kv_heap_ok env live" and "kv_call env conn rq s = Some (answer, s')"
  shows "live (kv_world s') = live (kv_world s)"
  by (rule call_heap [OF assms])

theorem kv_call_keeps_heap_witness:
  "\<exists>s'. kv_call (small_kv_env True 1) small_connection (Rq_set ''a'' 100 3) small_kv_state = Some (Inr True, s') \<and>
     set (sw_heap (kv_world s')) = {}"
proof -
  obtain s' where run: "kv_call (small_kv_env True 1) small_connection (Rq_set ''a'' 100 3) small_kv_state =
      Some (Inr True, s')"
    by (rule small_stored)
  then show ?thesis
    using kv_call_keeps_heap [OF small_heap run] by (simp add: small_kv_state_def new_kv_connector_def)
qed

end
