(* ===== verification/Kv_Process.thy ===== *)
theory Kv_Process
  imports Kv_Connector "HOL-Library.Multiset"
begin

text \<open>
  The connectors of a process and their connections: at most one connector runs, exactly while the
  SPDK environment is up, and every queue pair is freed once.
\<close>

section \<open>Attaching\<close>

lemma find_kv_namespace_some:
  "find_kv_namespace nss = Some (ns, v) \<Longrightarrow>
   \<exists>before kml after. nss = before @ Ns_format ns kml v # after \<and> find_kv_namespace before = None \<and>
     16 \<le> kml \<and> v \<noteq> 0"
proof (induction nss)
  case (Cons x rest)
  show ?case
  proof (cases "find_kv_namespace [x]")
    case None
    then have rest: "find_kv_namespace (x # before) = find_kv_namespace before" for before
      by (cases x) (auto split: if_splits)
    then obtain before kml after where "rest = before @ Ns_format ns kml v # after"
        "find_kv_namespace before = None" "16 \<le> kml" "v \<noteq> 0"
      using Cons by auto
    then show ?thesis using rest
      by (intro exI [of _ "x # before"] exI [of _ kml] exI [of _ after]) simp
  next
    case (Some y)
    then obtain kml where "x = Ns_format ns kml v" "16 \<le> kml" "v \<noteq> 0"
      using Cons.prems by (cases x) (auto simp: not_less split: if_splits)
    then show ?thesis
      by (intro exI [of _ "[]"] exI [of _ kml] exI [of _ rest]) simp
  qed
qed simp

text \<open>The part of a connector that attaching sets.\<close>

definition kv_attachment :: "'d kv_state \<Rightarrow> nat option \<times> nat option \<times> u32" where
  "kv_attachment s = (kv_controller s, kv_namespace s, kv_max_value_bytes s)"

lemma attach_cb_attachment:
  "kv_attachment (attach_cb env (c, nss) s) =
     (case find_kv_namespace nss of None \<Rightarrow> kv_attachment s | Some (ns, v) \<Rightarrow> (Some c, Some ns, v))"
  by (simp add: attach_cb_def kv_attachment_def kv_outside_def split: option.split)

lemma attach_fold_attachment:
  "kv_attachment (fold (attach_cb env) found s) = kv_attachment s \<or>
   (\<exists>c nss ns v. (c, nss) \<in> set found \<and> find_kv_namespace nss = Some (ns, v) \<and>
      kv_attachment (fold (attach_cb env) found s) = (Some c, Some ns, v))"
proof (induction found arbitrary: s)
  case (Cons x found)
  obtain c nss where x: "x = (c, nss)" by fastforce
  from Cons [of "attach_cb env x s"] show ?case
  proof (elim disjE exE conjE)
    assume "kv_attachment (fold (attach_cb env) found (attach_cb env x s)) = kv_attachment (attach_cb env x s)"
    then show ?thesis
      by (cases "find_kv_namespace nss") (auto simp: x attach_cb_attachment)
  qed auto
qed simp

text \<open>What stays as it is while a connector attaches.\<close>

definition kv_identity :: "'d kv_state \<Rightarrow> string \<times> bool \<times> bool" where
  "kv_identity s = (kv_pci_bdf s, kv_runtime_initialized s, kv_trace_events s)"

lemma attach_fold_identity: "kv_identity (fold (attach_cb env) found s) = kv_identity s"
proof (induction found arbitrary: s)
  case (Cons x found)
  have "kv_identity (attach_cb env x s) = kv_identity s"
    by (simp add: attach_cb_def kv_identity_def kv_outside_def split: prod.split option.split)
  then show ?case using Cons by simp
qed simp

lemma initialize_runtime_identity: "kv_identity (snd (initialize_runtime env s)) = kv_identity s"
proof -
  obtain rc found d where p: "ke_probe env (kv_pci_bdf s) (kv_world s) = (rc, found, d)"
    using prod_cases3 by blast
  have "kv_identity (s\<lparr>kv_world := d\<rparr>) = kv_identity s" by (simp add: kv_identity_def)
  then show ?thesis
    using attach_fold_identity [of env found "s\<lparr>kv_world := d\<rparr>"]
    by (simp add: initialize_runtime_def p Let_def)
qed

lemma initialize_runtime_success:
  assumes "initialize_runtime env s = (Inr u, s1)" and "kv_controller s = None"
  obtains c nss found ns v d1 where "ke_probe env (kv_pci_bdf s) (kv_world s) = (0, found, d1)"
    "(c, nss) \<in> set found" "find_kv_namespace nss = Some (ns, v)" "kv_attachment s1 = (Some c, Some ns, v)"
proof -
  obtain rc found d where p: "ke_probe env (kv_pci_bdf s) (kv_world s) = (rc, found, d)"
    using prod_cases3 by blast
  have s1: "s1 = fold (attach_cb env) found (s\<lparr>kv_world := d\<rparr>)" "rc = 0" "kv_controller s1 \<noteq> None"
    using assms(1) by (auto simp: initialize_runtime_def p Let_def split: if_splits)
  have "kv_attachment s1 \<noteq> kv_attachment (s\<lparr>kv_world := d\<rparr>)"
    using s1(3) assms(2) by (auto simp: kv_attachment_def)
  then show thesis
    using attach_fold_attachment [of env found "s\<lparr>kv_world := d\<rparr>"] that p s1(1,2) by metis
qed

lemma emit_event_attachment:
  "kv_attachment (emit_event env ph op key n b w x i s) = kv_attachment s"
  "kv_identity (emit_event env ph op key n b w x i s) = kv_identity s"
  "kv_world (emit_event env ph op key n b w x i s) = kv_world s"
  by (simp_all add: emit_event_def kv_attachment_def kv_identity_def Let_def)

text \<open>A constructor that returns went through every stage.\<close>

lemma construct_success:
  assumes "construct_kv_connector env pci_bdf mb trace m active d = (Inr u, s, active')"
  obtains rc d1 u1 s1 s2 where "pci_bdf \<noteq> []" "0 < mb" "\<not> active" "active'" "ke_env_init env mb d = (rc, d1)" "0 \<le> rc"
    "initialize_runtime env ((new_kv_connector pci_bdf trace m d)\<lparr>kv_world := d1, kv_runtime_initialized := True\<rparr>) =
       (Inr u1, s1)"
    "s2 = emit_event env ''ready'' ''attach'' pci_bdf (ucast (kv_max_value_bytes s1)) True 0 ''kv_namespace'' 0 s1"
    "fst (ke_start_workers env (kv_world s2)) = None" "s = s2\<lparr>kv_world := snd (ke_start_workers env (kv_world s2))\<rparr>"
  using assms
  by (auto simp: construct_kv_connector_def Let_def split: if_splits prod.splits sum.splits option.splits)

text \<open>A constructor that throws: nothing happened, the environment did not come up, or all was undone.\<close>

definition kv_undone :: "'d kv_env \<Rightarrow> 'd kv_state \<Rightarrow> 'd kv_state" where
  "kv_undone env s = kv_outside (ke_env_fini env)
     (case kv_controller s of None \<Rightarrow> s | Some c \<Rightarrow> (kv_outside (ke_detach env c) s)\<lparr>kv_controller := None\<rparr>)"

lemma construct_failure:
  assumes "construct_kv_connector env pci_bdf mb trace m active d = (Inl e, s, active')"
  obtains (refused) "kv_world s = d" "active' = active"
    | (environment) "\<not> active" "\<not> active'" "fst (ke_env_init env mb d) < 0" "kv_world s = snd (ke_env_init env mb d)"
    | (undone) rc d1 res1 s1 s2 where "\<not> active" "\<not> active'" "ke_env_init env mb d = (rc, d1)" "0 \<le> rc"
      "initialize_runtime env ((new_kv_connector pci_bdf trace m d)\<lparr>kv_world := d1, kv_runtime_initialized := True\<rparr>) =
         (res1, s1)"
      "s2 = s1 \<or> kv_controller s2 = kv_controller s1 \<and>
         kv_world s2 = snd (ke_start_workers env (kv_world s1))"
      "kv_world s = kv_world (kv_undone env s2)"
proof -
  define s0 where "s0 = new_kv_connector pci_bdf trace m d"
  note run = assms [unfolded construct_kv_connector_def, folded s0_def]
  have s0: "kv_world s0 = d" by (simp add: s0_def new_kv_connector_def)
  consider (early) "pci_bdf = [] \<or> mb \<le> 0 \<or> active" | (init) "pci_bdf \<noteq> []" "0 < mb" "\<not> active" by fastforce
  then show thesis
  proof cases
    case early
    then show thesis using run s0 by (intro refused) (auto simp: Let_def split: if_splits)
  next
    case init
    obtain rc d1 where e: "ke_env_init env mb d = (rc, d1)" by fastforce
    show thesis
    proof (cases "rc < 0")
      case True
      then show thesis using run init e by (intro environment) (auto simp: Let_def)
    next
      case False
      obtain res1 s1 where i: "initialize_runtime env (s0\<lparr>kv_world := d1, kv_runtime_initialized := True\<rparr>) = (res1, s1)"
        by fastforce
      define s2 where "s2 = emit_event env ''ready'' ''attach'' pci_bdf (ucast (kv_max_value_bytes s1)) True 0
        ''kv_namespace'' 0 s1"
      define s3 where "s3 = (case res1 of Inl _ \<Rightarrow> s1
        | Inr _ \<Rightarrow> s2\<lparr>kv_world := snd (ke_start_workers env (kv_world s2))\<rparr>)"
      define failed where "failed = (case res1 of Inl e \<Rightarrow> Some e | Inr _ \<Rightarrow> fst (ke_start_workers env (kv_world s2)))"
      have stages: "(case res1 of Inl e \<Rightarrow> (Some e, s1)
          | Inr _ \<Rightarrow>
              let s2 = emit_event env ''ready'' ''attach'' pci_bdf (ucast (kv_max_value_bytes s1)) True 0
                ''kv_namespace'' 0 s1
              in (case ke_start_workers env (kv_world s2) of (failed, d2) \<Rightarrow> (failed, s2\<lparr>kv_world := d2\<rparr>))) =
          (failed, s3)"
        by (simp add: failed_def s3_def s2_def case_prod_unfold Let_def split: sum.split)
      have "kv_world s2 = kv_world s1" "kv_controller s2 = kv_controller s1"
        using emit_event_attachment [of env "''ready''" "''attach''" pci_bdf _ True 0 "''kv_namespace''" 0 s1]
        by (simp_all add: s2_def kv_attachment_def)
      then have s3: "s3 = s1 \<or> kv_controller s3 = kv_controller s1 \<and> kv_world s3 = snd (ke_start_workers env (kv_world s1))"
        by (simp add: s3_def split: sum.split)
      have "kv_world s = kv_world (kv_undone env s3) \<and> \<not> active'"
        using run init e False by (cases failed) (auto simp: Let_def i stages kv_undone_def kv_outside_def)
      then show thesis
        using init e False i s3 unfolding s0_def by (intro undone [of rc d1 res1 s1 s3]) auto
    qed
  qed
qed

section \<open>The connectors of a process\<close>

text \<open>
  What the connectors rely on: \<open>up\<close> says whether the SPDK environment runs, \<open>att\<close> which controllers are
  attached. The address of a PCI device names at most one controller.
\<close>

definition kv_spdk_ok :: "'d kv_env \<Rightarrow> ('d \<Rightarrow> bool) \<Rightarrow> ('d \<Rightarrow> nat set) \<Rightarrow> bool" where
  "kv_spdk_ok env up att \<longleftrightarrow>
     (\<forall>mb d. case ke_env_init env mb d of (rc, d') \<Rightarrow> att d' = att d \<and> (if rc < 0 then up d' = up d else up d')) \<and>
     (\<forall>d. \<not> up (ke_env_fini env d) \<and> att (ke_env_fini env d) = att d) \<and>
     (\<forall>a d. case ke_probe env a d of (rc, found, d') \<Rightarrow>
        up d' = up d \<and> length found \<le> 1 \<and> att d' = att d \<union> fst ` set found) \<and>
     (\<forall>c d. up (ke_detach env c d) = up d \<and> att (ke_detach env c d) = att d - {c}) \<and>
     (\<forall>d. up (snd (ke_start_workers env d)) = up d \<and> att (snd (ke_start_workers env d)) = att d)"

lemma kv_spdk_ok_laws:
  assumes "kv_spdk_ok env up att"
  shows "ke_env_init env mb d = (rc, d') \<Longrightarrow> att d' = att d"
    "ke_env_init env mb d = (rc, d') \<Longrightarrow> rc < 0 \<Longrightarrow> up d' = up d"
    "ke_env_init env mb d = (rc, d') \<Longrightarrow> 0 \<le> rc \<Longrightarrow> up d'"
    "\<not> up (ke_env_fini env d)" "att (ke_env_fini env d) = att d"
    "ke_probe env a d = (rc, found, d') \<Longrightarrow> up d' = up d \<and> length found \<le> 1 \<and> att d' = att d \<union> fst ` set found"
    "up (ke_detach env c d) = up d" "att (ke_detach env c d) = att d - {c}"
    "up (snd (ke_start_workers env d)) = up d" "att (snd (ke_start_workers env d)) = att d"
proof -
  note law = assms [unfolded kv_spdk_ok_def]
  have init: "case ke_env_init env mb d of (rc, d') \<Rightarrow> att d' = att d \<and> (if rc < 0 then up d' = up d else up d')"
    by (rule law [THEN conjunct1, THEN spec, THEN spec])
  have probe: "case ke_probe env a d of (rc, found, d') \<Rightarrow>
        up d' = up d \<and> length found \<le> 1 \<and> att d' = att d \<union> fst ` set found"
    by (rule law [THEN conjunct2, THEN conjunct2, THEN conjunct1, THEN spec, THEN spec])
  show "ke_env_init env mb d = (rc, d') \<Longrightarrow> att d' = att d"
    "ke_env_init env mb d = (rc, d') \<Longrightarrow> rc < 0 \<Longrightarrow> up d' = up d"
    "ke_env_init env mb d = (rc, d') \<Longrightarrow> 0 \<le> rc \<Longrightarrow> up d'"
    using init by (auto split: if_splits)
  show "ke_probe env a d = (rc, found, d') \<Longrightarrow> up d' = up d \<and> length found \<le> 1 \<and> att d' = att d \<union> fst ` set found"
    using probe by simp
qed (use assms in \<open>simp_all add: kv_spdk_ok_def\<close>)

lemma initialize_runtime_attached:
  assumes ok: "kv_spdk_ok env up att" and "att (kv_world s) = {}" "kv_controller s = None"
    and run: "initialize_runtime env s = (res, s1)"
  shows "up (kv_world s1) = up (kv_world s) \<and> att (kv_world s1) = set_option (kv_controller s1)"
proof -
  obtain rc found d where p: "ke_probe env (kv_pci_bdf s) (kv_world s) = (rc, found, d)"
    using prod_cases3 by blast
  note probe = kv_spdk_ok_laws(6) [OF ok p]
  have s1: "s1 = fold (attach_cb env) found (s\<lparr>kv_world := d\<rparr>)"
    using run by (auto simp: initialize_runtime_def p Let_def split: if_splits)
  show ?thesis
  proof (cases found)
    case Nil
    then show ?thesis using probe assms(2,3) by (simp add: s1)
  next
    case (Cons x xs)
    then have "found = [x]" using probe by simp
    then show ?thesis using probe assms(2,3) kv_spdk_ok_laws(7,8) [OF ok]
      by (cases x; cases "find_kv_namespace (snd x)") (auto simp: s1 attach_cb_def kv_outside_def)
  qed
qed

text \<open>
  A process makes connectors and shuts them down, in any order; a connector whose constructor throws
  does not come into being. The outside state is that of the last step.
\<close>

datatype kv_process_event = Kp_construct string int bool "nat \<Rightarrow> u8" | Kp_stop nat

type_synonym 'd kv_process = "bool \<times> 'd kv_state list \<times> 'd"

fun kv_process_step :: "'d kv_env \<Rightarrow> kv_process_event \<Rightarrow> 'd kv_process \<Rightarrow> 'd kv_process" where
  "kv_process_step env (Kp_construct pci_bdf mb trace m) (active, cs, d) =
     (case construct_kv_connector env pci_bdf mb trace m active d of
        (Inl e, s, active') \<Rightarrow> (active', cs, kv_world s)
      | (Inr _, s, active') \<Rightarrow> (active', cs @ [s], kv_world s))"
| "kv_process_step env (Kp_stop i) (active, cs, d) =
     (if i < length cs
      then (case on_workers_stopped env ((cs ! i)\<lparr>kv_world := d\<rparr>) active of
              (s, active') \<Rightarrow> (active', cs[i := s], kv_world s))
      else (active, cs, d))"

fun kv_process_ok :: "('d \<Rightarrow> bool) \<Rightarrow> ('d \<Rightarrow> nat set) \<Rightarrow> 'd kv_process \<Rightarrow> bool" where
  "kv_process_ok up att (active, cs, d) \<longleftrightarrow>
     up d = active \<and>
     map kv_controller (filter kv_runtime_initialized cs) = map Some (sorted_list_of_set (att d)) \<and>
     finite (att d) \<and> card (att d) = (if active then 1 else 0)"

lemma kv_process_ok_cases:
  "kv_process_ok up att (active, cs, d) \<longleftrightarrow>
     (if active then up d \<and> (\<exists>c. att d = {c} \<and> map kv_controller (filter kv_runtime_initialized cs) = [Some c])
      else \<not> up d \<and> att d = {} \<and> filter kv_runtime_initialized cs = [])"
  by (auto simp: card_1_singleton_iff)

lemma kv_undone_laws:
  assumes "kv_spdk_ok env up att"
  shows "\<not> up (kv_world (kv_undone env s))"
    "att (kv_world (kv_undone env s)) = att (kv_world s) - set_option (kv_controller s)"
  using kv_spdk_ok_laws [OF assms] by (simp_all add: kv_undone_def kv_outside_def split: option.split)

lemma construct_process_ok:
  assumes ok: "kv_spdk_ok env up att" and inv: "kv_process_ok up att (active, cs, d)"
  shows "kv_process_ok up att (kv_process_step env (Kp_construct pci_bdf mb trace m) (active, cs, d))"
proof -
  obtain res s active' where run: "construct_kv_connector env pci_bdf mb trace m active d = (res, s, active')"
    using prod_cases3 by blast
  let ?s0 = "\<lambda>d1. (new_kv_connector pci_bdf trace m d)\<lparr>kv_world := d1, kv_runtime_initialized := True\<rparr>"
  have new: "kv_controller (?s0 d1) = None" "kv_world (?s0 d1) = d1" "kv_runtime_initialized (?s0 d1)" for d1
    by (simp_all add: new_kv_connector_def)
  show ?thesis
  proof (cases res)
    case (Inr u)
    obtain rc d1 u1 s1 s2 where c: "\<not> active" "active'" "ke_env_init env mb d = (rc, d1)" "0 \<le> rc"
      "initialize_runtime env (?s0 d1) = (Inr u1, s1)"
      "s2 = emit_event env ''ready'' ''attach'' pci_bdf (ucast (kv_max_value_bytes s1)) True 0 ''kv_namespace'' 0 s1"
      "s = s2\<lparr>kv_world := snd (ke_start_workers env (kv_world s2))\<rparr>"
      by (rule construct_success [OF run [unfolded Inr]])
    have empty: "att d = {}" "filter kv_runtime_initialized cs = []" using inv c(1)
      by (simp_all add: kv_process_ok_cases del: kv_process_ok.simps)
    have d1: "att d1 = {}" "up d1" using kv_spdk_ok_laws(1,3) [OF ok c(3)] c(4) empty by simp_all
    note s1 = initialize_runtime_attached [OF ok _ _ c(5), unfolded new, OF d1(1) refl]
    from initialize_runtime_success [OF c(5) new(1)]
    obtain cc ns v where at: "kv_attachment s1 = (Some cc, Some ns, v)" by metis
    have "kv_identity s1 = kv_identity (?s0 d1)" using initialize_runtime_identity [of env "?s0 d1"] c(5) by simp
    then have "kv_runtime_initialized s1" using new(3) by (simp add: kv_identity_def)
    then have s: "kv_controller s = Some cc" "kv_runtime_initialized s" "att (kv_world s) = {cc}" "up (kv_world s)"
      using at s1 d1 kv_spdk_ok_laws(9,10) [OF ok] emit_event_attachment [of env "''ready''" "''attach''" pci_bdf
          "ucast (kv_max_value_bytes s1)" True 0 "''kv_namespace''" 0 s1]
      by (simp_all add: c(6,7) kv_attachment_def kv_identity_def)
    then show ?thesis using run Inr c(2) empty by (simp add: kv_process_ok_cases del: kv_process_ok.simps)
  next
    case (Inl e)
    then have step: "kv_process_step env (Kp_construct pci_bdf mb trace m) (active, cs, d) = (active', cs, kv_world s)"
      using run by simp
    from run [unfolded Inl] show ?thesis unfolding step
    proof (cases rule: construct_failure)
      case refused
      then show "kv_process_ok up att (active', cs, kv_world s)" using inv by simp
    next
      case environment
      then have "att (kv_world s) = att d" "up (kv_world s) = up d"
        using kv_spdk_ok_laws(1,2) [OF ok, of mb d] by (metis prod.collapse)+
      then show "kv_process_ok up att (active', cs, kv_world s)" using inv environment by (simp add: kv_process_ok_cases del: kv_process_ok.simps)
    next
      case (undone rc d1 res1 s1 s2)
      have empty: "att d = {}" "filter kv_runtime_initialized cs = []"
        using inv undone(1) by (simp_all add: kv_process_ok_cases del: kv_process_ok.simps)
      have "att d1 = {}" using kv_spdk_ok_laws(1) [OF ok undone(3)] empty by simp
      from initialize_runtime_attached [OF ok _ _ undone(5), unfolded new, OF this refl]
      have "att (kv_world s2) = set_option (kv_controller s2)"
        using undone(6) kv_spdk_ok_laws(10) [OF ok] by auto
      then show "kv_process_ok up att (active', cs, kv_world s)"
        using kv_undone_laws [OF ok, of s2] undone(2,7) empty
        by (simp add: kv_process_ok_cases del: kv_process_ok.simps)
    qed
  qed
qed

lemma filter_update:
  assumes "i < length xs"
  shows "filter P (xs[i := y]) = filter P (take i xs) @ filter P [y] @ filter P (drop (Suc i) xs)"
    "filter P xs = filter P (take i xs) @ filter P [xs ! i] @ filter P (drop (Suc i) xs)"
proof -
  show "filter P (xs[i := y]) = filter P (take i xs) @ filter P [y] @ filter P (drop (Suc i) xs)"
    using assms by (simp add: upd_conv_take_nth_drop)
  show "filter P xs = filter P (take i xs) @ filter P [xs ! i] @ filter P (drop (Suc i) xs)"
    by (subst id_take_nth_drop [OF assms]) simp
qed

lemma stopped_views:
  assumes ok: "kv_spdk_ok env up att" and run: "on_workers_stopped env s active = (s', active')"
    and "kv_runtime_initialized s"
  shows "\<not> kv_runtime_initialized s'" "\<not> active'" "\<not> up (kv_world s')"
    "att (kv_world s') = att (kv_world s) - set_option (kv_controller s)"
proof -
  let ?s1 = "emit_event env ''shutdown'' ''detach'' (kv_pci_bdf s) 0 True 0 [] 0 s"
  have s1: "kv_controller ?s1 = kv_controller s" "kv_world ?s1 = kv_world s"
    using emit_event_attachment [of env "''shutdown''" "''detach''" "kv_pci_bdf s" 0 True 0 "[]" 0 s]
    by (simp_all add: kv_attachment_def)
  show "\<not> kv_runtime_initialized s'" "\<not> active'"
    using run assms(3) by (auto simp: on_workers_stopped_def Let_def)
  have "s' = (kv_outside (ke_env_fini env) (case kv_controller s of None \<Rightarrow> ?s1
      | Some c \<Rightarrow> (kv_outside (ke_detach env c) ?s1)\<lparr>kv_controller := None, kv_namespace := None\<rparr>))
        \<lparr>kv_runtime_initialized := False\<rparr>"
    using run assms(3) s1(1) by (auto simp: on_workers_stopped_def Let_def)
  then show "\<not> up (kv_world s')" "att (kv_world s') = att (kv_world s) - set_option (kv_controller s)"
    using kv_spdk_ok_laws(4,5,8) [OF ok] s1(2) by (simp_all add: kv_outside_def split: option.split)
qed

lemma stop_process_ok:
  assumes ok: "kv_spdk_ok env up att" and inv: "kv_process_ok up att (active, cs, d)"
  shows "kv_process_ok up att (kv_process_step env (Kp_stop i) (active, cs, d))"
proof (cases "i < length cs")
  case True
  define s where "s = (cs ! i)\<lparr>kv_world := d\<rparr>"
  have s: "kv_runtime_initialized s = kv_runtime_initialized (cs ! i)" "kv_controller s = kv_controller (cs ! i)"
    "kv_world s = d" by (simp_all add: s_def)
  obtain s' active' where run: "on_workers_stopped env s active = (s', active')" by fastforce
  have step: "kv_process_step env (Kp_stop i) (active, cs, d) = (active', cs[i := s'], kv_world s')"
    using True run by (simp add: s_def)
  note split = filter_update [OF True, of kv_runtime_initialized]
  show ?thesis
  proof (cases "kv_runtime_initialized (cs ! i)")
    case False
    then have "s' = s" "active' = active" using run s(1) by (simp_all add: on_workers_stopped_def)
    moreover have "filter kv_runtime_initialized (cs[i := s]) = filter kv_runtime_initialized cs"
      using False s(1) split by simp
    ultimately show ?thesis unfolding step using inv s(3) by simp
  next
    case init: True
    have "filter kv_runtime_initialized cs \<noteq> []" using split(2) init by simp
    then obtain c where c: "att d = {c}" "map kv_controller (filter kv_runtime_initialized cs) = [Some c]"
      using inv by (auto simp: kv_process_ok_cases simp del: kv_process_ok.simps split: if_splits)
    then have rest: "filter kv_runtime_initialized (take i cs) = []"
        "filter kv_runtime_initialized (drop (Suc i) cs) = []" "kv_controller (cs ! i) = Some c"
      using init unfolding split(2) by (auto simp: append_eq_Cons_conv)
    note stopped = stopped_views [OF ok run, unfolded s, OF init]
    show ?thesis unfolding step
      using stopped rest c(1) split(1) [of s'] by (simp add: kv_process_ok_cases del: kv_process_ok.simps)
  qed
qed (use inv in simp)

lemma process_ok:
  assumes "kv_spdk_ok env up att"
  shows "kv_process_ok up att p \<Longrightarrow> kv_process_ok up att (fold (kv_process_step env) evs p)"
proof (induction evs arbitrary: p)
  case (Cons ev evs)
  obtain active cs d where p: "p = (active, cs, d)" using prod_cases3 by blast
  have "kv_process_ok up att (kv_process_step env ev p)"
    using construct_process_ok [OF assms] stop_process_ok [OF assms] Cons.prems unfolding p by (cases ev) fast+
  then show ?case using Cons.IH by simp
qed simp

section \<open>The connections of a connector\<close>

text \<open>
  What happens to connections: one is created, moved to a new object or onto another, or destroyed.
\<close>

datatype kv_connection_event = Cv_create | Cv_move nat | Cv_assign nat nat | Cv_destroy nat

fun kv_connection_step ::
  "'d kv_env \<Rightarrow> kv_connection_event \<Rightarrow> kv_connection list \<times> 'd kv_state \<Rightarrow> kv_connection list \<times> 'd kv_state" where
  "kv_connection_step env Cv_create (cs, s) =
     (case kv_create_connection env s of (Inl e, s1) \<Rightarrow> (cs, s1) | (Inr c, s1) \<Rightarrow> (cs @ [c], s1))"
| "kv_connection_step env (Cv_move i) (cs, s) =
     (if i < length cs then (case connection_move (cs ! i) of (new, old) \<Rightarrow> (cs[i := old] @ [new], s)) else (cs, s))"
| "kv_connection_step env (Cv_assign i j) (cs, s) =
     (if i < length cs \<and> j < length cs
      then (case connection_assign env i j cs (kv_world s) of (cs1, d) \<Rightarrow> (cs1, s\<lparr>kv_world := d\<rparr>)) else (cs, s))"
| "kv_connection_step env (Cv_destroy i) (cs, s) =
     (if i < length cs
      then (take i cs @ drop (Suc i) cs, kv_outside (connection_destroy env (cs ! i)) s) else (cs, s))"

text \<open>The queue pairs SPDK has given out and taken back so far.\<close>

definition kv_qpairs_ok :: "'d kv_env \<Rightarrow> ('d \<Rightarrow> qpair multiset) \<Rightarrow> ('d \<Rightarrow> qpair multiset) \<Rightarrow> bool" where
  "kv_qpairs_ok env given freed \<longleftrightarrow>
     (\<forall>c d. case ke_alloc_qpair env c d of (q, d') \<Rightarrow>
        freed d' = freed d \<and> given d' = given d + mset (case q of None \<Rightarrow> [] | Some x \<Rightarrow> [x])) \<and>
     (\<forall>q d. freed (ke_free_qpair env q d) = add_mset q (freed d) \<and> given (ke_free_qpair env q d) = given d)"

definition owned_qpairs :: "kv_connection list \<Rightarrow> qpair multiset" where
  "owned_qpairs cs = (\<Sum>c\<in>#mset cs. (case cn_qpair c of None \<Rightarrow> {#} | Some q \<Rightarrow> {#q#}))"

lemma owned_append [simp]: "owned_qpairs (cs @ ds) = owned_qpairs cs + owned_qpairs ds"
  and owned_Cons: "owned_qpairs (c # cs) = owned_qpairs [c] + owned_qpairs cs"
  and owned_Nil [simp]: "owned_qpairs [] = {#}"
  and owned_one: "owned_qpairs [c] = (case cn_qpair c of None \<Rightarrow> {#} | Some q \<Rightarrow> {#q#})"
  by (simp_all add: owned_qpairs_def)

lemma owned_update:
  assumes "i < length cs"
  shows "owned_qpairs (cs[i := c]) + owned_qpairs [cs ! i] = owned_qpairs cs + owned_qpairs [c]"
proof -
  have "owned_qpairs (cs[i := c]) = owned_qpairs (take i cs) + (owned_qpairs [c] + owned_qpairs (drop (Suc i) cs))"
    using assms by (simp add: upd_conv_take_nth_drop owned_Cons [of c "drop (Suc i) cs"])
  moreover have "owned_qpairs cs = owned_qpairs (take i cs) + (owned_qpairs [cs ! i] + owned_qpairs (drop (Suc i) cs))"
    by (subst id_take_nth_drop [OF assms]) (simp add: owned_Cons [of "cs ! i" "drop (Suc i) cs"])
  ultimately show ?thesis by (simp add: ac_simps)
qed

lemma owned_emptied: "owned_qpairs [c\<lparr>cn_qpair := None\<rparr>] = {#}"
  by (simp add: owned_one)

lemma owned_remove:
  assumes "i < length cs"
  shows "owned_qpairs cs = owned_qpairs (take i cs @ drop (Suc i) cs) + owned_qpairs [cs ! i]"
proof -
  have "owned_qpairs cs = owned_qpairs (take i cs) + (owned_qpairs [cs ! i] + owned_qpairs (drop (Suc i) cs))"
    by (subst id_take_nth_drop [OF assms]) (simp add: owned_Cons [of "cs ! i" "drop (Suc i) cs"])
  then show ?thesis by (simp add: ac_simps)
qed

lemma destroy_qpairs:
  assumes "kv_qpairs_ok env given freed"
  shows "freed (connection_destroy env c d) = freed d + owned_qpairs [c]"
    "given (connection_destroy env c d) = given d"
  using assms by (simp_all add: kv_qpairs_ok_def connection_destroy_def owned_one split: option.split)

lemma swap_cancel:
  fixes b :: "'q multiset"
  assumes "b + i = a + j" "c + j = b"
  shows "c + i = a"
proof -
  have "c + i + j = a + j" using assms(1) unfolding assms(2) [symmetric] by (simp only: ac_simps)
  then show ?thesis by (simp only: add_right_cancel)
qed

lemma connection_step_qpairs:
  assumes ok: "kv_qpairs_ok env given freed"
    and inv: "given (kv_world s) = freed (kv_world s) + owned_qpairs cs"
    and step: "kv_connection_step env ev (cs, s) = (cs', s')"
  shows "given (kv_world s') = freed (kv_world s') + owned_qpairs cs'"
proof (cases ev)
  case Cv_create
  obtain q d where a: "ke_alloc_qpair env (the (kv_controller s)) (kv_world s) = (q, d)" by fastforce
  have "freed d = freed (kv_world s) \<and> given d = given (kv_world s) + mset (case q of None \<Rightarrow> [] | Some x \<Rightarrow> [x])"
    using ok [unfolded kv_qpairs_ok_def, THEN conjunct1, THEN spec [of _ "the (kv_controller s)"],
        THEN spec [of _ "kv_world s"]] a by simp
  then show ?thesis using step inv Cv_create a
    by (cases q) (auto simp: kv_create_connection_def owned_one)
next
  case (Cv_move i)
  then show ?thesis
    using step inv owned_update [of i cs "(cs ! i)\<lparr>cn_qpair := None\<rparr>"]
    by (auto simp: connection_move_def owned_emptied split: if_splits)
next
  case (Cv_assign i j)
  show ?thesis
  proof (cases "i < length cs \<and> j < length cs \<and> i \<noteq> j")
    case True
    have "owned_qpairs (cs[i := cs ! j]) + owned_qpairs [cs ! i] = owned_qpairs cs + owned_qpairs [cs ! j]"
      using True by (intro owned_update) simp
    moreover have "owned_qpairs (cs[i := cs ! j, j := (cs ! j)\<lparr>cn_qpair := None\<rparr>]) + owned_qpairs [cs ! j] =
        owned_qpairs (cs[i := cs ! j])"
      using True owned_update [of j "cs[i := cs ! j]" "(cs ! j)\<lparr>cn_qpair := None\<rparr>"] by (simp add: owned_emptied)
    ultimately have owned: "owned_qpairs (cs[i := cs ! j, j := (cs ! j)\<lparr>cn_qpair := None\<rparr>]) + owned_qpairs [cs ! i] =
        owned_qpairs cs"
      by (rule swap_cancel)
    have "cs' = cs[i := cs ! j, j := (cs ! j)\<lparr>cn_qpair := None\<rparr>]"
      "kv_world s' = connection_destroy env (cs ! i) (kv_world s)"
      using step Cv_assign True by (auto simp: connection_assign_def connection_destroy_def)
    then show ?thesis
      using destroy_qpairs [OF ok] inv owned by (simp add: ac_simps)
  qed (use step inv Cv_assign in \<open>auto simp: connection_assign_def split: if_splits\<close>)
next
  case (Cv_destroy i)
  show ?thesis
  proof (cases "i < length cs")
    case True
    then have "cs' = take i cs @ drop (Suc i) cs" "kv_world s' = connection_destroy env (cs ! i) (kv_world s)"
      using step Cv_destroy by (auto simp: kv_outside_def)
    then show ?thesis
      using destroy_qpairs [OF ok] inv owned_remove [OF True] by (simp add: ac_simps)
  qed (use step inv Cv_destroy in simp)
qed

lemma connections_qpairs:
  assumes "kv_qpairs_ok env given freed"
  shows "given (kv_world s) = freed (kv_world s) + owned_qpairs cs \<Longrightarrow>
    fold (kv_connection_step env) evs (cs, s) = (cs', s') \<Longrightarrow>
    given (kv_world s') = freed (kv_world s') + owned_qpairs cs'"
proof (induction evs arbitrary: cs s)
  case (Cons ev evs)
  obtain cs1 s1 where step: "kv_connection_step env ev (cs, s) = (cs1, s1)" by fastforce
  show ?case
    by (rule Cons.IH [OF connection_step_qpairs [OF assms Cons.prems(1) step]])
      (use Cons.prems(2) step in simp)
qed simp

section \<open>Properties\<close>

text \<open>
  An outside with one controller of two namespaces: the witnesses run on it. It remembers whether the
  environment is up, what is attached and the queue pairs given out and taken back.
\<close>

record spdk_world =
  pw_up :: bool
  pw_attached :: "nat set"
  pw_given :: "qpair list"
  pw_freed :: "qpair list"

definition one_controller_env :: "spdk_world kv_env" where
  "one_controller_env =
     \<lparr>ke_sha256 = (\<lambda>m. take 32 (m @ replicate 32 0)), ke_now = (\<lambda>d. (0, d)), ke_zmalloc = (\<lambda>_ _ d. (None, d)),
      ke_dma_free = (\<lambda>_ d. d),
      ke_alloc_qpair = (\<lambda>_ d. let q = length (pw_given d) in (Some q, d\<lparr>pw_given := q # pw_given d\<rparr>)),
      ke_free_qpair = (\<lambda>q d. d\<lparr>pw_freed := q # pw_freed d\<rparr>),
      ke_submit = (\<lambda>_ d. (- 1, d)), ke_poll = (\<lambda>_ _ d. (0, [], d)),
      ke_env_init = (\<lambda>_ d. (0, d\<lparr>pw_up := True\<rparr>)), ke_env_fini = (\<lambda>d. d\<lparr>pw_up := False\<rparr>),
      ke_probe = (\<lambda>_ d. (0, [(5, [Ns_other, Ns_format 2 8 4096, Ns_format 3 16 4096])],
        d\<lparr>pw_attached := insert 5 (pw_attached d)\<rparr>)),
      ke_detach = (\<lambda>c d. d\<lparr>pw_attached := pw_attached d - {c}\<rparr>), ke_start_workers = (\<lambda>d. (None, d))\<rparr>"

definition empty_spdk_world :: spdk_world where
  "empty_spdk_world = \<lparr>pw_up = False, pw_attached = {}, pw_given = [], pw_freed = []\<rparr>"

lemma one_controller_ok: "kv_spdk_ok one_controller_env pw_up pw_attached"
  by (simp add: kv_spdk_ok_def one_controller_env_def)

lemma one_controller_qpairs: "kv_qpairs_ok one_controller_env (mset \<circ> pw_given) (mset \<circ> pw_freed)"
  by (simp add: kv_qpairs_ok_def one_controller_env_def Let_def)

text \<open>
  Property C38. A constructor that returns had a non-empty address, a positive amount of memory and no
  other connector running, and is attached to a controller that SPDK found at the address, with the
  first of its namespaces whose format takes keys of 16 bytes and values of at least one byte; the
  limit of that format is the connector's.
\<close>

theorem construct_attaches:
  assumes "construct_kv_connector env pci_bdf mb trace m active d = (Inr u, s, active')"
  shows "pci_bdf \<noteq> [] \<and> 0 < mb \<and> \<not> active \<and> active' \<and>
    (\<exists>found c before ns kml v after d2. ke_probe env pci_bdf (snd (ke_env_init env mb d)) = (0, found, d2) \<and>
       (c, before @ Ns_format ns kml v # after) \<in> set found \<and> find_kv_namespace before = None \<and>
       16 \<le> kml \<and> v \<noteq> 0 \<and> kv_controller s = Some c \<and> kv_namespace s = Some ns \<and> kv_max_value_bytes s = v)"
proof -
  let ?s0 = "\<lambda>d1. (new_kv_connector pci_bdf trace m d)\<lparr>kv_world := d1, kv_runtime_initialized := True\<rparr>"
  have new: "kv_controller (?s0 d1) = None" "kv_world (?s0 d1) = d1" "kv_pci_bdf (?s0 d1) = pci_bdf" for d1
    by (simp_all add: new_kv_connector_def)
  obtain rc d1 u1 s1 s2 where c: "pci_bdf \<noteq> []" "0 < mb" "\<not> active" "active'" "ke_env_init env mb d = (rc, d1)"
    "initialize_runtime env (?s0 d1) = (Inr u1, s1)"
    "s2 = emit_event env ''ready'' ''attach'' pci_bdf (ucast (kv_max_value_bytes s1)) True 0 ''kv_namespace'' 0 s1"
    "s = s2\<lparr>kv_world := snd (ke_start_workers env (kv_world s2))\<rparr>"
    by (rule construct_success [OF assms])
  obtain cc nss found ns v d2 where i: "ke_probe env pci_bdf d1 = (0, found, d2)" "(cc, nss) \<in> set found"
    "find_kv_namespace nss = Some (ns, v)" "kv_attachment s1 = (Some cc, Some ns, v)"
    by (rule initialize_runtime_success [OF c(6) new(1), unfolded new])
  obtain before kml after where n: "nss = before @ Ns_format ns kml v # after" "find_kv_namespace before = None"
    "16 \<le> kml" "v \<noteq> 0"
    using find_kv_namespace_some [OF i(3)] by blast
  have "kv_attachment s = (Some cc, Some ns, v)"
    using i(4) emit_event_attachment(1) [of env "''ready''" "''attach''" pci_bdf
        "ucast (kv_max_value_bytes s1)" True 0 "''kv_namespace''" 0 s1]
    by (simp add: c(7,8) kv_attachment_def)
  then show ?thesis
    using c(1-5) i(1,2) n by (auto simp: kv_attachment_def)
qed

lemma one_controller_construct:
  "\<exists>s. construct_kv_connector one_controller_env ''0000:01:00.0'' 512 False (\<lambda>_. 0) False empty_spdk_world =
     (Inr (), s, True) \<and> kv_namespace s = Some 3"
  by (simp add: construct_kv_connector_def initialize_runtime_def attach_cb_def new_kv_connector_def emit_event_def
      one_controller_env_def Let_def)

theorem construct_attaches_witness:
  "\<exists>s. construct_kv_connector one_controller_env ''0000:01:00.0'' 512 False (\<lambda>_. 0) False empty_spdk_world =
     (Inr (), s, True) \<and> kv_max_value_bytes s \<noteq> 0"
  using one_controller_construct construct_attaches by fast

text \<open>
  Property C37. Whatever connectors a process makes and shuts down, and in whatever order, at most one
  of them runs: the SPDK environment is up exactly while one does, and the only attached controller is
  that one's, so none stays attached after a shutdown or a constructor that throws.
\<close>

theorem one_connector_per_process:
  assumes "kv_spdk_ok env up att" and "\<not> up d" "att d = {}"
    and "fold (kv_process_step env) events (False, [], d) = (active, cs, d')"
  shows "up d' = active \<and> length (filter kv_runtime_initialized cs) = (if active then 1 else 0) \<and>
    Some ` att d' = kv_controller ` {s \<in> set cs. kv_runtime_initialized s}"
proof -
  have "kv_process_ok up att (fold (kv_process_step env) events (False, [], d))"
    by (rule process_ok [OF assms(1)]) (simp add: assms(2,3))
  then have p: "kv_process_ok up att (active, cs, d')" unfolding assms(4) .
  show ?thesis
  proof (cases active)
    case True
    then obtain c where "up d'" "att d' = {c}" "map kv_controller (filter kv_runtime_initialized cs) = [Some c]"
      using p by (auto simp: kv_process_ok_cases simp del: kv_process_ok.simps)
    then show ?thesis using True by (auto simp flip: set_filter simp: map_eq_Cons_conv)
  next
    case False
    then have "\<not> up d'" "att d' = {}" "filter kv_runtime_initialized cs = []"
      using p by (auto simp: kv_process_ok_cases simp del: kv_process_ok.simps)
    then show ?thesis using False by (auto simp flip: set_filter)
  qed
qed

theorem one_connector_per_process_witness:
  "\<exists>cs d'. fold (kv_process_step one_controller_env)
       [Kp_construct ''0000:01:00.0'' 512 False (\<lambda>_. 0), Kp_construct ''0000:01:00.0'' 512 False (\<lambda>_. 0)]
       (False, [], empty_spdk_world) = (True, cs, d') \<and>
     length (filter kv_runtime_initialized cs) = 1 \<and> pw_up d'"
proof -
  obtain cs d' where run: "fold (kv_process_step one_controller_env)
       [Kp_construct ''0000:01:00.0'' 512 False (\<lambda>_. 0), Kp_construct ''0000:01:00.0'' 512 False (\<lambda>_. 0)]
       (False, [], empty_spdk_world) = (True, cs, d')"
    by (simp add: construct_kv_connector_def initialize_runtime_def attach_cb_def new_kv_connector_def emit_event_def
        one_controller_env_def Let_def)
  moreover have "\<not> pw_up empty_spdk_world" "pw_attached empty_spdk_world = {}" by (simp_all add: empty_spdk_world_def)
  ultimately show ?thesis using one_connector_per_process [OF one_controller_ok _ _ run] by simp
qed

text \<open>
  Property C39. Connections own their queue pairs: after creating, moving, assigning and destroying
  connections in any order, SPDK has given out exactly the queue pairs that were freed, each as often
  as it was given out, and those the remaining connections own. When all are destroyed, each was
  freed exactly once.
\<close>

theorem queue_pairs_freed_once:
  assumes "kv_qpairs_ok env given freed" and "given (kv_world s) = freed (kv_world s)"
    and "fold (kv_connection_step env) events ([], s) = (cs, s')"
  shows "given (kv_world s') = freed (kv_world s') + owned_qpairs cs \<and>
    (cs = [] \<longrightarrow> freed (kv_world s') = given (kv_world s'))"
  using connections_qpairs [OF assms(1) _ assms(3)] assms(2) by auto

theorem queue_pairs_freed_once_witness:
  "\<exists>s'. fold (kv_connection_step one_controller_env)
       [Cv_create, Cv_create, Cv_move 0, Cv_assign 2 1, Cv_destroy 0, Cv_destroy 0, Cv_destroy 0]
       ([], (new_kv_connector ''0000:01:00.0'' False (\<lambda>_. 0) empty_spdk_world)\<lparr>kv_controller := Some 5\<rparr>) = ([], s') \<and>
     mset (pw_freed (kv_world s')) = mset (pw_given (kv_world s')) \<and> length (pw_given (kv_world s')) = 2"
proof -
  let ?s = "(new_kv_connector ''0000:01:00.0'' False (\<lambda>_. 0) empty_spdk_world)\<lparr>kv_controller := Some 5\<rparr>"
  obtain s' where run: "fold (kv_connection_step one_controller_env)
       [Cv_create, Cv_create, Cv_move 0, Cv_assign 2 1, Cv_destroy 0, Cv_destroy 0, Cv_destroy 0]
       ([], ?s) = ([], s')" and "length (pw_given (kv_world s')) = 2"
    by (simp add: kv_create_connection_def connection_move_def connection_assign_def connection_destroy_def
        new_kv_connector_def empty_spdk_world_def one_controller_env_def kv_outside_def Let_def)
  moreover have "(mset \<circ> pw_given) (kv_world ?s) = (mset \<circ> pw_freed) (kv_world ?s)"
    by (simp add: new_kv_connector_def empty_spdk_world_def)
  ultimately have "(mset \<circ> pw_freed) (kv_world s') = (mset \<circ> pw_given) (kv_world s')"
    using queue_pairs_freed_once [OF one_controller_qpairs _ run] by blast
  with run \<open>length (pw_given (kv_world s')) = 2\<close> show ?thesis by (intro exI [of _ s'] conjI) simp_all
qed

end
