(* ===== verification/Connector_Store.thy ===== *)
theory Connector_Store
  imports Connector_Properties Object_Store
begin

text \<open>
  The bdev connector as a store of objects: what a client that only sees the sizes of the values may
  rely on over a sequence of requests.
\<close>

fun connector_call ::
  "'d spdk_env \<Rightarrow> u64 object_request \<Rightarrow> 'd connector \<Rightarrow> (bool result \<times> 'd connector) option" where
  "connector_call env (Rq_get key buffer len) c = unit_answer (do_single_get env key buffer len c)"
| "connector_call env (Rq_set key buffer len) c = unit_answer (do_single_set env key buffer len c)"
| "connector_call env (Rq_exists key) c = Some (map_prod Inr id (do_single_exists key c))"
| "connector_call env (Rq_delete key) c = Some (do_single_delete key c)"

fun sizes_spec :: "u64 object_request \<Rightarrow> (string, u64) map \<Rightarrow> (bool \<times> (string, u64) map) option" where
  "sizes_spec (Rq_get key buffer len) m = (if m key = Some len then Some (True, m) else None)"
| "sizes_spec (Rq_set key buffer len) m = (if len = 0 then None else Some (True, spec_set key len m))"
| "sizes_spec (Rq_exists key) m = Some (m key \<noteq> None, m)"
| "sizes_spec (Rq_delete key) m = Some (m key \<noteq> None, m(key := None))"

interpretation connector_store: object_store "connector_call env"
    "\<lambda>rq m a m'. sizes_spec rq m = Some (a, m')" sizes "conn_inv no_reservation"
  for env
proof
  fix c c' :: "'a connector" and rq answer
  assume inv: "conn_inv no_reservation c" and run: "connector_call env rq c = Some (Inr answer, c')"
  show "conn_inv no_reservation c' \<and> sizes_spec rq (sizes c) = Some (answer, sizes c')"
  proof (cases rq)
    case (Rq_get key buffer len)
    then have get: "do_single_get env key buffer len c = Some (Inr (), c')" and a: "answer"
      using run by (auto simp: unit_answer_Inr)
    note e = do_single_get_effect [OF inv get]
    have "sizes c' = sizes c" using e by (intro sizes_eq) simp
    moreover have "sizes c key = Some len" using e by (auto simp: sizes_def)
    ultimately show ?thesis using e a by (simp add: Rq_get)
  next
    case (Rq_set key buffer len)
    then have set: "do_single_set env key buffer len c = Some (Inr (), c')" and a: "answer"
      using run by (auto simp: unit_answer_Inr)
    show ?thesis using set_sizes [OF inv set] do_single_set_effect [OF inv set] a by (simp add: Rq_set)
  next
    case (Rq_exists key)
    then show ?thesis using run inv
      by (auto simp: sizes_def fun_eq_iff do_single_exists_def Let_def)
  next
    case (Rq_delete key)
    then show ?thesis using do_single_delete_effect [OF inv, of key "Inr answer" c'] run
      by (auto simp: sizes_def fun_eq_iff)
  qed
qed

lemma connector_serves:
  assumes "connector_reachable env c" and "serve (connector_call env) requests c = Some (answers, c')"
  shows "spec_results sizes_spec requests (sizes c) = Some (answers, sizes c')"
  using connector_store.served [OF connector_reachable_inv [OF assms(1)] assms(2)]
  by (intro spec_run_results) simp_all

end
