(* ===== verification/Connector_Status.thy ===== *)
theory Connector_Status
  imports Connector Bdev_Lifecycle
begin

text \<open>
  What the connector reports about itself: the accessors of the bdev context and of the runtime, and
  \<open>runtime_status\<close> (\<open>bdev/csrc/spdk_connector.cpp\<close>, \<open>bdev/csrc/spdk_pybind_common.cpp\<close>). A Python
  dictionary is the list of its entries in the order they are set.
\<close>

datatype status_value =
    Sv_bool bool
  | Sv_text string
  | Sv_number u64
  | Sv_dict "(string \<times> u64) list"

definition context_last_error :: "'d spdk_state \<Rightarrow> string" where
  "context_last_error = bc_last_error"

definition context_io_metrics :: "'d spdk_state \<Rightarrow> io_metrics" where
  "context_io_metrics = bc_metrics"

definition io_metrics_dict :: "io_metrics \<Rightarrow> (string \<times> u64) list" where
  "io_metrics_dict metrics =
     [(''physical_io_submitted'', m_submitted metrics),
      (''physical_io_completed'', m_completed metrics),
      (''physical_io_succeeded'', m_succeeded metrics),
      (''physical_io_failed'', m_failed metrics),
      (''worker_queue_wait_ns'', m_worker_queue_wait_ns metrics),
      (''dma_buffer_pool_starvation_count'', m_buffer_pool_starvations metrics),
      (''dma_buffer_pool_starvation_wait_ns'', m_buffer_pool_wait_ns metrics),
      (''spdk_enomem_queue_retry_count'', m_queue_retries metrics),
      (''spdk_enomem_queue_retry_wait_ns'', m_queue_retry_wait_ns metrics),
      (''dma_buffer_pool_allocated_bytes'', m_dma_buffer_pool_allocated_bytes metrics),
      (''dma_buffer_pool_in_use_bytes'', m_dma_buffer_pool_in_use_bytes metrics),
      (''dma_buffer_pool_peak_in_use_bytes'', m_dma_buffer_pool_peak_in_use_bytes metrics),
      (''submitted_logical_bytes'', m_submitted_logical_bytes metrics),
      (''submitted_physical_bytes'', m_submitted_physical_bytes metrics),
      (''submitted_unused_dma_buffer_bytes'', m_submitted_unused_dma_buffer_bytes metrics),
      (''submitted_write_padding_bytes'', m_submitted_write_padding_bytes metrics)]"

definition runtime_status :: "'d connector \<Rightarrow> (string \<times> status_value) list" where
  "runtime_status c =
     (let context = cn_context c
      in [(''is_available'', Sv_bool (is_available context)),
          (''last_error'', Sv_text (context_last_error context)),
          (''effective_io_segment_bytes'', Sv_number (io_segment_size (bc_geometry context))),
          (''bdev_max_rw_size_bytes'', Sv_number (bdev_max_rw_size_bytes (bc_geometry context))),
          (''io_metrics'', Sv_dict (io_metrics_dict (context_io_metrics context)))])"

text \<open>
  \<open>SpdkConnector::close\<close> up to the wait of \<open>SpdkBdevContext::close\<close>; \<open>base_close\<close> is
  \<open>ConnectorBase::close\<close>, which joins the request workers.
\<close>

definition connector_close_begin ::
  "('d connector \<Rightarrow> 'd connector) \<Rightarrow> 'd life_env \<Rightarrow> 'd connector \<Rightarrow> 'd connector" where
  "connector_close_begin base_close env c =
     (let c1 = base_close c in c1\<lparr>cn_context := close_begin env (cn_context c1)\<rparr>)"

text \<open>No entry of a dictionary overwrites another.\<close>

lemma distinct_status: "distinct (map fst (io_metrics_dict m))" "distinct (map fst (runtime_status c))"
  by (simp_all add: io_metrics_dict_def runtime_status_def Let_def)

lemma post_closed: "bc_closed (snd (runtime_post env t m rt s)) = bc_closed s"
  by (simp add: runtime_post_def thread_send_msg_def case_prod_unfold split: option.split)

lemma request_shutdown_closed: "bc_closed (request_shutdown env rc e s) = bc_closed s"
  by (auto simp: request_shutdown_def post_closed Let_def case_prod_unfold split: option.split sum.split)

text \<open>From the moment it is closed a connector reports that it is not available.\<close>

lemma closed_unavailable:
  "map_of (runtime_status (connector_close_begin base_close env c)) ''is_available'' = Some (Sv_bool False)"
proof -
  have "bc_closed (close_begin env s)" for s
    by (simp add: close_begin_def request_shutdown_closed Let_def)
  then show ?thesis
    by (simp add: runtime_status_def connector_close_begin_def is_available_def Let_def)
qed

end
