(* ===== verification/Spec2Isabelle.thy ===== *)
theory Spec2Isabelle
  imports Page_Allocator Config_Text Bdev_Properties Bdev_Lifecycle_Ready Bdev_Workers
    Connector_Properties Connector_Batches Kv_Properties Kv_Process Connector_Store Connector_Status
begin

text \<open>
  The program. The repository holds two storage back ends for a key-value cache. Both are C++
  classes derived from LMCache's \<open>ConnectorBase\<close>, which is not part of the repository: it owns the
  worker threads and calls the operations on single keys and on batches of keys.

  The first, \<open>src/bdev/csrc\<close>, stores values on an SPDK block device. \<open>SpdkConnector\<close>
  (\<open>spdk_connector.cpp\<close>) keeps the map from keys to entries, reserves pages from a
  \<open>PageExtentAllocator\<close>, turns an entry into segments of at most one I/O and submits them as a batch
  to a \<open>SpdkBdevContext\<close> (\<open>spdk/spdk_bdev_context.cpp\<close>). The context distributes the segments over I/O
  workers, SPDK threads with a channel and a \<open>SpdkBufferPool\<close> of DMA buffers each, and waits until every
  one is completed. The threads and the SPDK application belong to the one \<open>SpdkRuntime\<close> of the
  process (\<open>spdk/spdk_runtime.cpp\<close>).
  The second, \<open>src/nvme-kv/csrc/native_kv_connector.cpp\<close>, sends the commands of the NVMe Key Value
  command set to one namespace, one command at a time, and polls for its completion.

  Foundations.
    \<open>Spdk_Prelude\<close>: the integers of the code, C++ exceptions as values (\<open>exn\<close>, \<open>'a result\<close>), operations
      as functions from a state to a result and the next state, lemmas on words and lists.
    \<open>Ordered_Map\<close>: \<open>std::map\<close> with \<open>lower_bound\<close>, on sorted association lists.
    \<open>Byte_Memory\<close>: memories and devices as functions from addresses to bytes, \<open>std::memcpy\<close>.
    \<open>Object_Store\<close>: the contract of both connectors (below).

  The bdev back end, in the order of its layers.
    \<open>Page_Allocator\<close>: \<open>page_extent_allocator.{h,cpp}\<close>. The abstract view of an allocator is its set of
      free pages. Its invariant, that an allocation takes the lowest free pages and nothing else, that
      releasing is the inverse, and what a refused release leaves behind.
    \<open>Storage_Geometry\<close>: \<open>storage_geometry.{h,cpp}\<close>, with every overflow check at its width.
    \<open>Buffer_Pool\<close>: \<open>spdk_buffer_pool.{h,cpp}\<close>; \<open>spdk_dma_zmalloc\<close> and \<open>spdk_dma_free\<close> are a heap given as an
      argument. Nothing leaks when initialisation fails half way.
    \<open>Config_Text\<close>, \<open>Io_Types\<close>: parsing of log flags, levels and booleans, the core mask of
      \<open>spdk_pybind_common.cpp\<close>, and the value types and conversions of \<open>spdk_config.h\<close> and the binding.
    \<open>Spdk_Runtime\<close>: \<open>spdk_runtime.{h,cpp}\<close>. The process is a state (registry, runtime, claimed bdevs)
      and what the process can do (acquire, drop, exit, claim, release) the rules of the step
      relation \<open>process_step\<close>: in every reachable process SPDK is started at most once,
      runtimes are shared exactly when the settings agree, and a stopped process stays stopped.
    \<open>Bdev_Context\<close>, \<open>Bdev_Io\<close>, \<open>Bdev_Batch\<close>: the I/O path of \<open>spdk_bdev_context.cpp\<close>: requests, batches,
      messages and FIFOs as tables of the state; submission, execution on a worker, parking when no
      buffer is free, retrying when SPDK is out of descriptors, completion and the wake-up.
    \<open>Bdev_Events\<close>, \<open>Bdev_System\<close>: the handlers SPDK can run as events, and the transition system of any
      number of callers and any order of events. \<open>Bdev_Invariant\<close> has the invariant, one lemma per move,
      \<open>Bdev_Properties\<close> what follows in every state that a ready context reaches before it is shut down
      (\<open>io_steps\<close>, and \<open>io_run\<close>, which also counts the items lost in refused batches): the numbers,
      completion exactly once, the drain, and that a batch returns. A shutdown frees the buffers under
      commands that SPDK still has, so the numbers are not claimed after it.
    \<open>Bdev_Lifecycle\<close>: construction, opening, preparation of the workers, device events, shutdown and
      \<open>close\<close>. The two waits cut the constructor and \<open>close\<close> into the part before and the part after.
      \<open>Lifecycle_Protocol\<close> is the handshake alone, as an abstract step relation with its own invariant;
      \<open>Bdev_Lifecycle_Refinement\<close>, \<open>_Io\<close> and \<open>_Steps\<close> show by simulation that every handler is
      a step of it, \<open>_Properties\<close> transfers what it promises, and \<open>_Ready\<close> closes the circle: an
      initialisation that succeeds gives the state from which the I/O properties start.
      \<open>Bdev_Workers\<close> has the workers themselves: as many as configured, in order, on different cores.
    \<open>Segments\<close>, \<open>Connector\<close>: \<open>spdk_connector.cpp\<close>: segments, entries, reservations, the operations on
      single keys and on batches, with the locks of several keys taken in sorted order.
      \<open>Connector_Pages\<close> is the ownership of pages, whatever the bdev answers; \<open>Connector_Properties\<close> the refinement of
      a map from keys to value sizes; \<open>Connector_Batches\<close> what the batches of several keys do to the
      bdev: a store that reports success wrote every segment of every key, a load answers for each key by the
      results of its own segments; \<open>Connector_Store\<close> the refinement for any sequence of requests;
      \<open>Connector_Status\<close> what the connector reports about itself.

  The NVMe-KV back end, \<open>native_kv_connector.{h,cpp}\<close>.
    \<open>Kv_Connector\<close>: attaching the controller, key derivation, commands, the waiting loop, the operations,
      and the resources. \<open>Kv_Device\<close>: what is relied on of the device, and what the loop leaves behind.
      \<open>Kv_Operations\<close>: each operation against an abstract map from device keys to values.
    \<open>Kv_Resources\<close>: the operations return and free their buffer. \<open>Kv_Prompt\<close>: a device that answers
      in time. \<open>Kv_Properties\<close>: the properties. \<open>Kv_Process\<close>: the construction, destruction and moves of
      connectors and connections over the life of a process.

  Interfaces. The locale \<open>page_store\<close> (\<open>Page_Allocator\<close>) is what the connector relies on of an allocator,
  \<open>lease_pool\<close> (\<open>Buffer_Pool\<close>) what the I/O path relies on of a buffer pool, \<open>object_store\<close>
  (\<open>Object_Store\<close>) what a sequence of requests relies on of single operations: one that succeeds is
  related to the step it makes on the abstract map, one that fails keeps the invariant. The abstract step is a
  relation, since the device may answer an EXIST with an error although the key is there; with
  a device that answers it exactly (\<open>kv_exists_exact\<close>) it is a function. The model's own allocator and pool interpret the
  first two; the third has two interpretations, the bdev connector with sizes as its
  abstract values (\<open>Connector_Store\<close>) and the NVMe-KV connector with bytes (\<open>Kv_Operations\<close>).

  Other code. The functions of SPDK, the clock and OpenSSL's digest are records of functions and oracles (\<open>spdk_env\<close>, \<open>life_env\<close>,
  \<open>kv_env\<close>), universally quantified in the properties: whatever SPDK accepts, refuses or reports, in
  any order, is covered, unless a property names what it relies on (that a message is accepted, that
  the device implements the command set, that two keys have different digests). Each of these has a
  witness on a concrete device.

  Loops and bounds. No definition uses fuel. Recursion over a page list or a FIFO ends by a measure
  (\<open>append_extent\<close>: the bytes left of the extent, \<open>drain_loop\<close>: the length of the FIFO). The two loops that depend on
  another party are partial functions whose value is \<open>None\<close> when they do not return: \<open>wait_for_batch\<close>,
  shown to return by \<open>batch_returns\<close> when SPDK's queue is not full for ever
  (\<open>patient\<close>), and the polling loop
  \<open>wait_loop\<close>, shown to return by \<open>kv_call_returns\<close> because the clock passes the deadline. Shutdown
  has an explicit bound on the number of messages (\<open>shutdown_terminates\<close>). Sizes, offsets and
  counters are 64-bit or 32-bit words; a property that needs the absence of wrap-around derives it from the checks of the
  code or names the bound.

  Not modelled. The registration of classes with pybind11 and the Python packages, which have no part
  in the native operations (\<open>spdk_pybind.cpp\<close>, \<open>pybind.cpp\<close>, the \<open>.py\<close> files); the smoke programs, tests
  and builds. \<open>ConnectorBase\<close> is not in the repository. Real concurrency inside one handler: the code
  protects the shared state by mutexes or confines it to an SPDK thread, and the model takes a handler or a
  critical section as one step, in any order with the others; C++ memory orders of the
  atomic counters are therefore not visible. The operations of the NVMe-KV connector run one after the other. The
  affinity of threads, names given to threads and the text of log lines are left out. The timestamps are
  64-bit numbers that the environment supplies.
  A wait on a condition variable is modelled by its predicate: a waiter goes on in any state in which the
  predicate holds. The calls of \<open>notify_one\<close> and \<open>notify_all\<close> are therefore not visible
  (\<open>complete_request\<close>, \<open>publish_initialization_f\<close>, \<open>on_io_worker_initialized\<close>,
  \<open>finish_shutdown\<close>); each of them follows, under the same mutex, the change that makes the predicate true.
  \<open>submit_batch\<close> is the part of \<open>submit_batch_and_wait\<close> from the allocation of the batch on; an empty
  batch returns before it and never reaches it. The source runs it without a lock, and the model takes
  it as one step: what it shares with the other threads are atomic counters and the message rings of SPDK, and the
  requests are its own until the message that carries them is accepted.
  Failures of the C++ heap (\<open>std::bad_alloc\<close>, \<open>std::length_error\<close> of \<open>vector::reserve\<close>) are not modelled;
  those of SPDK's DMA heap are.
\<close>

end
